(* ===== verification/Prelude.thy ===== *)
theory Prelude
  imports Main "HOL-Library.Word"
begin

unbundle bit_operations_syntax

text \<open>
  What every component shares: bytes, Python's exceptions as values, Python indexing
  and slicing on lists, little-endian reads, and the generic lemmas about them.
  A Python function that can raise returns a value of type \<open>'a res\<close>: \<open>Inl\<close> the
  exception, or \<open>Inr\<close> the result.
\<close>

section \<open>Bytes and results\<close>

type_synonym byte = "8 word"

datatype py_error =
    IndexError
  | ValueError
  | KeyError
  | ZeroDivisionError
  | AssertionError
  | AttributeError
  | OSError
  | StructError
  | RuntimeError string
  | SystemExit string

type_synonym 'a res = "py_error + 'a"

definition bind_res :: "'a res \<Rightarrow> ('a \<Rightarrow> 'b res) \<Rightarrow> 'b res" where
  "bind_res m f = (case m of Inl e \<Rightarrow> Inl e | Inr x \<Rightarrow> f x)"

lemma bind_res_simps [simp]:
  "bind_res (Inl e) f = Inl e"
  "bind_res (Inr x) f = f x"
  by (simp_all add: bind_res_def)

lemma bind_res_eq_Inr:
  "bind_res m f = Inr y \<longleftrightarrow> (\<exists>x. m = Inr x \<and> f x = Inr y)"
  by (cases m) auto

lemma bind_res_InrE [elim!]:
  assumes "bind_res m f = Inr y"
  obtains x where "m = Inr x" and "f x = Inr y"
  using assms by (auto simp: bind_res_eq_Inr)

lemma bind_res_cong [fundef_cong]:
  assumes "m = m'" and "\<And>x. m' = Inr x \<Longrightarrow> f x = f' x"
  shows "bind_res m f = bind_res m' f'"
  using assms by (cases m') auto

text \<open>A \<open>bytes\<close> literal.\<close>

definition lit :: "string \<Rightarrow> byte list" where
  "lit s = map of_char s"

section \<open>Bits of bytes and of Python's non-negative integers\<close>

named_theorems byte_bits \<open>masks as \<open>take_bit\<close>, and the bits of a byte read as a number\<close>

lemma and_nat_masks [byte_bits]:
  "(x::nat) AND 0xFFF = take_bit 12 x"
  "(x::nat) AND 0xFF = take_bit 8 x"
  "(x::nat) AND 0x0F = take_bit 4 x"
  by (simp_all add: take_bit_eq_mask mask_eq_exp_minus_1)

lemma bit_high_nibble [byte_bits]: "bit (0xF0::nat) n \<longleftrightarrow> 4 \<le> n \<and> n < 8"
proof -
  have "(0xF0::nat) = push_bit 4 (mask 4)"
    by (simp add: mask_eq_exp_minus_1 push_bit_eq_mult)
  then show ?thesis by (simp only: bit_push_bit_iff bit_mask_iff) auto
qed

lemma bit_unat_byte [byte_bits]: "bit (unat (b::byte)) n \<longleftrightarrow> bit b n"
  by (auto simp: bit_unsigned_iff dest: bit_imp_le_length)

lemma unat_of_nat_byte [byte_bits]: "unat (of_nat x :: byte) = take_bit 8 x"
  by (simp add: unat_of_nat take_bit_eq_mod)

lemma bit_byte_length [dest]: "bit (b::byte) n \<Longrightarrow> n < 8"
  by (auto dest: bit_imp_le_length)

lemma unat_byte_less [simp]: "unat (b::byte) < 256"
  using unsigned_less [of b, where ?'a = nat] by simp

section \<open>Python sequences\<close>

text \<open>\<open>xs[i]\<close> for a non-negative index.\<close>

definition idx :: "'a list \<Rightarrow> nat \<Rightarrow> 'a res" where
  "idx xs i = (if i < length xs then Inr (xs ! i) else Inl IndexError)"

lemma idx_Inr [simp]: "i < length xs \<Longrightarrow> idx xs i = Inr (xs ! i)"
  by (simp add: idx_def)

lemma idx_Inl [simp]: "length xs \<le> i \<Longrightarrow> idx xs i = Inl IndexError"
  by (simp add: idx_def)

lemma idx_eq_Inr: "idx xs i = Inr x \<longleftrightarrow> i < length xs \<and> x = xs ! i"
  by (auto simp: idx_def)

lemma idx_cong:
  assumes "length xs = length ys" and "i < length ys \<Longrightarrow> xs ! i = ys ! i"
  shows "idx xs i = idx ys i"
  using assms by (simp add: idx_def)

text \<open>\<open>xs[i]\<close> for any integer, negative ones counted from the end.\<close>

definition py_index :: "'a list \<Rightarrow> int \<Rightarrow> 'a res" where
  "py_index xs i =
     (if - int (length xs) \<le> i \<and> i < int (length xs)
      then Inr (xs ! nat (if i < 0 then i + int (length xs) else i)) else Inl IndexError)"

text \<open>\<open>xs[i] = x\<close> on a bytearray for a non-negative index.\<close>

definition upd :: "'a list \<Rightarrow> nat \<Rightarrow> 'a \<Rightarrow> 'a list res" where
  "upd xs i x = (if i < length xs then Inr (xs[i := x]) else Inl IndexError)"

lemma upd_Inr [simp]: "i < length xs \<Longrightarrow> upd xs i x = Inr (xs[i := x])"
  by (simp add: upd_def)

lemma upd_eq_Inr: "upd xs i x = Inr ys \<longleftrightarrow> i < length xs \<and> ys = xs[i := x]"
  by (auto simp: upd_def)

text \<open>
  The same assignment of an integer, which a bytearray refuses outside \<open>range(256)\<close>.
\<close>

definition upd_byte :: "byte list \<Rightarrow> nat \<Rightarrow> nat \<Rightarrow> byte list res" where
  "upd_byte xs i n =
     (if i < length xs then
        if n < 256 then Inr (xs[i := of_nat n]) else Inl ValueError
      else Inl IndexError)"

lemma upd_byte_Inr [simp]:
  "i < length xs \<Longrightarrow> n < 256 \<Longrightarrow> upd_byte xs i n = Inr (xs[i := of_nat n])"
  by (simp add: upd_byte_def)

lemma upd_byte_eq_Inr:
  "upd_byte xs i n = Inr ys \<longleftrightarrow> i < length xs \<and> n < 256 \<and> ys = xs[i := of_nat n]"
  by (auto simp: upd_byte_def)

text \<open>A slice bound counted from the end when negative, then clipped to the list.\<close>

definition slice_bound :: "nat \<Rightarrow> int \<Rightarrow> nat" where
  "slice_bound n i = (if i < 0 then nat (int n + i) else min n (nat i))"

definition slice :: "'a list \<Rightarrow> int \<Rightarrow> int \<Rightarrow> 'a list" where
  "slice xs i j =
     (let a = slice_bound (length xs) i; b = slice_bound (length xs) j
      in take (b - a) (drop a xs))"

lemma slice_nonneg: "slice xs (int i) (int j) = take (j - i) (drop i xs)"
proof (cases "i \<le> length xs")
  case True
  then show ?thesis by (simp add: slice_def slice_bound_def min_def)
next
  case False
  then show ?thesis by (simp add: slice_def slice_bound_def)
qed

lemma slice_from_start: "slice xs 0 (int j) = take j xs"
  using slice_nonneg [of xs 0 j] by simp

end
