(* ===== verification/Fat_Table.thy ===== *)
theory Fat_Table
  imports Prelude
begin

text \<open>
  The file allocation table as an array of cluster entries: the FAT12 packing (two
  12-bit entries in three bytes) and the FAT16 packing (two bytes, little-endian) of
  \<open>Vol.get\<close> and \<open>Vol.set\<close> in src/tools/fat12-proto/fatx.py, and the reference
  functions \<open>ref_get\<close> and \<open>ref_set\<close> of src/tools/fat12-proto/sim12.py against which
  the kernel's own code is tested. The locale \<open>fat_codec\<close> is the interface they
  share; chains of clusters are written and read back through it alone.
\<close>

section \<open>The FAT12 packing\<close>

definition get12 :: "byte list \<Rightarrow> nat \<Rightarrow> nat res" where
  "get12 fat c =
     (let p = c + c div 2 in
      bind_res (idx fat p) (\<lambda>b0.
      bind_res (idx fat (p + 1)) (\<lambda>b1.
      let w = unat b0 OR push_bit 8 (unat b1) in
      Inr (if odd c then drop_bit 4 w else w AND 0xFFF))))"

definition set12 :: "byte list \<Rightarrow> nat \<Rightarrow> nat \<Rightarrow> byte list res" where
  "set12 fat c v0 =
     (let p = c + c div 2; v = v0 AND 0xFFF in
      bind_res (idx fat p) (\<lambda>b0.
      if odd c then
        bind_res (upd_byte fat p ((unat b0 AND 0x0F) OR (push_bit 4 v AND 0xF0))) (\<lambda>fat1.
        upd_byte fat1 (p + 1) (drop_bit 4 v))
      else
        bind_res (upd_byte fat p (v AND 0xFF)) (\<lambda>fat1.
        bind_res (idx fat1 (p + 1)) (\<lambda>b1.
        upd_byte fat1 (p + 1) ((unat b1 AND 0xF0) OR drop_bit 8 v)))))"

section \<open>The FAT16 packing\<close>

text \<open>
  \<open>struct.unpack_from\<close> and \<open>struct.pack_into\<close> with \<open><H\<close>: both raise when the two
  bytes do not lie in the buffer, packing also when the value needs more than 16 bits.
\<close>

definition unpack_H :: "byte list \<Rightarrow> nat \<Rightarrow> nat res" where
  "unpack_H xs p =
     (if p + 2 \<le> length xs then Inr (unat (xs ! p) OR push_bit 8 (unat (xs ! (p + 1))))
      else Inl StructError)"

definition pack_H :: "byte list \<Rightarrow> nat \<Rightarrow> nat \<Rightarrow> byte list res" where
  "pack_H xs p v =
     (if p + 2 \<le> length xs \<and> v < 0x10000
      then Inr (xs[p := of_nat (v AND 0xFF), p + 1 := of_nat (drop_bit 8 v)])
      else Inl StructError)"

definition get16 :: "byte list \<Rightarrow> nat \<Rightarrow> nat res" where
  "get16 fat c = unpack_H fat (2 * c)"

definition set16 :: "byte list \<Rightarrow> nat \<Rightarrow> nat \<Rightarrow> byte list res" where
  "set16 fat c v = pack_H fat (2 * c) v"

section \<open>The two packings as bit vectors\<close>

text \<open>The four bytes \<open>set12\<close> computes, and the two values \<open>get12\<close> reads.\<close>

definition even_lo :: "nat \<Rightarrow> nat" where
  "even_lo v = (v AND 0xFFF) AND 0xFF"

definition even_hi :: "nat \<Rightarrow> nat \<Rightarrow> nat" where
  "even_hi b v = (b AND 0xF0) OR drop_bit 8 (v AND 0xFFF)"

definition odd_lo :: "nat \<Rightarrow> nat \<Rightarrow> nat" where
  "odd_lo b v = (b AND 0x0F) OR (push_bit 4 (v AND 0xFFF) AND 0xF0)"

definition odd_hi :: "nat \<Rightarrow> nat" where
  "odd_hi v = drop_bit 4 (v AND 0xFFF)"

definition read_even :: "nat \<Rightarrow> nat \<Rightarrow> nat" where
  "read_even b0 b1 = (b0 OR push_bit 8 b1) AND 0xFFF"

definition read_odd :: "nat \<Rightarrow> nat \<Rightarrow> nat" where
  "read_odd b0 b1 = drop_bit 4 (b0 OR push_bit 8 b1)"

lemmas nibble_defs = even_lo_def even_hi_def odd_lo_def odd_hi_def read_even_def read_odd_def

lemma less_256I: "take_bit 8 x = x \<Longrightarrow> x < (256::nat)"
  using take_bit_nat_less_exp [of 8 x] by simp

lemma nibble_bounds [simp]:
  "even_lo v < 256" "even_hi (unat (b::byte)) v < 256"
  "odd_lo (unat b) v < 256" "odd_hi v < 256"
  by (rule less_256I, rule bit_eqI, auto simp: nibble_defs bit_simps byte_bits)+

lemma nibble_unat [simp]:
  "unat (of_nat (even_lo v) :: byte) = even_lo v"
  "unat (of_nat (even_hi (unat (b::byte)) v) :: byte) = even_hi (unat b) v"
  "unat (of_nat (odd_lo (unat b) v) :: byte) = odd_lo (unat b) v"
  "unat (of_nat (odd_hi v) :: byte) = odd_hi v"
  by (simp_all add: unat_of_nat)

lemma read_written [simp]:
  "read_even (even_lo v) (even_hi b v) = v AND 0xFFF"
  "read_odd (odd_lo b v) (odd_hi v) = v AND 0xFFF"
  by (rule bit_eqI, auto simp: nibble_defs bit_simps byte_bits)+

lemma read_kept [simp]:
  "read_odd (even_hi (unat (b1::byte)) v) (unat (b2::byte)) = read_odd (unat b1) (unat b2)"
  "read_even (unat (b0::byte)) (odd_lo (unat b1) v) = read_even (unat b0) (unat b1)"
  by (rule bit_eqI, auto simp: nibble_defs bit_simps byte_bits)+

section \<open>The interface of a cluster table\<close>

text \<open>
  Consecutive entries of \<open>cs\<close> point to each other and the last one holds \<open>z\<close>: the
  shape of a file's chain, read through \<open>g\<close>, with \<open>nm\<close> what a stored value reads as.
\<close>

fun linked :: "(nat \<Rightarrow> nat res) \<Rightarrow> (nat \<Rightarrow> nat) \<Rightarrow> nat \<Rightarrow> nat list \<Rightarrow> bool" where
  "linked g nm z [] = True"
| "linked g nm z [c] = (g c = Inr (nm z))"
| "linked g nm z (c # d # cs) = (g c = Inr (nm d) \<and> linked g nm z (d # cs))"

text \<open>The stores that make such a chain, in the order of \<open>Vol.putroot\<close>'s loop.\<close>

fun link_chain :: "('t \<Rightarrow> nat \<Rightarrow> nat \<Rightarrow> 't res) \<Rightarrow> nat \<Rightarrow> 't \<Rightarrow> nat list \<Rightarrow> 't res" where
  "link_chain put z t [] = Inr t"
| "link_chain put z t [c] = put t c z"
| "link_chain put z t (c # d # cs) = bind_res (put t c d) (\<lambda>t1. link_chain put z t1 (d # cs))"

lemma linked_cong:
  assumes "\<And>c. c \<in> set cs \<Longrightarrow> g c = g' c"
  shows "linked g nm z cs = linked g' nm z cs"
  using assms by (induction g nm z cs rule: linked.induct) auto

locale fat_codec =
  fixes get :: "'t \<Rightarrow> nat \<Rightarrow> nat res"
    and put :: "'t \<Rightarrow> nat \<Rightarrow> nat \<Rightarrow> 't res"
    and norm :: "'t \<Rightarrow> nat \<Rightarrow> nat"
    and has :: "'t \<Rightarrow> nat \<Rightarrow> bool"
    and fits :: "'t \<Rightarrow> nat \<Rightarrow> bool"
  assumes get_total: "has t c \<longleftrightarrow> (\<exists>v. get t c = Inr v)"
    and put_total: "(\<exists>t'. put t c v = Inr t') \<longleftrightarrow> has t c \<and> fits t v"
    and get_put_same: "put t c v = Inr t' \<Longrightarrow> get t' c = Inr (norm t v)"
    and get_put_other: "put t c v = Inr t' \<Longrightarrow> d \<noteq> c \<Longrightarrow> get t' d = get t d"
    and put_frame: "put t c v = Inr t' \<Longrightarrow> norm t' = norm t \<and> fits t' = fits t"
begin

lemma has_put: "put t c v = Inr t' \<Longrightarrow> has t' d = has t d"
  using get_total get_put_same get_put_other by (metis put_total)

lemma link_chain_frame:
  "link_chain put z t cs = Inr t' \<Longrightarrow>
     norm t' = norm t \<and> fits t' = fits t \<and> (\<forall>d. has t' d = has t d)
     \<and> (\<forall>d. d \<notin> set cs \<longrightarrow> get t' d = get t d)"
proof (induction cs arbitrary: t rule: induct_list012)
  case (2 c)
  then show ?case by (auto simp: has_put get_put_other dest: put_frame)
next
  case (3 c d cs)
  then obtain t1 where t1: "put t c d = Inr t1" "link_chain put z t1 (d # cs) = Inr t'"
    by auto
  from "3.IH"(2) [OF t1(2)] put_frame [OF t1(1)] has_put [OF t1(1)] get_put_other [OF t1(1)]
  show ?case by auto
qed simp

lemma link_chain_linked:
  "distinct cs \<Longrightarrow> link_chain put z t cs = Inr t' \<Longrightarrow> linked (get t') (norm t) z cs"
proof (induction cs arbitrary: t rule: induct_list012)
  case (2 c)
  then show ?case by (auto dest: get_put_same)
next
  case (3 c d cs)
  then obtain t1 where t1: "put t c d = Inr t1" "link_chain put z t1 (d # cs) = Inr t'"
    by auto
  have "linked (get t') (norm t) z (d # cs)"
    using "3.IH"(2) [OF _ t1(2)] "3.prems"(1) put_frame [OF t1(1)] by simp
  moreover have "get t' c = Inr (norm t d)"
    using link_chain_frame [OF t1(2)] get_put_same [OF t1(1)] "3.prems"(1) by auto
  ultimately show ?case by simp
qed simp

lemma link_chain_total:
  "\<forall>c\<in>set cs. has t c \<and> fits t c \<Longrightarrow> fits t z \<Longrightarrow> \<exists>t'. link_chain put z t cs = Inr t'"
proof (induction cs arbitrary: t rule: induct_list012)
  case (2 c)
  then show ?case using put_total by auto
next
  case (3 c d cs)
  then obtain t1 where t1: "put t c d = Inr t1"
    using put_total by fastforce
  have "\<exists>t'. link_chain put z t1 (d # cs) = Inr t'"
    by (rule "3.IH"(2)) (use "3.prems" has_put [OF t1] put_frame [OF t1] in auto)
  with t1 show ?case by simp
qed simp

end

section \<open>The two packings provide it\<close>

definition has12 :: "byte list \<Rightarrow> nat \<Rightarrow> bool" where
  "has12 fat c \<longleftrightarrow> c + c div 2 + 1 < length fat"

definition has16 :: "byte list \<Rightarrow> nat \<Rightarrow> bool" where
  "has16 fat c \<longleftrightarrow> 2 * c + 2 \<le> length fat"

lemma get12_eq:
  "get12 fat c =
     (if has12 fat c
      then Inr ((if odd c then read_odd else read_even)
             (unat (fat ! (c + c div 2))) (unat (fat ! (c + c div 2 + 1))))
      else Inl IndexError)"
  by (auto simp: get12_def has12_def Let_def idx_def read_even_def read_odd_def)

lemma set12_folded:
  "set12 fat c v =
     (let p = c + c div 2 in
      bind_res (idx fat p) (\<lambda>b0.
      if odd c then
        bind_res (upd_byte fat p (odd_lo (unat b0) v)) (\<lambda>fat1.
        upd_byte fat1 (p + 1) (odd_hi v))
      else
        bind_res (upd_byte fat p (even_lo v)) (\<lambda>fat1.
        bind_res (idx fat1 (p + 1)) (\<lambda>b1.
        upd_byte fat1 (p + 1) (even_hi (unat b1) v)))))"
  by (simp only: set12_def nibble_defs Let_def)

lemma set12_eq:
  "set12 fat c v =
     (if has12 fat c
      then Inr (fat
        [c + c div 2 := of_nat (if odd c then odd_lo (unat (fat ! (c + c div 2))) v else even_lo v),
         c + c div 2 + 1 := of_nat (if odd c then odd_hi v
            else even_hi (unat (fat ! (c + c div 2 + 1))) v)])
      else Inl IndexError)"
  by (auto simp: set12_folded has12_def Let_def idx_def upd_byte_def)

lemma get_set12_same:
  assumes "set12 fat c v = Inr fat'"
  shows "get12 fat' c = Inr (v AND 0xFFF)"
  using assms
  by (auto simp: set12_eq get12_eq has12_def simp del: of_nat_eq_0_iff split: if_splits)

lemma get_set12_other:
  assumes "set12 fat c v = Inr fat'" and "d \<noteq> c"
  shows "get12 fat' d = get12 fat d"
proof -
  have "\<exists>k. (c = 2 * k \<or> c = 2 * k + 1)" and "\<exists>j. (d = 2 * j \<or> d = 2 * j + 1)"
    by presburger+
  then obtain k j where "c = 2 * k \<or> c = 2 * k + 1" and "d = 2 * j \<or> d = 2 * j + 1"
    by blast
  with assms show ?thesis
    by (cases "j = k")
      (auto simp: set12_eq get12_eq has12_def nth_list_update split: if_splits)
qed

interpretation c12: fat_codec get12 set12 "\<lambda>_ v. v AND 0xFFF" has12 "\<lambda>_ _. True"
proof unfold_locales
  show "has12 t c \<longleftrightarrow> (\<exists>v. get12 t c = Inr v)" for t c
    by (simp add: get12_eq)
  show "(\<exists>t'. set12 t c v = Inr t') \<longleftrightarrow> has12 t c \<and> True" for t c v
    by (simp add: set12_eq)
qed (auto intro: get_set12_same get_set12_other)

lemma bit_of_H: "v < 0x10000 \<Longrightarrow> (v AND 0xFF) OR push_bit 8 (take_bit 8 (drop_bit 8 v)) = (v::nat)"
proof -
  assume "v < 0x10000"
  then have v: "v = take_bit 16 v" by (simp add: take_bit_eq_mod)
  have "(take_bit 16 v AND 0xFF) OR push_bit 8 (take_bit 8 (drop_bit 8 (take_bit 16 v))) = take_bit 16 v"
    by (rule bit_eqI) (auto simp: bit_simps byte_bits)
  with v show ?thesis by simp
qed

lemma unpack_pack_H_same:
  assumes "pack_H xs p v = Inr ys"
  shows "unpack_H ys p = Inr v"
proof -
  from assms have "v < 0x10000" and "p + 2 \<le> length xs"
    and "ys = xs[p := of_nat (v AND 0xFF), p + 1 := of_nat (drop_bit 8 v)]"
    by (auto simp: pack_H_def split: if_splits)
  then show ?thesis
    using bit_of_H [of v] by (simp add: unpack_H_def unat_of_nat_byte take_bit_eq_mask and_nat_masks)
qed

lemma unpack_pack_H_other:
  assumes "pack_H xs p v = Inr ys" and "q + 2 \<le> p \<or> p + 2 \<le> q"
  shows "unpack_H ys q = unpack_H xs q"
  using assms by (auto simp: pack_H_def unpack_H_def split: if_splits)

interpretation c16: fat_codec get16 set16 "\<lambda>_ v. v" has16 "\<lambda>_ v. v < 0x10000"
proof unfold_locales
  show "has16 t c \<longleftrightarrow> (\<exists>v. get16 t c = Inr v)" for t c
    by (simp add: get16_def unpack_H_def has16_def)
  show "(\<exists>t'. set16 t c v = Inr t') \<longleftrightarrow> has16 t c \<and> v < 0x10000" for t c v
    by (simp add: set16_def pack_H_def has16_def)
  show "set16 t c v = Inr t' \<Longrightarrow> get16 t' c = Inr v" for t c v t'
    unfolding get16_def set16_def by (rule unpack_pack_H_same)
  show "set16 t c v = Inr t' \<Longrightarrow> d \<noteq> c \<Longrightarrow> get16 t' d = get16 t d" for t c v t' d
    unfolding get16_def set16_def by (rule unpack_pack_H_other) auto
qed auto

section \<open>The reference functions of the kernel test\<close>

text \<open>
  \<open>ref_get\<close> and \<open>ref_set\<close> of sim12.py, in their FAT12 form and in the form installed
  when \<open>FAT16=1\<close>. Reading widens a reserved FAT12 value to its FAT16 counterpart, as
  the kernel does.
\<close>

definition widen :: "nat \<Rightarrow> nat" where
  "widen v = (if 0xFF7 \<le> v then v OR 0xF000 else v)"

definition ref_get12 :: "byte list \<Rightarrow> nat \<Rightarrow> nat res" where
  "ref_get12 fat cl =
     (let p = cl + cl div 2 in
      bind_res (idx fat p) (\<lambda>b0.
      bind_res (idx fat (p + 1)) (\<lambda>b1.
      let w = unat b0 OR push_bit 8 (unat b1);
          v = (if odd cl then drop_bit 4 w else w AND 0xFFF) in
      Inr (widen v))))"

definition ref_set12 :: "byte list \<Rightarrow> nat \<Rightarrow> nat \<Rightarrow> byte list res" where
  "ref_set12 fat cl v0 =
     (let p = cl + cl div 2; v = v0 AND 0xFFF in
      if odd cl then
        bind_res (idx fat p) (\<lambda>b0.
        bind_res (upd_byte fat p ((unat b0 AND 0x0F) OR (push_bit 4 v AND 0xF0))) (\<lambda>fat1.
        upd_byte fat1 (p + 1) (drop_bit 4 v)))
      else
        bind_res (upd_byte fat p (v AND 0xFF)) (\<lambda>fat1.
        bind_res (idx fat1 (p + 1)) (\<lambda>b1.
        upd_byte fat1 (p + 1) ((unat b1 AND 0xF0) OR drop_bit 8 v))))"

definition ref_get16 :: "byte list \<Rightarrow> nat \<Rightarrow> nat res" where
  "ref_get16 fat cl =
     bind_res (idx fat (2 * cl)) (\<lambda>b0.
     bind_res (idx fat (2 * cl + 1)) (\<lambda>b1.
     Inr (unat b0 OR push_bit 8 (unat b1))))"

definition ref_set16 :: "byte list \<Rightarrow> nat \<Rightarrow> nat \<Rightarrow> byte list res" where
  "ref_set16 fat cl v =
     bind_res (upd_byte fat (2 * cl) (v AND 0xFF)) (\<lambda>fat1.
     upd_byte fat1 (2 * cl + 1) (drop_bit 8 v))"

lemma ref_get12_eq: "ref_get12 fat c = bind_res (get12 fat c) (\<lambda>v. Inr (widen v))"
  by (auto simp: ref_get12_def get12_def Let_def idx_def)

lemma ref_set12_eq: "ref_set12 fat c v = set12 fat c v"
  by (auto simp: ref_set12_def set12_def Let_def idx_def upd_byte_def)

lemma ref_get16_eq: "get16 fat c = Inr v \<longleftrightarrow> ref_get16 fat c = Inr v"
  by (auto simp: ref_get16_def get16_def unpack_H_def idx_def)

lemma ref_set16_eq: "set16 fat c v = Inr fat' \<longleftrightarrow> ref_set16 fat c v = Inr fat'"
  by (auto simp: ref_set16_def set16_def pack_H_def upd_byte_def drop_bit_eq_div and_nat_masks
      take_bit_eq_mod)

interpretation r12: fat_codec ref_get12 ref_set12 "\<lambda>_ v. widen (v AND 0xFFF)" has12 "\<lambda>_ _. True"
proof unfold_locales
  show "has12 t c \<longleftrightarrow> (\<exists>v. ref_get12 t c = Inr v)" for t c
    by (auto simp: ref_get12_eq c12.get_total bind_res_eq_Inr)
  show "(\<exists>t'. ref_set12 t c v = Inr t') \<longleftrightarrow> has12 t c \<and> True" for t c v
    by (simp add: ref_set12_eq set12_eq)
  show "ref_set12 t c v = Inr t' \<Longrightarrow> ref_get12 t' c = Inr (widen (v AND 0xFFF))" for t c v t'
    by (simp add: ref_get12_eq ref_set12_eq c12.get_put_same)
  show "ref_set12 t c v = Inr t' \<Longrightarrow> d \<noteq> c \<Longrightarrow> ref_get12 t' d = ref_get12 t d" for t c v t' d
    by (simp add: ref_get12_eq ref_set12_eq c12.get_put_other)
qed auto

interpretation r16: fat_codec ref_get16 ref_set16 "\<lambda>_ v. v" has16 "\<lambda>_ v. v < 0x10000"
proof unfold_locales
  show "has16 t c \<longleftrightarrow> (\<exists>v. ref_get16 t c = Inr v)" for t c
    by (simp add: c16.get_total flip: ref_get16_eq)
  show "(\<exists>t'. ref_set16 t c v = Inr t') \<longleftrightarrow> has16 t c \<and> v < 0x10000" for t c v
    by (simp add: c16.put_total flip: ref_set16_eq)
  show "ref_set16 t c v = Inr t' \<Longrightarrow> ref_get16 t' c = Inr v" for t c v t'
    by (simp add: c16.get_put_same flip: ref_set16_eq ref_get16_eq)
  show "ref_set16 t c v = Inr t' \<Longrightarrow> d \<noteq> c \<Longrightarrow> ref_get16 t' d = ref_get16 t d" for t c v t' d
    using c16.get_put_other [of t c v t' d]
    by (auto simp: ref_set16_def ref_get16_def idx_def upd_byte_def split: if_splits)
qed auto

section \<open>Ranges and end-of-chain marks\<close>

lemma get12_bound: "get12 fat c = Inr v \<Longrightarrow> v < 0x1000"
proof -
  have "read_even (unat b0) (unat b1) = take_bit 12 (read_even (unat b0) (unat b1))"
    and "read_odd (unat b0) (unat b1) = take_bit 12 (read_odd (unat b0) (unat b1))" for b0 b1 :: byte
    by (rule bit_eqI, auto simp: nibble_defs bit_simps byte_bits)+
  then have "read_even (unat b0) (unat b1) < 0x1000" and "read_odd (unat b0) (unat b1) < 0x1000"
    for b0 b1 :: byte
    using take_bit_nat_less_exp [of 12] by (simp, metis)+
  then show "get12 fat c = Inr v \<Longrightarrow> v < 0x1000"
    by (auto simp: get12_eq split: if_splits)
qed

lemma widen_bits: "(v::nat) < 0x1000 \<Longrightarrow> 0xFF7 \<le> v \<Longrightarrow> v OR 0xF000 = v + 0xF000"
proof -
  assume "v < 0x1000" and "0xFF7 \<le> v"
  then have "v \<in> {0xFF7, 0xFF8, 0xFF9, 0xFFA, 0xFFB, 0xFFC, 0xFFD, 0xFFE, 0xFFF}" by auto
  then show ?thesis by auto
qed

section \<open>Properties of the packings\<close>

lemma length_set12: "set12 f c x = Inr f' \<Longrightarrow> length f' = length f"
  by (auto simp: set12_eq split: if_splits)

lemma length_set16: "set16 f c x = Inr f' \<Longrightarrow> length f' = length f"
  by (auto simp: set16_def pack_H_def split: if_splits)

text \<open>
  C4. Storing a FAT12 entry that lies in the table stores its low 12 bits and changes no
  other entry, although two entries share a byte; an entry outside the table raises
  \<open>IndexError\<close>.
\<close>

theorem fat12_set_get:
  "case set12 fat c v of
     Inl x \<Rightarrow> x = IndexError \<and> length fat \<le> c + c div 2 + 1
   | Inr fat' \<Rightarrow> length fat' = length fat
       \<and> (\<forall>d. get12 fat' d = (if d = c then Inr (v AND 0xFFF) else get12 fat d))"
proof (cases "set12 fat c v")
  case (Inl x)
  then show ?thesis by (auto simp: set12_eq has12_def split: if_splits)
next
  case (Inr fat')
  then show ?thesis using c12.get_put_same c12.get_put_other by (auto simp: length_set12)
qed

text \<open>
  C5. The kernel test's reference functions agree with the volume tool on FAT12: they
  store the same bytes, and read the same entry widened to 16 bits, which keeps the
  end-of-chain mark: a value is at least 0xFF8 exactly when its widening is at least
  0xFFF8.
\<close>

theorem ref12_agrees:
  "ref_set12 fat c v = set12 fat c v
   \<and> (case get12 fat c of
        Inl x \<Rightarrow> ref_get12 fat c = Inl x
      | Inr a \<Rightarrow> (\<exists>w. ref_get12 fat c = Inr w \<and> w = (if a < 0xFF7 then a else a + 0xF000)
                    \<and> (0xFF8 \<le> a \<longleftrightarrow> 0xFFF8 \<le> w) \<and> w < 0x10000))"
proof (cases "get12 fat c")
  case (Inl x)
  then show ?thesis by (simp add: ref_set12_eq ref_get12_eq)
next
  case (Inr a)
  with get12_bound [of fat c a] have a: "a < 0x1000" by simp
  then show ?thesis using Inr widen_bits [of a]
    by (auto simp: ref_set12_eq ref_get12_eq widen_def)
qed

end
