(* ===== verification/Disk_File.thy ===== *)
theory Disk_File
  imports Prelude
begin

text \<open>
  A disk image opened with \<open>open(path, 'r+b')\<close>, as the tools of src/tools/fat12-proto use
  it: every access seeks to an absolute byte position and then reads or writes. The file
  is its byte list. The locale \<open>block_store\<close> says what its clients rely on.
\<close>

section \<open>Reading and writing at a position\<close>

definition file_get :: "byte list \<Rightarrow> nat \<Rightarrow> nat \<Rightarrow> byte list" where
  "file_get img p n = take n (drop p img)"

text \<open>Writing past the end fills the hole with zero bytes, unless nothing is written.\<close>

definition file_put :: "byte list \<Rightarrow> nat \<Rightarrow> byte list \<Rightarrow> byte list" where
  "file_put img p xs =
     (if xs = [] then img
      else take p (img @ replicate (p - length img) 0) @ xs @ drop (p + length xs) img)"

text \<open>Seeking before the start of the file is an \<open>OSError\<close>; reading past its end is short.\<close>

definition file_read :: "byte list \<Rightarrow> int \<Rightarrow> nat \<Rightarrow> byte list res" where
  "file_read img p n = (if p < 0 then Inl OSError else Inr (file_get img (nat p) n))"

definition file_write :: "byte list \<Rightarrow> int \<Rightarrow> byte list \<Rightarrow> byte list res" where
  "file_write img p xs = (if p < 0 then Inl OSError else Inr (file_put img (nat p) xs))"

lemma file_write_nat: "file_write img (int n) xs = Inr (file_put img n xs)"
  by (simp add: file_write_def)

lemma file_read_nat: "file_read img (int n) k = Inr (file_get img n k)"
  by (simp add: file_read_def)

lemma length_file_get: "p + n \<le> length img \<Longrightarrow> length (file_get img p n) = n"
  by (auto simp: file_get_def)

section \<open>The interface of a store of blocks\<close>

fun write_all :: "('d \<Rightarrow> nat \<Rightarrow> byte list \<Rightarrow> 'd) \<Rightarrow> 'd \<Rightarrow> (nat \<times> byte list) list \<Rightarrow> 'd" where
  "write_all put d [] = d"
| "write_all put d ((p, xs) # ws) = write_all put (put d p xs) ws"

definition apart :: "nat \<times> byte list \<Rightarrow> nat \<times> byte list \<Rightarrow> bool" where
  "apart a b \<longleftrightarrow> fst a + length (snd a) \<le> fst b \<or> fst b + length (snd b) \<le> fst a"

locale block_store =
  fixes get :: "'d \<Rightarrow> nat \<Rightarrow> nat \<Rightarrow> byte list"
    and put :: "'d \<Rightarrow> nat \<Rightarrow> byte list \<Rightarrow> 'd"
    and cap :: "'d \<Rightarrow> nat"
  assumes get_put_same: "p + length xs \<le> cap d \<Longrightarrow> get (put d p xs) p (length xs) = xs"
    and get_put_apart: "p + length xs \<le> cap d \<Longrightarrow> q + n \<le> p \<or> p + length xs \<le> q \<Longrightarrow>
          get (put d p xs) q n = get d q n"
    and cap_put: "p + length xs \<le> cap d \<Longrightarrow> cap (put d p xs) = cap d"
begin

lemma cap_write_all:
  "\<forall>w\<in>set ws. fst w + length (snd w) \<le> cap d \<Longrightarrow> cap (write_all put d ws) = cap d"
proof (induction ws arbitrary: d)
  case (Cons w ws)
  then show ?case by (cases w) (simp add: cap_put)
qed simp

lemma write_all_apart:
  "\<forall>w\<in>set ws. fst w + length (snd w) \<le> cap d \<and> (q + n \<le> fst w \<or> fst w + length (snd w) \<le> q)
     \<Longrightarrow> get (write_all put d ws) q n = get d q n"
proof (induction ws arbitrary: d)
  case (Cons w ws)
  then show ?case by (cases w) (simp add: cap_put get_put_apart)
qed simp

lemma write_all_same:
  "\<forall>w\<in>set ws. fst w + length (snd w) \<le> cap d \<Longrightarrow> sorted_wrt apart ws \<Longrightarrow> (p, xs) \<in> set ws \<Longrightarrow>
     get (write_all put d ws) p (length xs) = xs"
proof (induction ws arbitrary: d)
  case (Cons w ws)
  obtain q ys where w: "w = (q, ys)" by fastforce
  from Cons.prems(1) w have fit: "q + length ys \<le> cap d" by simp
  show ?case
  proof (cases "(p, xs) \<in> set ws")
    case True
    with Cons w fit show ?thesis by (simp add: cap_put)
  next
    case False
    with Cons.prems(3) w have "p = q" "xs = ys" by auto
    moreover have "get (write_all put (put d q ys) ws) q (length ys) = get (put d q ys) q (length ys)"
      using Cons.prems(1,2) w fit by (intro write_all_apart) (auto simp: cap_put apart_def)
    ultimately show ?thesis using fit w by (simp add: get_put_same)
  qed
qed simp

end

section \<open>A file provides it\<close>

lemma file_put_inside:
  "p + length xs \<le> length img \<Longrightarrow> file_put img p xs = take p img @ xs @ drop (p + length xs) img"
  by (simp add: file_put_def)

lemma take_drop_apart:
  assumes "p + length xs \<le> length img" and "q + n \<le> p \<or> p + length xs \<le> q"
  shows "take n (drop q (take p img @ xs @ drop (p + length xs) img)) = take n (drop q img)"
  using assms(2)
proof
  assume "q + n \<le> p"
  then have "n \<le> p - q" and "q \<le> p" by auto
  then have "take n (drop q (take p img @ R)) = take n (drop q (take p img))" for R
    using assms(1) by (auto simp: min_def)
  also have "take n (drop q (take p img)) = take n (drop q img)"
    using \<open>n \<le> p - q\<close> by (simp add: drop_take min_def)
  finally show ?thesis by blast
next
  assume "p + length xs \<le> q"
  then obtain r where q: "q = p + length xs + r" by (auto dest: le_Suc_ex)
  have "length (take p img @ xs) = p + length xs" using assms(1) by simp
  then have "drop q ((take p img @ xs) @ drop (p + length xs) img) = drop q img"
    using q by (simp add: add.commute)
  then show ?thesis by simp
qed

interpretation img: block_store file_get file_put length
proof unfold_locales
  show "p + length xs \<le> length d \<Longrightarrow> file_get (file_put d p xs) p (length xs) = xs"
    for p and xs d :: "byte list"
    by (simp add: file_get_def file_put_inside min_def)
  show "p + length xs \<le> length d \<Longrightarrow> q + n \<le> p \<or> p + length xs \<le> q \<Longrightarrow>
      file_get (file_put d p xs) q n = file_get d q n" for p q n and xs d :: "byte list"
    by (simp only: file_get_def file_put_inside take_drop_apart)
  show "p + length xs \<le> length d \<Longrightarrow> length (file_put d p xs) = length d"
    for p and xs d :: "byte list"
    by (simp add: file_put_inside)
qed

end
