(* ===== verification/Fat_Volume.thy ===== *)
theory Fat_Volume
  imports Fat_Table Disk_File
begin

text \<open>
  The host-side volume tool, class \<open>Vol\<close> of src/tools/fat12-proto/fatx.py: a disk image
  opened at a partition, its geometry and its cached FAT. The image file is its byte list;
  every method seeks to an absolute position first, so the file position is not part of
  the state. A method that writes returns the volume it leaves behind together with its
  result, so the effects of a call that raises are visible.
\<close>

section \<open>The volume and its construction\<close>

record vol =
  v_img :: "byte list"
  v_base :: nat
  v_spc :: nat
  v_rsvd :: nat
  v_nfats :: nat
  v_rootents :: nat
  v_spf :: nat
  v_rootsec :: nat
  v_data0 :: nat
  v_count :: int
  v_fat12 :: bool
  v_fat :: "byte list"

definition SEC :: nat where "SEC = 512"

definition rd :: "vol \<Rightarrow> int \<Rightarrow> nat \<Rightarrow> byte list res" where
  "rd v s n = file_read (v_img v) (int (v_base v) + s * int SEC) (n * SEC)"

definition wr :: "vol \<Rightarrow> int \<Rightarrow> byte list \<Rightarrow> vol res" where
  "wr v s xs =
     bind_res (file_write (v_img v) (int (v_base v) + s * int SEC) xs) (\<lambda>img.
     Inr (v\<lparr>v_img := img\<rparr>))"

text \<open>\<open>struct.unpack_from('<I', b, p)\<close>.\<close>

definition unpack_I :: "byte list \<Rightarrow> nat \<Rightarrow> nat res" where
  "unpack_I xs p =
     (if p + 4 \<le> length xs
      then Inr (unat (xs ! p) OR push_bit 8 (unat (xs ! (p + 1)))
             OR push_bit 16 (unat (xs ! (p + 2))) OR push_bit 24 (unat (xs ! (p + 3))))
      else Inl StructError)"

text \<open>\<open>Vol.__init__\<close> on an opened image: the boot sector's fields, the derived geometry,
  and the whole first FAT read into memory.\<close>

definition vol_init :: "byte list \<Rightarrow> nat \<Rightarrow> vol res" where
  "vol_init img lba =
     (let v0 = \<lparr>v_img = img, v_base = lba * SEC, v_spc = 0, v_rsvd = 0, v_nfats = 0,
                v_rootents = 0, v_spf = 0, v_rootsec = 0, v_data0 = 0, v_count = 0,
                v_fat12 = False, v_fat = []\<rparr> in
      bind_res (rd v0 0 1) (\<lambda>b.
      bind_res (idx b 13) (\<lambda>spc.
      bind_res (unpack_H b 14) (\<lambda>rsvd.
      bind_res (idx b 16) (\<lambda>nfats.
      bind_res (unpack_H b 17) (\<lambda>rootents.
      bind_res (unpack_H b 22) (\<lambda>spf.
      bind_res (unpack_H b 19) (\<lambda>tot16.
      bind_res (if tot16 \<noteq> 0 then Inr tot16 else unpack_I b 32) (\<lambda>tot.
      let rootsec = rsvd + unat nfats * spf;
          data0 = rootsec + (rootents * 32 + SEC - 1) div SEC in
      if spc = 0 then Inl ZeroDivisionError
      else
        let count = (int tot - int data0) div int (unat spc) in
        Inr (v0\<lparr>v_spc := unat spc, v_rsvd := rsvd, v_nfats := unat nfats,
                v_rootents := rootents, v_spf := spf, v_rootsec := rootsec,
                v_data0 := data0, v_count := count, v_fat12 := count < 4085,
                v_fat := concat (map (\<lambda>i. file_get img (lba * SEC + (rsvd + i) * SEC) SEC)
                                     [0..<spf])\<rparr>))))))))))"

section \<open>The cached FAT\<close>

definition vol_get :: "vol \<Rightarrow> nat \<Rightarrow> nat res" where
  "vol_get v c = (if v_fat12 v then get12 (v_fat v) c else get16 (v_fat v) c)"

definition eoc :: "vol \<Rightarrow> nat \<Rightarrow> bool" where
  "eoc v x \<longleftrightarrow> (if v_fat12 v then 0xFF8 else 0xFFF8) \<le> x"

definition vol_set :: "vol \<Rightarrow> nat \<Rightarrow> nat \<Rightarrow> vol res" where
  "vol_set v c x =
     bind_res (if v_fat12 v then set12 (v_fat v) c x else set16 (v_fat v) c x) (\<lambda>fat.
     Inr (v\<lparr>v_fat := fat\<rparr>))"

text \<open>\<open>flush\<close>: the cached FAT is written over every copy on the disk.\<close>

fun flush_copies :: "vol \<Rightarrow> nat list \<Rightarrow> vol res" where
  "flush_copies v [] = Inr v"
| "flush_copies v (i # js) =
     bind_res (wr v (int (v_rsvd v + i * v_spf v)) (v_fat v)) (\<lambda>v1. flush_copies v1 js)"

definition flush :: "vol \<Rightarrow> vol res" where
  "flush v = flush_copies v [0..<v_nfats v]"

section \<open>Cluster chains\<close>

definition in_chain :: "vol \<Rightarrow> nat \<Rightarrow> bool" where
  "in_chain v c \<longleftrightarrow> 2 \<le> c \<and> c < (if v_fat12 v then 0xFF7 else 0xFFF7)"

function chain_loop :: "vol \<Rightarrow> nat \<Rightarrow> nat list \<Rightarrow> nat list res" where
  "chain_loop v c out =
     (if in_chain v c then
        bind_res (vol_get v c) (\<lambda>c'.
        if v_count v + 2 < int (length (out @ [c])) then Inl (RuntimeError ''loop'')
        else chain_loop v c' (out @ [c]))
      else Inr out)"
  by pat_completeness auto
termination
  by (relation "measure (\<lambda>(v, c, out). nat (v_count v + 3) - length out)") auto

declare chain_loop.simps [simp del]

definition chain :: "vol \<Rightarrow> nat \<Rightarrow> nat list res" where
  "chain v c = chain_loop v c []"

definition clus_sec :: "vol \<Rightarrow> nat \<Rightarrow> int" where
  "clus_sec v c = int (v_data0 v) + (int c - 2) * int (v_spc v)"

section \<open>Directory entries\<close>

text \<open>Decoded text is a list of Unicode code points.\<close>

type_synonym ustr = "nat list"

text \<open>\<open>decode('latin-1')\<close>, and \<open>rstrip\<close> and \<open>lower\<close> on text below code point 256.\<close>

definition latin1 :: "byte list \<Rightarrow> ustr" where
  "latin1 bs = map unat bs"

definition py_space :: "nat \<Rightarrow> bool" where
  "py_space c \<longleftrightarrow> (9 \<le> c \<and> c \<le> 13) \<or> (28 \<le> c \<and> c \<le> 32) \<or> c = 0x85 \<or> c = 0xA0"

definition rstrip :: "ustr \<Rightarrow> ustr" where
  "rstrip t = rev (dropWhile py_space (rev t))"

definition lower1 :: "nat \<Rightarrow> nat" where
  "lower1 c = (if (65 \<le> c \<and> c \<le> 90) \<or> (0xC0 \<le> c \<and> c \<le> 0xDE \<and> c \<noteq> 0xD7) then c + 32 else c)"

definition lower_latin1 :: "ustr \<Rightarrow> ustr" where
  "lower_latin1 t = map lower1 t"

text \<open>
  \<open>decode('utf-16le', 'replace')\<close>: a high surrogate followed by a low one is one code
  point, any other surrogate is U+FFFD, and so is a truncated unit or pair at the end.
\<close>

fun utf16le :: "byte list \<Rightarrow> ustr" where
  "utf16le [] = []"
| "utf16le [b0] = [0xFFFD]"
| "utf16le (b0 # b1 # bs) =
     (let u = unat b0 + 256 * unat b1 in
      if 0xD800 \<le> u \<and> u < 0xDC00 then
        (case bs of
           c0 # c1 # cs \<Rightarrow>
             (let w = unat c0 + 256 * unat c1 in
              if 0xDC00 \<le> w \<and> w < 0xE000
              then (0x10000 + (u - 0xD800) * 0x400 + (w - 0xDC00)) # utf16le cs
              else 0xFFFD # utf16le bs)
         | _ \<Rightarrow> [0xFFFD])
      else if 0xDC00 \<le> u \<and> u < 0xE000 then 0xFFFD # utf16le bs
      else u # utf16le bs)"

text \<open>One long-name slot: its 13 units up to the first NUL, without U+FFFF padding.\<close>

definition lfn_part :: "byte list \<Rightarrow> ustr" where
  "lfn_part e =
     (let part = slice e 1 11 @ slice e 14 26 @ slice e 28 32
      in filter (\<lambda>c. c \<noteq> 0xFFFF) (takeWhile (\<lambda>c. c \<noteq> 0) (utf16le part)))"

text \<open>What the generator yields: name, attributes, first cluster, size.\<close>

record dirent =
  d_name :: ustr
  d_attr :: byte
  d_cluster :: nat
  d_size :: nat

text \<open>
  The generator's loop body on one 32-byte slot, with the long-name parts gathered so
  far: it falls through to the next slot with new parts, ends the generator, or raises.
\<close>

datatype flow = Next "ustr list" | Return | Raise py_error

definition short_name :: "byte list \<Rightarrow> byte \<Rightarrow> ustr" where
  "short_name e flags =
     (let short = rstrip (latin1 (slice e 0 8));
          ext = rstrip (latin1 (slice e 8 11));
          short = (if flags AND 0x08 \<noteq> 0 then lower_latin1 short else short);
          ext = (if flags AND 0x10 \<noteq> 0 then lower_latin1 ext else ext)
      in short @ (if ext \<noteq> [] then 46 # ext else []))"

definition dir_slot :: "byte list \<Rightarrow> ustr list \<Rightarrow> dirent option \<times> flow" where
  "dir_slot e lfn =
     (case idx e 0 of Inl x \<Rightarrow> (None, Raise x) | Inr b0 \<Rightarrow>
      if b0 = 0 then (None, Return)
      else if b0 = 0xE5 then (None, Next [])
      else case idx e 11 of Inl x \<Rightarrow> (None, Raise x) | Inr attr \<Rightarrow>
      if attr = 0x0F then (None, Next (lfn_part e # lfn))
      else if attr AND 0x08 \<noteq> 0 then (None, Next [])
      else case idx e 12 of Inl x \<Rightarrow> (None, Raise x) | Inr flags \<Rightarrow>
      let name = (if concat lfn \<noteq> [] then concat lfn else short_name e flags) in
      case unpack_H e 26 of Inl x \<Rightarrow> (None, Raise x) | Inr cluster \<Rightarrow>
      case unpack_I e 28 of Inl x \<Rightarrow> (None, Raise x) | Inr sz \<Rightarrow>
      (Some \<lparr>d_name = name, d_attr = attr, d_cluster = cluster, d_size = sz\<rparr>, Next []))"

fun scan_slots :: "byte list list \<Rightarrow> ustr list \<Rightarrow> dirent list \<times> flow" where
  "scan_slots [] lfn = ([], Next lfn)"
| "scan_slots (e # es) lfn =
     (case dir_slot e lfn of
        (y, Next lfn') \<Rightarrow>
          (case scan_slots es lfn' of (ys, fl) \<Rightarrow> (case y of None \<Rightarrow> ys | Some d \<Rightarrow> d # ys, fl))
      | (y, fl) \<Rightarrow> ([], fl))"

definition sector_slots :: "byte list \<Rightarrow> byte list list" where
  "sector_slots b = map (\<lambda>k. slice b (int (32 * k)) (int (32 * k + 32))) [0..<16]"

text \<open>
  The whole generator: the entries it yields in order, and the exception, if any, that
  the consumer meets after the last of them.
\<close>

fun scan_sectors :: "vol \<Rightarrow> int list \<Rightarrow> ustr list \<Rightarrow> dirent list \<times> py_error option" where
  "scan_sectors v [] lfn = ([], None)"
| "scan_sectors v (s # ss) lfn =
     (case rd v s 1 of Inl x \<Rightarrow> ([], Some x) | Inr b \<Rightarrow>
      (case scan_slots (sector_slots b) lfn of
         (ys, Next lfn') \<Rightarrow> (case scan_sectors v ss lfn' of (zs, x) \<Rightarrow> (ys @ zs, x))
       | (ys, Return) \<Rightarrow> (ys, None)
       | (ys, Raise x) \<Rightarrow> (ys, Some x)))"

definition root_sectors :: "vol \<Rightarrow> int list" where
  "root_sectors v = map (\<lambda>i. int (v_rootsec v + i)) [0..<(v_rootents v * 32 + 511) div 512]"

definition chain_sectors :: "vol \<Rightarrow> nat list \<Rightarrow> int list" where
  "chain_sectors v cs = concat (map (\<lambda>c. map (\<lambda>i. clus_sec v c + int i) [0..<v_spc v]) cs)"

definition entries :: "vol \<Rightarrow> nat \<Rightarrow> dirent list \<times> py_error option" where
  "entries v first =
     (if first = 0 then scan_sectors v (root_sectors v) []
      else case chain v first of
             Inl x \<Rightarrow> ([], Some x)
           | Inr cs \<Rightarrow> scan_sectors v (chain_sectors v cs) [])"

section \<open>Looking a path up and reading a file\<close>

text \<open>
  \<open>path.split('/')\<close> without its empty parts. \<open>lower\<close> is \<open>str.lower\<close>, a parameter
  because long names range over all of Unicode.
\<close>

fun split_path :: "ustr \<Rightarrow> ustr \<Rightarrow> ustr list" where
  "split_path acc [] = (if acc = [] then [] else [acc])"
| "split_path acc (c # cs) =
     (if c = 47 then (if acc = [] then split_path [] cs else acc # split_path [] cs)
      else split_path (acc @ [c]) cs)"

text \<open>The inner loop: the first entry with the name, or the generator's exception.\<close>

definition find_entry :: "(ustr \<Rightarrow> ustr) \<Rightarrow> vol \<Rightarrow> nat \<Rightarrow> ustr \<Rightarrow> dirent option res" where
  "find_entry lower v cl part =
     (case entries v cl of (ys, x) \<Rightarrow>
      (case List.find (\<lambda>d. lower (d_name d) = lower part) ys of
         Some d \<Rightarrow> Inr (Some d)
       | None \<Rightarrow> (case x of Some err \<Rightarrow> Inl err | None \<Rightarrow> Inr None)))"

fun find_parts :: "(ustr \<Rightarrow> ustr) \<Rightarrow> vol \<Rightarrow> nat \<Rightarrow> dirent option \<Rightarrow> ustr list \<Rightarrow> dirent option res" where
  "find_parts lower v cl ent [] = Inr ent"
| "find_parts lower v cl ent (part # parts) =
     bind_res (find_entry lower v cl part) (\<lambda>r.
     case r of None \<Rightarrow> Inr None | Some d \<Rightarrow> find_parts lower v (d_cluster d) (Some d) parts)"

definition find_path :: "(ustr \<Rightarrow> ustr) \<Rightarrow> vol \<Rightarrow> ustr \<Rightarrow> dirent option res" where
  "find_path lower v path = find_parts lower v 0 None (split_path [] path)"

fun read_clusters :: "vol \<Rightarrow> nat list \<Rightarrow> byte list res" where
  "read_clusters v [] = Inr []"
| "read_clusters v (c # cs) =
     bind_res (rd v (clus_sec v c) (v_spc v)) (\<lambda>b.
     bind_res (read_clusters v cs) (\<lambda>bs. Inr (b @ bs)))"

definition readfile :: "(ustr \<Rightarrow> ustr) \<Rightarrow> vol \<Rightarrow> ustr \<Rightarrow> byte list option res" where
  "readfile lower v path =
     bind_res (find_path lower v path) (\<lambda>r.
     case r of
       None \<Rightarrow> Inr None
     | Some d \<Rightarrow>
         bind_res (chain v (d_cluster d)) (\<lambda>cs.
         bind_res (read_clusters v cs) (\<lambda>bs. Inr (Some (take (d_size d) bs)))))"

section \<open>Writing a file into the root directory\<close>

text \<open>The name is ASCII text, given as its bytes.\<close>

fun split_dot :: "byte list \<Rightarrow> byte list \<Rightarrow> byte list list" where
  "split_dot acc [] = [acc]"
| "split_dot acc (c # cs) = (if c = 46 then acc # split_dot [] cs else split_dot (acc @ [c]) cs)"

definition upper1 :: "byte \<Rightarrow> byte" where
  "upper1 c = (if 97 \<le> c \<and> c \<le> 122 then c - 32 else c)"

definition upper :: "byte list \<Rightarrow> byte list" where
  "upper t = map upper1 t"

text \<open>\<open>str.islower\<close>: some cased character, and no upper-case one.\<close>

definition islower :: "byte list \<Rightarrow> bool" where
  "islower t \<longleftrightarrow> (\<exists>c\<in>set t. 97 \<le> c \<and> c \<le> 122) \<and> \<not> (\<exists>c\<in>set t. 65 \<le> c \<and> c \<le> 90)"

definition ljust :: "nat \<Rightarrow> byte list \<Rightarrow> byte list" where
  "ljust n t = t @ replicate (n - length t) 32"

text \<open>\<open>[c for c in range(...) if self.get(c) == 0]\<close>.\<close>

fun free_clusters :: "vol \<Rightarrow> nat list \<Rightarrow> nat list res" where
  "free_clusters v [] = Inr []"
| "free_clusters v (c # cs) =
     bind_res (vol_get v c) (\<lambda>x.
     bind_res (free_clusters v cs) (\<lambda>fs. Inr (if x = 0 then c # fs else fs)))"

text \<open>The loop that links each cluster to the next and writes its part of the data.\<close>

fun put_clusters :: "vol \<Rightarrow> byte list \<Rightarrow> nat \<Rightarrow> nat \<Rightarrow> nat list \<Rightarrow> vol \<times> unit res" where
  "put_clusters v data csz i [] = (v, Inr ())"
| "put_clusters v data csz i (c # cs) =
     (case vol_set v c (case cs of [] \<Rightarrow> 0xFFF | d # _ \<Rightarrow> d) of
        Inl x \<Rightarrow> (v, Inl x)
      | Inr v1 \<Rightarrow>
          let chunk = slice data (int (i * csz)) (int ((i + 1) * csz)) in
          (case wr v1 (clus_sec v1 c) (chunk @ replicate (csz - length chunk) 0) of
             Inl x \<Rightarrow> (v1, Inl x)
           | Inr v2 \<Rightarrow> put_clusters v2 data csz (i + 1) cs))"

text \<open>\<open>struct.pack_into('<HHHI', e, 22, a, b, c, n)\<close>.\<close>

definition pack_HHHI :: "byte list \<Rightarrow> nat \<Rightarrow> nat \<Rightarrow> nat \<Rightarrow> nat \<Rightarrow> nat \<Rightarrow> byte list res" where
  "pack_HHHI e p a b c n =
     (if p + 10 \<le> length e \<and> a < 0x10000 \<and> b < 0x10000 \<and> c < 0x10000 \<and> n < 0x100000000
      then Inr (take p e
             @ map of_nat [a mod 256, a div 256, b mod 256, b div 256, c mod 256, c div 256,
                 n mod 256, n div 256 mod 256, n div 65536 mod 256, n div 16777216]
             @ drop (p + 10) e)
      else Inl StructError)"

definition make_entry :: "byte list \<Rightarrow> byte list \<Rightarrow> nat list \<Rightarrow> nat \<Rightarrow> byte list res" where
  "make_entry base ext free n =
     (let e0 = replicate 32 (0::byte);
          e1 = ljust 8 (upper base) @ drop 8 e0;
          e2 = take 8 e1 @ ljust 3 (upper ext) @ drop 11 e1 in
      bind_res (upd e2 11 0x20) (\<lambda>e3.
      bind_res (upd e3 12 ((if islower base then 0x08 else 0) OR (if islower ext then 0x10 else 0))) (\<lambda>e4.
      bind_res (idx free 0) (\<lambda>first.
      pack_HHHI e4 22 0 0x5A21 first n))))"

text \<open>The first slot of a root sector that is free or deleted.\<close>

fun free_slot :: "byte list \<Rightarrow> nat list \<Rightarrow> nat option res" where
  "free_slot b [] = Inr None"
| "free_slot b (k # ks) =
     bind_res (idx b (32 * k)) (\<lambda>x. if x = 0 \<or> x = 0xE5 then Inr (Some (32 * k)) else free_slot b ks)"

fun put_entry :: "vol \<Rightarrow> int list \<Rightarrow> byte list res \<Rightarrow> nat list \<Rightarrow> vol \<times> nat list res" where
  "put_entry v [] e free = (v, Inl (RuntimeError ''root full''))"
| "put_entry v (s # ss) e free =
     (case bind_res (rd v s 1) (\<lambda>b. bind_res (free_slot b [0..<16]) (\<lambda>q. Inr (b, q))) of
        Inl x \<Rightarrow> (v, Inl x)
      | Inr (b, None) \<Rightarrow> put_entry v ss e free
      | Inr (b, Some p) \<Rightarrow>
          (case bind_res e (\<lambda>eb. wr v s (take p b @ eb @ drop (p + 32) b)) of
             Inl x \<Rightarrow> (v, Inl x)
           | Inr v' \<Rightarrow> (v', Inr free)))"

text \<open>\<open>(name83.split('.') + [''])[:2]\<close>.\<close>

definition name_parts :: "byte list \<Rightarrow> byte list list" where
  "name_parts name83 = take 2 (split_dot [] name83 @ [[]])"

definition putroot :: "vol \<Rightarrow> byte list \<Rightarrow> byte list \<Rightarrow> vol \<times> nat list res" where
  "putroot v name83 data =
     (let parts = name_parts name83;
          base = parts ! 0; ext = parts ! 1;
          csz = v_spc v * SEC in
      if csz = 0 then (v, Inl ZeroDivisionError)
      else
        let need = max 1 ((length data + csz - 1) div csz) in
        case free_clusters v [2..<nat (v_count v + 2)] of
          Inl x \<Rightarrow> (v, Inl x)
        | Inr fs \<Rightarrow>
            let free = take need fs in
            (case put_clusters v data csz 0 free of
               (v1, Inl x) \<Rightarrow> (v1, Inl x)
             | (v1, Inr _) \<Rightarrow>
                 (case flush v1 of
                    Inl x \<Rightarrow> (v1, Inl x)
                  | Inr v2 \<Rightarrow>
                      put_entry v2 (root_sectors v2) (make_entry base ext free (length data)) free)))"

section \<open>The volume's FAT is a cluster table\<close>

definition vol_norm :: "vol \<Rightarrow> nat \<Rightarrow> nat" where
  "vol_norm v x = (if v_fat12 v then x AND 0xFFF else x)"

definition vol_has :: "vol \<Rightarrow> nat \<Rightarrow> bool" where
  "vol_has v c \<longleftrightarrow> (if v_fat12 v then has12 (v_fat v) c else has16 (v_fat v) c)"

definition vol_fits :: "vol \<Rightarrow> nat \<Rightarrow> bool" where
  "vol_fits v x \<longleftrightarrow> v_fat12 v \<or> x < 0x10000"

lemmas vol_codec_defs = vol_get_def vol_set_def vol_norm_def vol_has_def vol_fits_def

interpretation vol: fat_codec vol_get vol_set vol_norm vol_has vol_fits
proof unfold_locales
  show "vol_has t c \<longleftrightarrow> (\<exists>v. vol_get t c = Inr v)" for t c
    by (simp add: vol_codec_defs c12.get_total c16.get_total)
  show "(\<exists>t'. vol_set t c v = Inr t') \<longleftrightarrow> vol_has t c \<and> vol_fits t v" for t c v
    using c12.put_total [of "v_fat t" c v] c16.put_total [of "v_fat t" c v]
    by (auto simp: vol_codec_defs bind_res_eq_Inr)
qed (auto simp: vol_codec_defs c12.get_put_same c12.get_put_other c16.get_put_same
      c16.get_put_other)

lemma vol_set_frame:
  "vol_set v c x = Inr v' \<Longrightarrow> \<exists>fat. v' = v\<lparr>v_fat := fat\<rparr>"
  by (auto simp: vol_set_def)

section \<open>What a chain is\<close>

text \<open>A chain, read off the table: it starts at \<open>c\<close> and stops at the first entry that is
  no cluster number.\<close>

fun walk :: "vol \<Rightarrow> nat \<Rightarrow> nat list \<Rightarrow> bool" where
  "walk v c [] = (\<not> in_chain v c)"
| "walk v c (x # xs) =
     (x = c \<and> in_chain v c \<and> (case vol_get v c of Inl _ \<Rightarrow> False | Inr c' \<Rightarrow> walk v c' xs))"

lemma walk_deterministic: "walk v c xs \<Longrightarrow> walk v c ys \<Longrightarrow> xs = ys"
proof (induction xs arbitrary: c ys)
  case Nil
  then show ?case by (cases ys) auto
next
  case (Cons x xs)
  then show ?case by (cases ys) (auto split: sum.splits)
qed

lemma walk_drop: "walk v c xs \<Longrightarrow> i < length xs \<Longrightarrow> walk v (xs ! i) (drop i xs)"
proof (induction xs arbitrary: c i)
  case (Cons x xs)
  then show ?case by (cases i) (auto split: sum.splits)
qed simp

lemma walk_distinct:
  assumes "walk v c xs"
  shows "distinct xs"
  unfolding distinct_conv_nth
proof (intro allI impI)
  fix i j assume ij: "i < length xs" "j < length xs" "i \<noteq> j"
  show "xs ! i \<noteq> xs ! j"
  proof
    assume "xs ! i = xs ! j"
    with walk_drop [OF assms ij(1)] walk_drop [OF assms ij(2)]
    have "drop i xs = drop j xs" by (auto intro: walk_deterministic)
    then have "length xs - i = length xs - j" by (metis length_drop)
    with ij show False by linarith
  qed
qed

lemma walk_in_chain: "walk v c xs \<Longrightarrow> x \<in> set xs \<Longrightarrow> in_chain v x"
  by (induction xs arbitrary: c) (auto split: sum.splits)

lemma chain_loop_eq:
  "chain_loop v c out = Inr cs \<longleftrightarrow>
     (\<exists>xs. cs = out @ xs \<and> walk v c xs \<and> (xs = [] \<or> int (length cs) \<le> v_count v + 2))"
proof (induction v c out rule: chain_loop.induct)
  case (1 v c out)
  show ?case
  proof (cases "in_chain v c")
    case False
    then have w: "walk v c xs \<longleftrightarrow> xs = []" for xs by (cases xs) auto
    from False show ?thesis by (auto simp: chain_loop.simps [of v c out] w)
  next
    case chn: True
    show ?thesis
    proof (cases "vol_get v c")
      case (Inl e)
      then have "\<not> walk v c xs" for xs using chn by (cases xs) auto
      with Inl chn show ?thesis by (simp add: chain_loop.simps [of v c out])
    next
      case (Inr c')
      have w: "walk v c xs \<longleftrightarrow> (\<exists>ys. xs = c # ys \<and> walk v c' ys)" for xs
        using chn Inr by (cases xs) auto
      show ?thesis
      proof (cases "v_count v + 2 < int (length (out @ [c]))")
        case True
        with chn Inr show ?thesis by (auto simp: chain_loop.simps [of v c out] w)
      next
        case False
        from "1.IH" [OF chn Inr False] chn Inr False show ?thesis
          by (auto simp: chain_loop.simps [of v c out] w)
      qed
    qed
  qed
qed

lemma chain_eq:
  "chain v c = Inr cs \<longleftrightarrow> walk v c cs \<and> (cs = [] \<or> int (length cs) \<le> v_count v + 2)"
  by (auto simp: chain_def chain_loop_eq)

lemma walk_linked:
  assumes "cs \<noteq> []" and "linked (vol_get v) nm z cs"
    and "\<forall>c\<in>set cs. in_chain v c \<and> nm c = c" and "\<not> in_chain v (nm z)"
  shows "walk v (hd cs) cs"
  using assms by (induction cs rule: induct_list012) auto

text \<open>
  C6. \<open>chain\<close> returns exactly the chain that starts at the cluster, when it ends and is
  not longer than the volume allows, and never a cluster twice; anything else raises.
\<close>

theorem chain_exact:
  "(chain v c = Inr cs \<longleftrightarrow> walk v c cs \<and> (cs = [] \<or> int (length cs) \<le> v_count v + 2))
   \<and> (chain v c = Inr cs \<longrightarrow> distinct cs \<and> (\<forall>x\<in>set cs. in_chain v x))"
  using chain_eq walk_distinct walk_in_chain by blast

text \<open>The self-linked cluster 2: a cyclic table, refused as a loop.\<close>

definition cyclic_vol :: vol where
  "cyclic_vol = \<lparr>v_img = [], v_base = 0, v_spc = 1, v_rsvd = 1, v_nfats = 1, v_rootents = 16,
     v_spf = 1, v_rootsec = 2, v_data0 = 3, v_count = 1, v_fat12 = True,
     v_fat = [0xF0, 0xFF, 0xFF, 0x02, 0x00, 0x00]\<rparr>"

lemma chain_cyclic: "chain cyclic_vol 2 = Inl (RuntimeError ''loop'')"
  by (simp add: chain_def chain_loop.simps cyclic_vol_def in_chain_def vol_get_def get12_eq
      has12_def read_even_def)

theorem chain_exact_witness:
  "chain (cyclic_vol\<lparr>v_fat := [0xF0, 0xFF, 0xFF, 0xFF, 0x0F, 0x00]\<rparr>) 2 = Inr [2] \<and> distinct [2::nat]"
proof -
  let ?v = "cyclic_vol\<lparr>v_fat := [0xF0, 0xFF, 0xFF, 0xFF, 0x0F, 0x00]\<rparr>"
  have "walk ?v 2 [2]"
    by (simp add: cyclic_vol_def in_chain_def vol_get_def get12_eq has12_def read_even_def)
  then show ?thesis using chain_exact [of ?v 2 "[2]"] by (simp add: cyclic_vol_def)
qed

end
