(* ===== verification/Fat_Readback.thy ===== *)
theory Fat_Readback
  imports Fat_Volume
begin

text \<open>
  What \<open>Vol.putroot\<close> leaves on the disk, and that the volume's own readers find it
  again: the cluster writes and the FAT copies stay in their regions (through the laws of
  \<open>block_store\<close>), the table links the clusters (through those of \<open>fat_codec\<close>), the
  directory entry written is the entry decoded, so \<open>readfile\<close> returns the data. Opening an
  image is compared with its boot record, read as the FAT specification has it.
\<close>

section \<open>Writing clusters\<close>

definition cpos :: "vol \<Rightarrow> nat \<Rightarrow> nat" where
  "cpos v c = v_base v + (v_data0 v + (c - 2) * v_spc v) * SEC"

definition chunk :: "byte list \<Rightarrow> nat \<Rightarrow> nat \<Rightarrow> byte list" where
  "chunk data csz i =
     (let x = take csz (drop (i * csz) data) in x @ replicate (csz - length x) 0)"

fun cluster_writes :: "vol \<Rightarrow> byte list \<Rightarrow> nat \<Rightarrow> nat \<Rightarrow> nat list \<Rightarrow> (nat \<times> byte list) list" where
  "cluster_writes v data csz i [] = []"
| "cluster_writes v data csz i (c # cs) =
     (cpos v c, chunk data csz i) # cluster_writes v data csz (i + 1) cs"

lemma length_chunk [simp]: "length (chunk data csz i) = csz"
  by (simp add: chunk_def Let_def)

lemma clus_sec_pos:
  "2 \<le> c \<Longrightarrow> int (v_base v) + clus_sec v c * int SEC = int (cpos v c)"
  by (auto simp: clus_sec_def cpos_def algebra_simps dest!: le_Suc_ex)

lemma wr_cluster:
  "2 \<le> c \<Longrightarrow> wr v (clus_sec v c) xs = Inr (v\<lparr>v_img := file_put (v_img v) (cpos v c) xs\<rparr>)"
  by (simp add: wr_def file_write_def clus_sec_pos)

lemma rd_cluster:
  "2 \<le> c \<Longrightarrow> rd v (clus_sec v c) n = Inr (file_get (v_img v) (cpos v c) (n * SEC))"
  by (simp add: rd_def file_read_def clus_sec_pos)

lemma vol_set_img:
  "vol_set (v\<lparr>v_img := x\<rparr>) c y = bind_res (vol_set v c y) (\<lambda>w. Inr (w\<lparr>v_img := x\<rparr>))"
  by (cases "v_fat12 v"; cases "set12 (v_fat v) c y"; cases "set16 (v_fat v) c y")
    (simp_all add: vol_set_def)

lemma link_chain_img:
  "link_chain vol_set z (v\<lparr>v_img := x\<rparr>) cs
     = bind_res (link_chain vol_set z v cs) (\<lambda>w. Inr (w\<lparr>v_img := x\<rparr>))"
proof (induction cs arbitrary: v rule: induct_list012)
  case (3 c d cs)
  then show ?case by (cases "vol_set v c d") (simp_all add: vol_set_img)
qed (simp_all add: vol_set_img)

lemma vol_set_geometry:
  assumes "vol_set v c y = Inr w"
  shows "clus_sec w = clus_sec v" and "cpos w = cpos v" and "v_img w = v_img v"
    and "cluster_writes w = cluster_writes v"
proof -
  from vol_set_frame [OF assms] obtain f where w: "w = v\<lparr>v_fat := f\<rparr>" by blast
  then show c: "cpos w = cpos v" by (simp add: cpos_def fun_eq_iff)
  from w show "clus_sec w = clus_sec v" and "v_img w = v_img v"
    by (simp_all add: clus_sec_def fun_eq_iff)
  have "cluster_writes w d k i cs = cluster_writes v d k i cs" for d k i cs
    by (induction cs arbitrary: i) (simp_all add: c)
  then show "cluster_writes w = cluster_writes v" by (simp add: fun_eq_iff)
qed

lemma cluster_writes_img: "cluster_writes (v\<lparr>v_img := x\<rparr>) = cluster_writes v"
proof -
  have "cluster_writes (v\<lparr>v_img := x\<rparr>) d k i cs = cluster_writes v d k i cs" for d k i cs
    by (induction cs arbitrary: i) (simp_all add: cpos_def)
  then show ?thesis by (simp add: fun_eq_iff)
qed

lemma chunk_slice:
  "slice data (int (i * csz)) (int ((i + 1) * csz))
     @ replicate (csz - length (slice data (int (i * csz)) (int ((i + 1) * csz)))) 0
   = chunk data csz i"
  by (simp only: slice_nonneg chunk_def Let_def) simp

lemma put_clusters_eq:
  assumes "link_chain vol_set 0xFFF v cs = Inr w" and "\<forall>c\<in>set cs. 2 \<le> c"
  shows "put_clusters v data csz i cs
     = (w\<lparr>v_img := write_all file_put (v_img v) (cluster_writes v data csz i cs)\<rparr>, Inr ())"
  using assms
proof (induction cs arbitrary: v i w)
  case Nil
  then show ?case by simp
next
  case (Cons c cs)
  let ?n = "case cs of [] \<Rightarrow> 0xFFF | d # _ \<Rightarrow> d"
  from Cons.prems(1) obtain v1 where v1: "vol_set v c ?n = Inr v1"
    "link_chain vol_set 0xFFF v1 cs = Inr w"
    by (cases cs) auto
  let ?img = "file_put (v_img v1) (cpos v1 c) (chunk data csz i)"
  from v1(2) have "link_chain vol_set 0xFFF (v1\<lparr>v_img := ?img\<rparr>) cs = Inr (w\<lparr>v_img := ?img\<rparr>)"
    by (simp add: link_chain_img)
  note rest = Cons.IH [OF this]
  have "wr v1 (clus_sec v1 c) (chunk data csz i) = Inr (v1\<lparr>v_img := ?img\<rparr>)"
    using Cons.prems(2) by (simp add: wr_cluster)
  with rest Cons.prems(2) v1 vol_set_geometry [OF v1(1)] show ?case
    by (simp only: put_clusters.simps sum.case Let_def chunk_slice)
      (simp add: cluster_writes_img)
qed

lemma cpos_next: "cpos v c + v_spc v * SEC = cpos v (if 2 \<le> c then c + 1 else 3)"
  by (auto simp: cpos_def algebra_simps dest!: le_Suc_ex)

lemma cpos_mono: "c \<le> d \<Longrightarrow> cpos v c \<le> cpos v d"
  by (simp add: cpos_def diff_le_mono)

lemma cpos_apart: "2 \<le> c \<Longrightarrow> c < d \<Longrightarrow> cpos v c + v_spc v * SEC \<le> cpos v d"
  using cpos_next [of v c] cpos_mono [of "c + 1" d v] by simp

lemma cluster_writes_mem:
  "w \<in> set (cluster_writes v data csz i cs) \<Longrightarrow>
     \<exists>j<length cs. w = (cpos v (cs ! j), chunk data csz (i + j))"
proof (induction cs arbitrary: i)
  case (Cons c cs)
  show ?case
  proof (cases "w = (cpos v c, chunk data csz i)")
    case True
    then show ?thesis by (intro exI [of _ 0]) simp
  next
    case False
    with Cons.prems have "w \<in> set (cluster_writes v data csz (i + 1) cs)" by simp
    from Cons.IH [OF this] obtain j where "j < length cs"
      "w = (cpos v (cs ! j), chunk data csz (i + 1 + j))" by blast
    then show ?thesis by (intro exI [of _ "Suc j"]) simp
  qed
qed simp

lemma cluster_writes_nth:
  "j < length cs \<Longrightarrow> (cpos v (cs ! j), chunk data csz (i + j)) \<in> set (cluster_writes v data csz i cs)"
proof (induction cs arbitrary: i j)
  case (Cons c cs)
  then show ?case
    using Cons.IH [of "j - 1" "i + 1"] by (cases j) auto
qed simp

text \<open>They touch no other cluster.\<close>

lemma cluster_writes_others:
  assumes "\<forall>d\<in>set cs. 2 \<le> d" and "2 \<le> c" and "c \<notin> set cs"
    and "w \<in> set (cluster_writes v data (v_spc v * SEC) i cs)"
  shows "cpos v c + v_spc v * SEC \<le> fst w \<or> fst w + length (snd w) \<le> cpos v c"
proof -
  from cluster_writes_mem [OF assms(4)] obtain j where j: "j < length cs"
    "w = (cpos v (cs ! j), chunk data (v_spc v * SEC) (i + j))" by blast
  with assms(1,3) have "cs ! j \<noteq> c" and "2 \<le> cs ! j" by (auto simp: nth_mem)
  then show ?thesis
    using j(2) assms(2) cpos_apart [of c "cs ! j" v] cpos_apart [of "cs ! j" c v] by (auto simp: neq_iff)
qed

lemma cluster_writes_apart:
  assumes "distinct cs" and "\<forall>c\<in>set cs. 2 \<le> c" and "csz = v_spc v * SEC"
  shows "sorted_wrt apart (cluster_writes v data csz i cs)"
  using assms(1,2)
proof (induction cs arbitrary: i)
  case (Cons c cs)
  then have "\<forall>d\<in>set cs. 2 \<le> d" "2 \<le> c" "c \<notin> set cs" by auto
  from cluster_writes_others [OF this] have "apart (cpos v c, chunk data csz i) w"
    if "w \<in> set (cluster_writes v data csz (i + 1) cs)" for w
    using that by (simp add: apart_def assms(3))
  with Cons show ?case by simp
qed simp

lemma concat_chunks:
  "concat (map (chunk data csz) [0..<n]) = take (n * csz) data @ replicate (n * csz - length data) 0"
proof (induction n)
  case (Suc n)
  let ?x = "take csz (drop (n * csz) data)"
  have "concat (map (chunk data csz) [0..<Suc n])
      = take (n * csz) data @ replicate (n * csz - length data) 0
        @ ?x @ replicate (csz - length ?x) 0"
  proof -
    have "chunk data csz n = ?x @ replicate (csz - length ?x) 0"
      by (simp add: chunk_def Let_def)
    with Suc show ?thesis by simp
  qed
  also have "\<dots> = take (Suc n * csz) data @ replicate (Suc n * csz - length data) 0"
  proof (cases "n * csz \<le> length data")
    case True
    then have "take (Suc n * csz) data = take (n * csz) data @ ?x"
      using take_add [of "n * csz" csz data] by (simp add: add.commute)
    moreover have "csz - length ?x = Suc n * csz - length data" using True by simp
    ultimately show ?thesis using True by simp
  next
    case False
    then show ?thesis by (simp flip: replicate_add)
  qed
  finally show ?case .
qed simp

lemma take_concat_chunks:
  "length data \<le> n * csz \<Longrightarrow> take (length data) (concat (map (chunk data csz) [0..<n])) = data"
  by (simp add: concat_chunks)

lemma read_clusters_eq:
  assumes "\<forall>j<length cs. file_get (v_img v) (cpos v (cs ! j)) (v_spc v * SEC) = chunk data csz (i + j)"
    and "\<forall>c\<in>set cs. 2 \<le> c"
  shows "read_clusters v cs = Inr (concat (map (chunk data csz) [i..<i + length cs]))"
  using assms
proof (induction cs arbitrary: i)
  case (Cons c cs)
  have "read_clusters v cs = Inr (concat (map (chunk data csz) [i + 1..<i + 1 + length cs]))"
  proof (rule Cons.IH)
    show "\<forall>j<length cs. file_get (v_img v) (cpos v (cs ! j)) (v_spc v * SEC) = chunk data csz (i + 1 + j)"
      using Cons.prems(1) by (auto dest: spec [of _ "Suc _"])
  qed (use Cons.prems in simp)
  moreover have "rd v (clus_sec v c) (v_spc v) = Inr (chunk data csz i)"
    using Cons.prems by (auto simp: rd_cluster)
  ultimately show ?case
    by (simp add: upt_conv_Cons del: upt_Suc)
qed simp

lemma flush_copies_eq:
  "flush_copies v is = Inr (v\<lparr>v_img := write_all file_put (v_img v)
      (map (\<lambda>i. (v_base v + (v_rsvd v + i * v_spf v) * SEC, v_fat v)) is)\<rparr>)"
proof (induction "is" arbitrary: v)
  case (Cons i "is")
  have "int (v_base v) + int (v_rsvd v + i * v_spf v) * int SEC
      = int (v_base v + (v_rsvd v + i * v_spf v) * SEC)" by simp
  then have "wr v (int (v_rsvd v + i * v_spf v)) (v_fat v)
      = Inr (v\<lparr>v_img := file_put (v_img v) (v_base v + (v_rsvd v + i * v_spf v) * SEC) (v_fat v)\<rparr>)"
    by (simp only: wr_def file_write_nat bind_res_simps)
  with Cons show ?case by simp
qed simp

section \<open>A sound volume\<close>

text \<open>
  The geometry fits: the FAT copies end before the root directory, the root directory
  before the data, the data inside the image; the cached FAT is one copy and has an
  entry for every cluster.
\<close>

definition root_len :: "vol \<Rightarrow> nat" where
  "root_len v = (v_rootents v * 32 + 511) div 512"

definition sound :: "vol \<Rightarrow> bool" where
  "sound v \<longleftrightarrow> 0 < v_spc v
     \<and> v_rsvd v + v_nfats v * v_spf v \<le> v_rootsec v
     \<and> v_rootsec v + root_len v \<le> v_data0 v
     \<and> v_base v + (v_data0 v + nat (v_count v) * v_spc v) * SEC \<le> length (v_img v)
     \<and> length (v_fat v) = v_spf v * SEC
     \<and> vol_has v (nat (v_count v) + 1)
     \<and> (if v_fat12 v then v_count v < 4085 else v_count v < 65525)"

lemma vol_has_mono: "vol_has v d \<Longrightarrow> c \<le> d \<Longrightarrow> vol_has v c"
proof -
  assume "vol_has v d" and cd: "c \<le> d"
  then have "c + c div 2 \<le> d + d div 2" by (simp add: add_mono div_le_mono)
  with \<open>vol_has v d\<close> cd show ?thesis
    by (auto simp: vol_has_def has12_def has16_def split: if_splits)
qed

lemma sound_cluster:
  assumes "sound v" and "2 \<le> c" and "c \<le> nat (v_count v) + 1" and "2 \<le> nat (v_count v) + 1"
  shows "vol_has v c" and "vol_fits v c" and "in_chain v c" and "vol_norm v c = c"
    and "cpos v c + v_spc v * SEC \<le> length (v_img v)"
    and "v_base v + v_data0 v * SEC \<le> cpos v c"
proof -
  from assms(1) have snd: "vol_has v (nat (v_count v) + 1)"
    "if v_fat12 v then v_count v < 4085 else v_count v < 65525"
    "v_base v + (v_data0 v + nat (v_count v) * v_spc v) * SEC \<le> length (v_img v)"
    by (simp_all add: sound_def)
  show "vol_has v c" using vol_has_mono [OF snd(1) assms(3)] .
  show "vol_fits v c" using snd(2) assms(3) by (auto simp: vol_fits_def split: if_splits)
  show "in_chain v c" using snd(2) assms(2-4) by (auto simp: in_chain_def split: if_splits)
  show "vol_norm v c = c"
  proof (cases "v_fat12 v")
    case True
    with snd(2) assms(3,4) have "c < 2 ^ 12" by simp
    then have "take_bit 12 c = c" by (rule take_bit_nat_eq_self)
    with True show ?thesis by (simp add: vol_norm_def and_nat_masks)
  qed (simp add: vol_norm_def)
  have "cpos v c + v_spc v * SEC \<le> cpos v (nat (v_count v) + 2)"
    using cpos_apart [of c "nat (v_count v) + 2" v] assms(2,3) by simp
  also have "\<dots> = v_base v + (v_data0 v + nat (v_count v) * v_spc v) * SEC"
    by (simp add: cpos_def)
  finally show "cpos v c + v_spc v * SEC \<le> length (v_img v)" using snd(3) by simp
  show "v_base v + v_data0 v * SEC \<le> cpos v c" by (simp add: cpos_def algebra_simps)
qed

section \<open>Writing the directory entry\<close>

lemma length_pack_HHHI: "pack_HHHI e p a b c n = Inr x \<Longrightarrow> length x = length e"
  by (auto simp: pack_HHHI_def split: if_splits)

lemma length_make_entry:
  "make_entry base ext free n = Inr e \<Longrightarrow> length base \<le> 8 \<Longrightarrow> length ext \<le> 3 \<Longrightarrow> length e = 32"
  by (auto simp: make_entry_def Let_def upd_eq_Inr ljust_def upper_def dest!: length_pack_HHHI)

lemma free_slot_bound: "free_slot b ks = Inr (Some p) \<Longrightarrow> \<forall>k\<in>set ks. k < 16 \<Longrightarrow> p + 32 \<le> 512 \<and> p < length b"
  by (induction ks) (auto simp: idx_eq_Inr split: if_splits)

lemma put_entry_effect:
  assumes "put_entry v ss e free = (v', Inr r)" and "\<forall>s\<in>set ss. \<exists>k. s = int k \<and> a \<le> k \<and> k < b"
    and "\<And>x. e = Inr x \<Longrightarrow> length x = 32" and "v_base v + b * SEC \<le> length (v_img v)"
  shows "r = free \<and> (\<exists>x. e = Inr x) \<and> (\<exists>p xs. v' = v\<lparr>v_img := file_put (v_img v) p xs\<rparr>
           \<and> v_base v + a * SEC \<le> p \<and> p + length xs \<le> v_base v + b * SEC)"
  using assms(1,2)
proof (induction ss)
  case (Cons s ss)
  from Cons.prems(2) obtain k where k: "s = int k" "a \<le> k" "k < b" by auto
  let ?p = "v_base v + k * SEC"
  have pos: "int (v_base v) + s * int SEC = int ?p" using k by simp
  have kb: "?p + SEC \<le> v_base v + b * SEC" using k(3) mult_le_mono1 [of "Suc k" b SEC] by simp
  let ?b = "file_get (v_img v) ?p SEC"
  have rd: "rd v s 1 = Inr ?b" by (simp only: rd_def pos file_read_nat) simp
  have len: "length ?b = 512" using kb assms(4) by (simp add: file_get_def SEC_def)
  show ?case
  proof (cases "free_slot ?b [0..<16]")
    case (Inl x)
    with Cons.prems(1) rd show ?thesis by simp
  next
    case (Inr q)
    show ?thesis
    proof (cases q)
      case None
      with Cons rd Inr show ?thesis by simp
    next
      case (Some j)
      with Cons.prems(1) rd Inr obtain x where x: "e = Inr x" "r = free"
        and w: "wr v s (take j ?b @ x @ drop (j + 32) ?b) = Inr v'"
        by (cases e; cases "wr v s (take j ?b @ projr e @ drop (j + 32) ?b)") auto
      have j: "j + 32 \<le> 512" using free_slot_bound [of ?b "[0..<16]" j] Inr Some by simp
      let ?xs = "take j ?b @ x @ drop (j + 32) ?b"
      have "v' = v\<lparr>v_img := file_put (v_img v) ?p ?xs\<rparr>"
        using w by (simp only: wr_def pos file_write_nat bind_res_simps) simp
      moreover have "length ?xs = SEC" using j len assms(3) [OF x(1)] by (simp add: SEC_def)
      ultimately show ?thesis using x kb k(2) by (intro conjI exI) auto
    qed
  qed
qed simp

section \<open>What \<open>putroot\<close> leaves on the disk\<close>

definition name_fits :: "byte list \<Rightarrow> bool" where
  "name_fits name83 \<longleftrightarrow>
     length (name_parts name83 ! 0) \<le> 8 \<and> length (name_parts name83 ! 1) \<le> 3"

definition flush_writes :: "vol \<Rightarrow> (nat \<times> byte list) list" where
  "flush_writes v = map (\<lambda>i. (v_base v + (v_rsvd v + i * v_spf v) * SEC, v_fat v)) [0..<v_nfats v]"

lemma flush_eq: "flush v = Inr (v\<lparr>v_img := write_all file_put (v_img v) (flush_writes v)\<rparr>)"
  by (simp add: flush_def flush_copies_eq flush_writes_def)

lemma link_chain_geometry:
  "link_chain vol_set z v cs = Inr w \<Longrightarrow> \<exists>f. w = v\<lparr>v_fat := f\<rparr> \<and> length f = length (v_fat v)"
proof (induction cs arbitrary: v rule: induct_list012)
  case 1
  then show ?case by (intro exI [of _ "v_fat v"]) simp
next
  case (2 c)
  then show ?case by (auto simp: vol_set_def length_set12 length_set16 split: if_splits)
next
  case (3 c d cs)
  then obtain v1 where v1: "vol_set v c d = Inr v1" "link_chain vol_set z v1 (d # cs) = Inr w"
    by auto
  from v1(1) obtain f where "v1 = v\<lparr>v_fat := f\<rparr>" "length f = length (v_fat v)"
    by (auto simp: vol_set_def length_set12 length_set16 split: if_splits)
  with "3.IH"(2) [OF v1(2)] show ?case by auto
qed

lemma flush_copy_before:
  assumes "sound v" and "i < v_nfats v"
  shows "v_base v + (v_rsvd v + i * v_spf v) * SEC + v_spf v * SEC \<le> v_base v + v_rootsec v * SEC"
proof -
  from assms(2) have "i * v_spf v + v_spf v \<le> v_nfats v * v_spf v"
    using mult_le_mono1 [of "Suc i" "v_nfats v" "v_spf v"] by simp
  with assms(1) have "v_rsvd v + i * v_spf v + v_spf v \<le> v_rootsec v" by (simp add: sound_def)
  then have "(v_rsvd v + i * v_spf v + v_spf v) * SEC \<le> v_rootsec v * SEC" by (rule mult_le_mono1)
  then show ?thesis by (simp add: algebra_simps)
qed

lemma flush_writes_inside:
  assumes "sound v" and "w \<in> set (flush_writes v)"
  shows "fst w + length (snd w) \<le> v_base v + v_rootsec v * SEC"
  using assms flush_copy_before [OF assms(1)] by (auto simp: flush_writes_def sound_def)

lemma cluster_writes_inside:
  assumes "sound v" and "\<forall>c\<in>set cs. c \<in> set [2..<nat (v_count v + 2)]"
    and "w \<in> set (cluster_writes v data (v_spc v * SEC) i cs)"
  shows "fst w + length (snd w) \<le> length (v_img v)" and "v_base v + v_data0 v * SEC \<le> fst w"
proof -
  from cluster_writes_mem [OF assms(3)] obtain j where j: "j < length cs"
    "w = (cpos v (cs ! j), chunk data (v_spc v * SEC) (i + j))" by blast
  with assms(2) have "cs ! j \<in> set [2..<nat (v_count v + 2)]" by (auto simp: nth_mem)
  then have "2 \<le> cs ! j" "cs ! j \<le> nat (v_count v) + 1" "2 \<le> nat (v_count v) + 1" by auto
  from sound_cluster(5,6) [OF assms(1) this] j(2)
  show "fst w + length (snd w) \<le> length (v_img v)" and "v_base v + v_data0 v * SEC \<le> fst w"
    by simp_all
qed

lemma sound_write:
  "sound v \<Longrightarrow> length f = length (v_fat v) \<Longrightarrow> length x = length (v_img v) \<Longrightarrow>
     sound (v\<lparr>v_fat := f, v_img := x\<rparr>)"
  by (auto simp: sound_def root_len_def vol_has_def has12_def has16_def)

lemma root_sectors_mem:
  "s \<in> set (root_sectors v) \<Longrightarrow> \<exists>k. s = int k \<and> v_rootsec v \<le> k \<and> k < v_rootsec v + root_len v"
proof -
  assume "s \<in> set (root_sectors v)"
  then obtain i where "i < root_len v" "s = int (v_rootsec v + i)"
    by (auto simp: root_sectors_def root_len_def)
  then show ?thesis by (intro exI [of _ "v_rootsec v + i"]) simp
qed

section \<open>Directory slots, flattened over the sectors\<close>

definition sector :: "vol \<Rightarrow> int \<Rightarrow> byte list" where
  "sector v s = file_get (v_img v) (nat (int (v_base v) + s * int SEC)) SEC"

definition slots_of :: "vol \<Rightarrow> int list \<Rightarrow> byte list list" where
  "slots_of v ss = concat (map (\<lambda>s. sector_slots (sector v s)) ss)"

definition used_slot :: "byte list \<Rightarrow> bool" where
  "used_slot e \<longleftrightarrow> e ! 0 \<noteq> 0 \<and> e ! 0 \<noteq> 0xE5"

lemma rd_sector [simp]: "0 \<le> s \<Longrightarrow> rd v s (Suc 0) = Inr (sector v s)"
proof -
  assume "0 \<le> s"
  then have "0 \<le> int (v_base v) + s * int SEC" by simp
  then show ?thesis by (simp add: rd_def file_read_def sector_def)
qed

lemma scan_slots_append:
  "scan_slots (xs @ ys) lfn =
     (case scan_slots xs lfn of
        (as, Next lfn') \<Rightarrow> (case scan_slots ys lfn' of (bs, fl) \<Rightarrow> (as @ bs, fl))
      | (as, fl) \<Rightarrow> (as, fl))"
  by (induction xs arbitrary: lfn) (auto split: prod.splits flow.splits option.splits)

lemma scan_sectors_eq:
  "\<forall>s\<in>set ss. 0 \<le> s \<Longrightarrow>
     scan_sectors v ss lfn =
       (case scan_slots (slots_of v ss) lfn of
          (ys, Raise x) \<Rightarrow> (ys, Some x) | (ys, _) \<Rightarrow> (ys, None))"
proof (induction ss arbitrary: lfn)
  case (Cons s ss)
  then show ?case
    by (auto simp: slots_of_def scan_slots_append split: prod.splits flow.splits)
qed (simp add: slots_of_def)

lemma length_sector_slots [simp]: "length (sector_slots b) = 16"
  by (simp add: sector_slots_def)

lemma sector_slots_nth: "k < 16 \<Longrightarrow> sector_slots b ! k = take 32 (drop (32 * k) b)"
proof -
  assume "k < 16"
  moreover have "slice b (int (32 * k)) (int (32 * k + 32)) = take 32 (drop (32 * k) b)"
    by (simp only: slice_nonneg) simp
  ultimately show ?thesis by (simp add: sector_slots_def)
qed

lemma sector_slots_update:
  assumes "length b = 512" and "length x = 32" and "k < 16"
  shows "sector_slots (take (32 * k) b @ x @ drop (32 * k + 32) b) = (sector_slots b)[k := x]"
proof (rule nth_equalityI)
  fix j assume "j < length (sector_slots (take (32 * k) b @ x @ drop (32 * k + 32) b))"
  then have j: "j < 16" by simp
  consider "j < k" | "j = k" | "k < j" by linarith
  then show "sector_slots (take (32 * k) b @ x @ drop (32 * k + 32) b) ! j = (sector_slots b)[k := x] ! j"
  proof cases
    case 2
    with assms j show ?thesis by (simp add: sector_slots_nth)
  next
    case 1
    then have "32 * j + 32 \<le> 32 * k" by simp
    with assms j 1 show ?thesis
      using take_drop_apart [of "32 * k" x b "32 * j" 32] by (simp add: sector_slots_nth)
  next
    case 3
    then have "32 * k + 32 \<le> 32 * j" by simp
    with assms j 3 show ?thesis
      using take_drop_apart [of "32 * k" x b "32 * j" 32] by (simp add: sector_slots_nth)
  qed
qed simp

lemma free_slot_None:
  "free_slot b ks = Inr None \<Longrightarrow> k \<in> set ks \<Longrightarrow> b ! (32 * k) \<noteq> 0 \<and> b ! (32 * k) \<noteq> 0xE5"
  by (induction ks) (auto simp: idx_eq_Inr split: if_splits)

lemma free_slot_Some:
  "free_slot b [i..<n] = Inr (Some p) \<Longrightarrow>
     \<exists>k. p = 32 * k \<and> i \<le> k \<and> k < n \<and> (b ! (32 * k) = 0 \<or> b ! (32 * k) = 0xE5)
       \<and> (\<forall>j. i \<le> j \<longrightarrow> j < k \<longrightarrow> b ! (32 * j) \<noteq> 0 \<and> b ! (32 * j) \<noteq> 0xE5)"
proof (induction "n - i" arbitrary: i)
  case (Suc m)
  then have "i < n" by simp
  then have up: "[i..<n] = i # [Suc i..<n]" by (simp add: upt_conv_Cons)
  show ?case
  proof (cases "b ! (32 * i) = 0 \<or> b ! (32 * i) = 0xE5")
    case True
    with Suc.prems up \<open>i < n\<close> show ?thesis by (intro exI [of _ i]) (auto simp: idx_eq_Inr)
  next
    case False
    with Suc.prems up have "free_slot b [Suc i..<n] = Inr (Some p)" by (auto simp: idx_eq_Inr)
    moreover have "m = n - Suc i" using Suc.hyps(2) by simp
    ultimately obtain k where k: "p = 32 * k" "Suc i \<le> k" "k < n"
      "b ! (32 * k) = 0 \<or> b ! (32 * k) = 0xE5"
      "\<forall>j. Suc i \<le> j \<longrightarrow> j < k \<longrightarrow> b ! (32 * j) \<noteq> 0 \<and> b ! (32 * j) \<noteq> 0xE5"
      using Suc.hyps(1) by blast
    have "b ! (32 * j) \<noteq> 0 \<and> b ! (32 * j) \<noteq> 0xE5" if "i \<le> j" "j < k" for j
      using k(5) False that by (cases "j = i") auto
    with k show ?thesis by (intro exI [of _ k]) auto
  qed
qed simp

lemma slot_first_byte: "length b = 512 \<Longrightarrow> k < 16 \<Longrightarrow> sector_slots b ! k ! 0 = b ! (32 * k)"
  by (simp add: sector_slots_nth)

lemma sector_pos: "int (v_base v) + int k * int SEC = int (v_base v + k * SEC)"
  by simp

lemma sector_eq: "sector v (int k) = file_get (v_img v) (v_base v + k * SEC) SEC"
  by (simp only: sector_def sector_pos nat_int)

lemma length_sector: "v_base v + (k + 1) * SEC \<le> length (v_img v) \<Longrightarrow> length (sector v (int k)) = SEC"
  by (simp add: sector_eq file_get_def)

lemma wr_sector: "wr v (int k) xs = Inr (v\<lparr>v_img := file_put (v_img v) (v_base v + k * SEC) xs\<rparr>)"
  by (simp only: wr_def sector_pos file_write_nat bind_res_simps)

text \<open>Writing one whole sector changes that sector only.\<close>

lemma sector_after_wr:
  assumes "length xs = SEC" and "v_base v + (s + 1) * SEC \<le> length (v_img v)"
    and "v' = v\<lparr>v_img := file_put (v_img v) (v_base v + s * SEC) xs\<rparr>"
  shows "sector v' (int j) = (if j = s then xs else sector v (int j))"
proof -
  have fit: "v_base v + s * SEC + length xs \<le> length (v_img v)" using assms(1,2) by simp
  have "j \<noteq> s \<Longrightarrow> j * SEC + SEC \<le> s * SEC \<or> s * SEC + SEC \<le> j * SEC"
    using mult_le_mono1 [of "Suc j" s SEC] mult_le_mono1 [of "Suc s" j SEC] by (auto simp: neq_iff)
  then show ?thesis
    using img.get_put_same [OF fit] img.get_put_apart [OF fit, of "v_base v + j * SEC" SEC] assms(1,3)
    by (auto simp: sector_eq)
qed

lemma slot_split:
  "k < 16 \<Longrightarrow> sector_slots b = take k (sector_slots b) @ sector_slots b ! k # drop (Suc k) (sector_slots b)"
  by (simp add: id_take_nth_drop)

lemma used_before:
  assumes "length b = 512" and "k < 16" and "\<forall>j<k. b ! (32 * j) \<noteq> 0 \<and> b ! (32 * j) \<noteq> 0xE5"
    and "e \<in> set (take k (sector_slots b))"
  shows "used_slot e"
proof -
  from assms(2,4) obtain j where "j < k" "e = sector_slots b ! j" by (auto simp: in_set_conv_nth)
  with assms show ?thesis by (simp add: used_slot_def slot_first_byte)
qed

text \<open>
  \<open>put_entry\<close> replaces the first slot that is free or deleted, and no other.
\<close>

lemma put_entry_slots:
  assumes "put_entry v (map int ks) (Inr x) free = (v', Inr r)" and "length x = 32" and "distinct ks"
    and "\<forall>k\<in>set ks. v_base v + (k + 1) * SEC \<le> length (v_img v)"
  shows "\<exists>pre old post. slots_of v (map int ks) = pre @ old # post
     \<and> slots_of v' (map int ks) = pre @ x # post
     \<and> (\<forall>e\<in>set pre. used_slot e) \<and> \<not> used_slot old
     \<and> (\<forall>k. k \<notin> set ks \<longrightarrow> sector v' (int k) = sector v (int k))"
  using assms(1,3,4)
proof (induction ks)
  case (Cons s ks)
  let ?b = "sector v (int s)" and ?xs = "sector_slots (sector v (int s))"
  have len: "length ?b = 512" using Cons.prems(3) length_sector [of v s] by (simp add: SEC_def)
  show ?case
  proof (cases "free_slot ?b [0..<16]")
    case (Inl e)
    with Cons.prems(1) show ?thesis by simp
  next
    case (Inr q)
    show ?thesis
    proof (cases q)
      case None
      have used: "\<forall>e\<in>set ?xs. used_slot e"
        using free_slot_None [of ?b "[0..<16]"] Inr None len
        by (auto simp: in_set_conv_nth used_slot_def slot_first_byte)
      from Cons.prems(1) Inr None have "put_entry v (map int ks) (Inr x) free = (v', Inr r)" by simp
      from Cons.IH [OF this] Cons.prems(2,3) obtain pre old post where
        ih: "slots_of v (map int ks) = pre @ old # post" "slots_of v' (map int ks) = pre @ x # post"
          "\<forall>e\<in>set pre. used_slot e" "\<not> used_slot old"
          "\<forall>k. k \<notin> set ks \<longrightarrow> sector v' (int k) = sector v (int k)"
        by auto
      have "sector v' (int s) = ?b" using ih(5) Cons.prems(2) by simp
      with ih used show ?thesis
        by (intro exI [of _ "?xs @ pre"] exI [of _ old] exI [of _ post]) (auto simp: slots_of_def)
    next
      case (Some p)
      with free_slot_Some [of ?b 0 16 p] Inr obtain k where k: "p = 32 * k" "k < 16"
        "?b ! (32 * k) = 0 \<or> ?b ! (32 * k) = 0xE5"
        "\<forall>j<k. ?b ! (32 * j) \<noteq> 0 \<and> ?b ! (32 * j) \<noteq> 0xE5" by auto
      let ?n = "take (32 * k) ?b @ x @ drop (32 * k + 32) ?b"
      have v': "v' = v\<lparr>v_img := file_put (v_img v) (v_base v + s * SEC) ?n\<rparr>"
        using Cons.prems(1) Inr Some k(1) by (simp add: wr_sector)
      have n: "length ?n = SEC" using k(2) len assms(2) by (simp add: SEC_def)
      have after: "sector v' (int j) = (if j = s then ?n else sector v (int j))" for j
        using sector_after_wr [OF n _ v'] Cons.prems(3) by simp
      have rest: "slots_of v' (map int ks) = slots_of v (map int ks)"
        using Cons.prems(2) after by (auto simp: slots_of_def intro!: arg_cong [where f = concat])
      have "slots_of v (map int (s # ks))
          = take k ?xs @ ?xs ! k # (drop (Suc k) ?xs @ slots_of v (map int ks))"
        using slot_split [OF k(2)] by (simp add: slots_of_def)
      moreover have "slots_of v' (map int (s # ks))
          = take k ?xs @ x # (drop (Suc k) ?xs @ slots_of v (map int ks))"
        using sector_slots_update [OF len assms(2) k(2)] k(2) rest after [of s]
        by (simp add: slots_of_def upd_conv_take_nth_drop)
      moreover have "\<not> used_slot (?xs ! k)"
        using k(2,3) len by (auto simp: used_slot_def slot_first_byte)
      ultimately show ?thesis
        using after used_before [OF len k(2,4)] by (intro exI conjI) auto
    qed
  qed
qed simp

section \<open>The stages of \<open>putroot\<close>\<close>

text \<open>
  Before the directory entry is written: the clusters are free ones, the table links
  them in order, each holds its part of the data, every other cluster what it held, and
  the root directory is untouched.
\<close>

definition stored :: "vol \<Rightarrow> byte list \<Rightarrow> nat list \<Rightarrow> byte list \<Rightarrow> bool" where
  "stored v data cs x \<longleftrightarrow>
     (\<forall>j<length cs. file_get x (cpos v (cs ! j)) (v_spc v * SEC) = chunk data (v_spc v * SEC) j)
     \<and> (\<forall>c. 2 \<le> c \<longrightarrow> c \<notin> set cs \<longrightarrow>
          file_get x (cpos v c) (v_spc v * SEC) = file_get (v_img v) (cpos v c) (v_spc v * SEC))"

lemma root_len_data0:
  "sound v \<Longrightarrow> v_base v + (v_rootsec v + root_len v) * SEC \<le> v_base v + v_data0 v * SEC"
  by (simp add: sound_def)

lemma cpos_after_root: "sound v \<Longrightarrow> v_base v + v_rootsec v * SEC \<le> cpos v c \<and> v_base v + v_data0 v * SEC \<le> cpos v c"
  using root_len_data0 [of v] by (simp add: cpos_def algebra_simps)

lemma data0_inside: "sound v \<Longrightarrow> v_base v + v_data0 v * SEC \<le> length (v_img v)"
  by (simp add: sound_def algebra_simps)

lemma cluster_stage:
  assumes snd: "sound v" and fsub: "\<forall>c\<in>set cs. c \<in> set [2..<nat (v_count v + 2)]" and dist: "distinct cs"
    and w: "link_chain vol_set 0xFFF v cs = Inr w"
    and x: "x = write_all file_put (v_img v) (cluster_writes v data (v_spc v * SEC) 0 cs)"
  shows "length x = length (v_img v)" and "stored v data cs x"
    and "q + n \<le> v_base v + v_data0 v * SEC \<Longrightarrow> file_get x q n = file_get (v_img v) q n"
    and "sound (w\<lparr>v_img := x\<rparr>)"
proof -
  let ?W = "cluster_writes v data (v_spc v * SEC) 0 cs"
  have ins: "\<forall>a\<in>set ?W. fst a + length (snd a) \<le> length (v_img v)"
    using cluster_writes_inside(1) [OF snd fsub] by blast
  have low: "\<forall>a\<in>set ?W. v_base v + v_data0 v * SEC \<le> fst a"
    using cluster_writes_inside(2) [OF snd fsub] by blast
  show len: "length x = length (v_img v)" unfolding x by (rule img.cap_write_all [OF ins])
  have "\<forall>c\<in>set cs. 2 \<le> c" using fsub by auto
  from img.write_all_same [OF ins cluster_writes_apart [OF dist this refl]]
  have "\<forall>j<length cs. file_get x (cpos v (cs ! j)) (v_spc v * SEC) = chunk data (v_spc v * SEC) j"
    using cluster_writes_nth [of _ cs v data "v_spc v * SEC" 0] unfolding x by fastforce
  moreover have "file_get x (cpos v c) (v_spc v * SEC) = file_get (v_img v) (cpos v c) (v_spc v * SEC)"
    if c: "2 \<le> c" "c \<notin> set cs" for c
    unfolding x using ins cluster_writes_others [OF \<open>\<forall>c\<in>set cs. 2 \<le> c\<close> c]
    by (intro img.write_all_apart) blast
  ultimately show "stored v data cs x" by (simp add: stored_def)
  show "q + n \<le> v_base v + v_data0 v * SEC \<Longrightarrow> file_get x q n = file_get (v_img v) q n"
    unfolding x using ins low by (intro img.write_all_apart) fastforce
  from link_chain_geometry [OF w] sound_write [OF snd _ len] show "sound (w\<lparr>v_img := x\<rparr>)" by auto
qed

text \<open>Every copy of the table on the disk holds the table.\<close>

definition flushed :: "vol \<Rightarrow> byte list \<Rightarrow> bool" where
  "flushed v x \<longleftrightarrow> (\<forall>i<v_nfats v.
     file_get x (v_base v + (v_rsvd v + i * v_spf v) * SEC) (v_spf v * SEC) = v_fat v)"

lemma flush_writes_apart:
  assumes "length (v_fat v) = v_spf v * SEC"
  shows "sorted_wrt apart (flush_writes v)"
proof -
  have "i * v_spf v * SEC + v_spf v * SEC \<le> j * v_spf v * SEC" if "i < j" for i j
    using mult_le_mono1 [of "Suc i" j "v_spf v * SEC"] that by (simp add: mult.assoc)
  then show ?thesis
    by (auto simp: flush_writes_def sorted_wrt_iff_nth_less apart_def assms add_mult_distrib)
qed

lemma flush_stage:
  assumes snd: "sound v" and x: "x = write_all file_put (v_img v) (flush_writes v)"
  shows "length x = length (v_img v)" and "flushed v x"
    and "v_base v + v_rootsec v * SEC \<le> q \<Longrightarrow> file_get x q n = file_get (v_img v) q n"
proof -
  have fin: "\<forall>a\<in>set (flush_writes v). fst a + length (snd a) \<le> v_base v + v_rootsec v * SEC"
    using flush_writes_inside [OF snd] by blast
  have "v_base v + v_rootsec v * SEC \<le> length (v_img v)"
    using data0_inside [OF snd] root_len_data0 [OF snd] by (simp add: algebra_simps)
  with fin have ins: "\<forall>a\<in>set (flush_writes v). fst a + length (snd a) \<le> length (v_img v)" by fastforce
  then show "length x = length (v_img v)" unfolding x by (rule img.cap_write_all)
  have len: "length (v_fat v) = v_spf v * SEC" using snd by (simp add: sound_def)
  have "file_get x (v_base v + (v_rsvd v + i * v_spf v) * SEC) (length (v_fat v)) = v_fat v" if "i < v_nfats v" for i
    unfolding x using that
    by (intro img.write_all_same [OF ins flush_writes_apart [OF len]]) (auto simp: flush_writes_def)
  then show "flushed v x" by (simp add: flushed_def len)
  show "v_base v + v_rootsec v * SEC \<le> q \<Longrightarrow> file_get x q n = file_get (v_img v) q n"
    unfolding x using fin ins by (intro img.write_all_apart) fastforce
qed

lemma free_clusters_total:
  "\<forall>c\<in>set cs. vol_has v c \<Longrightarrow> free_clusters v cs = Inr (filter (\<lambda>c. vol_get v c = Inr 0) cs)"
  using vol.get_total by (induction cs) fastforce+

definition clusters_needed :: "vol \<Rightarrow> byte list \<Rightarrow> nat" where
  "clusters_needed v data = max 1 ((length data + v_spc v * SEC - 1) div (v_spc v * SEC))"

definition free_list :: "vol \<Rightarrow> nat list" where
  "free_list v = filter (\<lambda>c. vol_get v c = Inr 0) [2..<nat (v_count v + 2)]"

lemma sound_has: "sound v \<Longrightarrow> c \<in> set [2..<nat (v_count v + 2)] \<Longrightarrow> vol_has v c \<and> vol_fits v c"
proof -
  assume snd: "sound v" and "c \<in> set [2..<nat (v_count v + 2)]"
  then have "2 \<le> c" "c \<le> nat (v_count v) + 1" "2 \<le> nat (v_count v) + 1" by auto
  from sound_cluster(1,2) [OF snd this] show ?thesis by blast
qed

lemma putroot_stages:
  assumes snd: "sound v"
  shows "\<exists>cs w x. cs = take (clusters_needed v data) (free_list v)
    \<and> link_chain vol_set 0xFFF v cs = Inr w \<and> length x = length (v_img v) \<and> stored v data cs x \<and> flushed w x
    \<and> (\<forall>q n. v_base v + v_rootsec v * SEC \<le> q \<longrightarrow> q + n \<le> v_base v + v_data0 v * SEC \<longrightarrow>
          file_get x q n = file_get (v_img v) q n)
    \<and> putroot v name83 data = put_entry (w\<lparr>v_img := x\<rparr>) (root_sectors v)
        (make_entry (name_parts name83 ! 0) (name_parts name83 ! 1) cs (length data)) cs"
proof -
  let ?csz = "v_spc v * SEC" and ?r = "[2..<nat (v_count v + 2)]"
  have csz: "?csz \<noteq> 0" using snd by (simp add: sound_def SEC_def)
  have fs: "free_clusters v ?r = Inr (free_list v)"
    using sound_has [OF snd] unfolding free_list_def by (intro free_clusters_total) blast
  define cs where "cs = take (clusters_needed v data) (free_list v)"
  have fsub: "\<forall>c\<in>set cs. c \<in> set ?r" and dist: "distinct cs"
    by (auto simp: cs_def free_list_def dest: in_set_takeD)
  from sound_has [OF snd] fsub obtain w where w: "link_chain vol_set 0xFFF v cs = Inr w"
    using vol.link_chain_total [of cs v "0xFFF"] by (auto simp: vol_fits_def)
  define x1 where "x1 = write_all file_put (v_img v) (cluster_writes v data ?csz 0 cs)"
  define v1 where "v1 = w\<lparr>v_img := x1\<rparr>"
  define x2 where "x2 = write_all file_put (v_img v1) (flush_writes v1)"
  note st1 = cluster_stage [OF snd fsub dist w x1_def]
  from st1(4) have snd1: "sound v1" by (simp add: v1_def)
  note st2 = flush_stage [OF snd1 x2_def]
  from link_chain_geometry [OF w] obtain f where f: "w = v\<lparr>v_fat := f\<rparr>" by blast
  have geo: "v_base v1 = v_base v" "v_rootsec v1 = v_rootsec v" "v_img v1 = x1"
    "root_sectors (v1\<lparr>v_img := x2\<rparr>) = root_sectors v"
    using f by (auto simp: v1_def root_sectors_def)
  have put1: "put_clusters v data ?csz 0 cs = (v1, Inr ())"
    using put_clusters_eq [OF w] fsub by (simp add: v1_def x1_def)
  have fl: "flush v1 = Inr (v1\<lparr>v_img := x2\<rparr>)" by (simp add: flush_eq x2_def)
  have pe: "putroot v name83 data = put_entry (w\<lparr>v_img := x2\<rparr>) (root_sectors v)
        (make_entry (name_parts name83 ! 0) (name_parts name83 ! 1) cs (length data)) cs"
    using csz fs put1 fl geo(4)
    by (simp add: putroot_def Let_def cs_def v1_def clusters_needed_def)
  have "stored v data cs x2"
    using st1(2) st2(3) cpos_after_root [OF snd] by (simp add: stored_def geo)
  moreover have "file_get x2 q n = file_get (v_img v) q n"
    if "v_base v + v_rootsec v * SEC \<le> q" "q + n \<le> v_base v + v_data0 v * SEC" for q n
    using st1(3) [OF that(2)] st2(3) that(1) by (simp add: geo)
  moreover have "flushed w x2" using st2(2) by (simp add: flushed_def v1_def)
  ultimately show ?thesis using cs_def w st1(1) st2(1) geo(3) pe
    by (intro exI [of _ cs] exI [of _ w] exI [of _ x2] conjI) simp_all
qed

lemma free_list_range:
  "distinct (take k (free_list v))" "\<forall>c\<in>set (take k (free_list v)). c \<in> set [2..<nat (v_count v + 2)]"
  by (auto simp: free_list_def dest: in_set_takeD)

lemma length_entry_fits:
  "name_fits name83 \<Longrightarrow> make_entry (name_parts name83 ! 0) (name_parts name83 ! 1) cs n = Inr e
     \<Longrightarrow> length e = 32"
  by (auto simp: name_fits_def intro: length_make_entry)

text \<open>
  After a successful call: the clusters it returns were free, the table links them in
  order, and each holds its part of the data; the volume is sound again.
\<close>

lemma putroot_effect:
  assumes snd: "sound v" and put: "putroot v name83 data = (v', Inr cs)" and nm: "name_fits name83"
  shows "cs \<noteq> [] \<and> distinct cs \<and> (\<forall>c\<in>set cs. c \<in> set [2..<nat (v_count v + 2)])
    \<and> (\<exists>w x. link_chain vol_set 0xFFF v cs = Inr w \<and> v' = w\<lparr>v_img := x\<rparr> \<and> sound v'
         \<and> stored v data cs x \<and> flushed w x)
    \<and> cs = take (clusters_needed v data) (free_list v)"
proof -
  let ?e = "\<lambda>cs. make_entry (name_parts name83 ! 0) (name_parts name83 ! 1) cs (length data)"
  from putroot_stages [OF snd, of data name83] put obtain cs' w x where
    free: "cs' = take (clusters_needed v data) (free_list v)"
    and w: "link_chain vol_set 0xFFF v cs' = Inr w"
    and img: "length x = length (v_img v)" "stored v data cs' x" and fl: "flushed w x"
    and pe: "put_entry (w\<lparr>v_img := x\<rparr>) (root_sectors v) (?e cs') cs' = (v', Inr cs)"
    by auto
  have st: "distinct cs'" "\<forall>c\<in>set cs'. c \<in> set [2..<nat (v_count v + 2)]"
    "link_chain vol_set 0xFFF v cs' = Inr w" "length x = length (v_img v)" "stored v data cs' x"
    using free_list_range [of "clusters_needed v data" v] free w img by auto
  from link_chain_geometry [OF st(3)] obtain f where f: "w = v\<lparr>v_fat := f\<rparr>" "length f = length (v_fat v)"
    by blast
  have rs: "\<forall>s\<in>set (root_sectors v). \<exists>k. s = int k \<and> v_rootsec v \<le> k \<and> k < v_rootsec v + root_len v"
    using root_sectors_mem by blast
  have lim: "v_base v + (v_rootsec v + root_len v) * SEC \<le> v_base v + v_data0 v * SEC"
    by (rule root_len_data0 [OF snd])
  have e32: "length e = 32" if "?e cs' = Inr e" for e using length_entry_fits [OF nm that] .
  have room: "v_base (w\<lparr>v_img := x\<rparr>) + (v_rootsec v + root_len v) * SEC \<le> length (v_img (w\<lparr>v_img := x\<rparr>))"
    using le_trans [OF lim data0_inside [OF snd]] st(4) f(1) by simp
  from put_entry_effect [OF pe rs e32 room] f(1)
  obtain e p xs where res: "cs = cs'" "?e cs' = Inr e" "v' = w\<lparr>v_img := file_put x p xs\<rparr>"
    and plo: "v_base v + v_rootsec v * SEC \<le> p" and "p + length xs \<le> v_base v + (v_rootsec v + root_len v) * SEC"
    by auto
  from this(5) lim have pin: "p + length xs \<le> v_base v + v_data0 v * SEC" by (rule le_trans)
  from res(2) have "cs' \<noteq> []"
    by (auto simp: make_entry_def Let_def idx_def split: if_splits elim!: bind_res_InrE)
  have fit: "p + length xs \<le> length x" using pin data0_inside [OF snd] st(4) by simp
  have "p + length xs \<le> cpos v c" for c
    using cpos_after_root [OF snd, of c] pin by linarith
  then have "stored v data cs' (file_put x p xs)"
    using st(5) img.get_put_apart [OF fit] by (simp add: stored_def)
  moreover have "file_get (file_put x p xs) q n = file_get x q n" if "q + n \<le> v_base v + v_rootsec v * SEC" for q n
    using img.get_put_apart [OF fit] that plo by simp
  then have "flushed w (file_put x p xs)"
    using fl flush_copy_before [OF snd] f(1) by (simp add: flushed_def)
  moreover have "sound v'"
    using sound_write [OF snd f(2), of "file_put x p xs"] img.cap_put [OF fit] st(4) f(1) res(3) by simp
  ultimately show ?thesis using st res free \<open>cs' \<noteq> []\<close> by blast
qed

section \<open>The entry written is the entry read\<close>

definition part_ok :: "nat \<Rightarrow> byte list \<Rightarrow> bool" where
  "part_ok n t \<longleftrightarrow> t \<noteq> [] \<and> length t \<le> n \<and> (\<forall>c\<in>set t. 33 \<le> unat c \<and> unat c \<le> 126 \<and> unat c \<noteq> 47)"

text \<open>A plain 8.3 name: printable ASCII, one dot at most, no slash.\<close>

definition name_ok :: "byte list \<Rightarrow> bool" where
  "name_ok name83 \<longleftrightarrow>
     (case split_dot [] name83 of
        [b] \<Rightarrow> part_ok 8 b | [b, x] \<Rightarrow> part_ok 8 b \<and> part_ok 3 x | _ \<Rightarrow> False)"

lemma split_dot_nonempty [simp]: "split_dot acc t \<noteq> []"
  by (induction t arbitrary: acc) auto

lemma split_dot_join:
  "split_dot acc t = [b] \<Longrightarrow> b = acc @ t"
  "split_dot acc t = [b, x] \<Longrightarrow> acc @ t = b @ 46 # x"
proof -
  have one: "split_dot acc t = [b] \<Longrightarrow> b = acc @ t" for acc t b
    by (induction t arbitrary: acc) (fastforce split: if_splits)+
  then show "split_dot acc t = [b] \<Longrightarrow> b = acc @ t" .
  show "split_dot acc t = [b, x] \<Longrightarrow> acc @ t = b @ 46 # x"
    by (induction t arbitrary: acc) (fastforce split: if_splits dest: one)+
qed

lemma name_ok_parts:
  assumes "name_ok name83"
  shows "name_fits name83"
    and "\<exists>b x. name_parts name83 ! 0 = b \<and> name_parts name83 ! 1 = x \<and> part_ok 8 b
          \<and> (x = [] \<or> part_ok 3 x) \<and> name83 = b @ (if x = [] then [] else 46 # x)"
proof -
  consider (one) b where "split_dot [] name83 = [b]" "part_ok 8 b"
    | (two) b x where "split_dot [] name83 = [b, x]" "part_ok 8 b" "part_ok 3 x"
    using assms by (auto simp: name_ok_def split: list.splits)
  then have "name_fits name83 \<and> (\<exists>b x. name_parts name83 ! 0 = b \<and> name_parts name83 ! 1 = x \<and> part_ok 8 b
          \<and> (x = [] \<or> part_ok 3 x) \<and> name83 = b @ (if x = [] then [] else 46 # x))"
  proof cases
    case one
    with split_dot_join(1) [OF one(1)] show ?thesis
      by (auto simp: name_fits_def name_parts_def part_ok_def)
  next
    case two
    with split_dot_join(2) [OF two(1)] show ?thesis
      by (auto simp: name_fits_def name_parts_def part_ok_def)
  qed
  then show "name_fits name83" and "\<exists>b x. name_parts name83 ! 0 = b \<and> name_parts name83 ! 1 = x \<and> part_ok 8 b
          \<and> (x = [] \<or> part_ok 3 x) \<and> name83 = b @ (if x = [] then [] else 46 # x)" by blast+
qed

lemma join_H: "c < 0x10000 \<Longrightarrow>
  unat (of_nat (c mod 256) :: byte) OR push_bit 8 (unat (of_nat (c div 256) :: byte)) = c"
proof -
  assume "c < 0x10000"
  then have c: "take_bit 16 c = c" by (simp add: take_bit_eq_mod)
  have "take_bit 8 (take_bit 8 (take_bit 16 c)) OR push_bit 8 (take_bit 8 (drop_bit 8 (take_bit 16 c)))
      = take_bit 16 c"
    by (rule bit_eqI) (auto simp: bit_simps)
  then show ?thesis
    by (simp only: unat_of_nat_byte c) (simp only: take_bit_eq_mod drop_bit_eq_div, simp)
qed

lemma join_I: "n < 0x100000000 \<Longrightarrow>
  unat (of_nat (n mod 256) :: byte) OR push_bit 8 (unat (of_nat (n div 256 mod 256) :: byte))
    OR push_bit 16 (unat (of_nat (n div 65536 mod 256) :: byte))
    OR push_bit 24 (unat (of_nat (n div 16777216) :: byte)) = n"
proof -
  assume "n < 0x100000000"
  then have n: "take_bit 32 n = n" by (simp add: take_bit_eq_mod)
  have "take_bit 8 (take_bit 32 n) OR push_bit 8 (take_bit 8 (drop_bit 8 (take_bit 32 n)))
     OR push_bit 16 (take_bit 8 (drop_bit 16 (take_bit 32 n)))
     OR push_bit 24 (take_bit 8 (drop_bit 24 (take_bit 32 n))) = take_bit 32 n"
  proof (rule bit_eqI)
    fix k
    show "bit (take_bit 8 (take_bit 32 n) OR push_bit 8 (take_bit 8 (drop_bit 8 (take_bit 32 n)))
       OR push_bit 16 (take_bit 8 (drop_bit 16 (take_bit 32 n)))
       OR push_bit 24 (take_bit 8 (drop_bit 24 (take_bit 32 n)))) k = bit (take_bit 32 n) k"
      by (cases "k < 24") (auto simp: bit_simps)
  qed
  then show ?thesis
    by (simp only: unat_of_nat_byte n) (simp only: take_bit_eq_mod drop_bit_eq_div, simp)
qed

definition case_flags :: "byte list \<Rightarrow> byte list \<Rightarrow> byte" where
  "case_flags b x = (if islower b then 0x08 else 0) OR (if islower x then 0x10 else 0)"

definition entry_tail :: "nat \<Rightarrow> nat \<Rightarrow> byte list" where
  "entry_tail c n = [0, 0, 0x21, 0x5A, of_nat (c mod 256), of_nat (c div 256),
     of_nat (n mod 256), of_nat (n div 256 mod 256), of_nat (n div 65536 mod 256), of_nat (n div 16777216)]"

lemma make_entry_layout:
  assumes "make_entry b x (c # cs) n = Inr e" and "length b \<le> 8" and "length x \<le> 3"
  shows "e = ljust 8 (upper b) @ ljust 3 (upper x) @ [0x20, case_flags b x] @ replicate 9 0 @ entry_tail c n"
    and "c < 0x10000" and "n < 0x100000000"
proof -
  let ?P = "ljust 8 (upper b)" and ?Q = "ljust 3 (upper x)"
  let ?e2 = "take 8 (?P @ drop 8 (replicate 32 0)) @ ?Q @ drop 11 (?P @ drop 8 (replicate 32 (0::byte)))"
  have P: "length ?P = 8" and Q: "length ?Q = 3" using assms(2,3) by (simp_all add: ljust_def upper_def)
  have e2: "?e2 = ?P @ ?Q @ replicate 21 0" using P Q by (simp add: drop_replicate)
  have "replicate 21 (0::byte) = 0 # 0 # replicate 19 0" by (simp add: eval_nat_numeral)
  with P Q have e4: "(?e2[11 := 0x20])[12 := case_flags b x]
      = ?P @ ?Q @ [0x20, case_flags b x] @ replicate 19 0"
    by (simp add: e2 list_update_append eval_nat_numeral)
  have "make_entry b x (c # cs) n = pack_HHHI ((?e2[11 := 0x20])[12 := case_flags b x]) 22 0 0x5A21 c n"
    using P Q by (simp add: make_entry_def Let_def case_flags_def)
  with assms(1) have pk: "pack_HHHI (?P @ ?Q @ [0x20, case_flags b x] @ replicate 19 0) 22 0 0x5A21 c n = Inr e"
    by (simp only: e4)
  then show "c < 0x10000" and "n < 0x100000000"
    by (auto simp: pack_HHHI_def split: if_splits)
  show "e = ?P @ ?Q @ [0x20, case_flags b x] @ replicate 9 0 @ entry_tail c n"
    using pk P Q by (auto simp: pack_HHHI_def entry_tail_def split: if_splits)
qed

lemma rstrip_pad: "\<forall>c\<in>set t. \<not> py_space c \<Longrightarrow> rstrip (t @ replicate k 32) = t"
proof -
  assume t: "\<forall>c\<in>set t. \<not> py_space c"
  have "dropWhile py_space (replicate k 32 @ rev t) = dropWhile py_space (rev t)"
    by (rule dropWhile_append2) (simp add: py_space_def)
  also have "dropWhile py_space (rev t) = rev t"
    using t by (cases t rule: rev_cases) simp_all
  finally show ?thesis by (simp add: rstrip_def)
qed

lemma unat_upper1: "unat (upper1 c) = (if 97 \<le> unat c \<and> unat c \<le> 122 then unat c - 32 else unat c)"
  by (simp add: upper1_def unat_sub word_le_nat_alt)

lemma part_ok_upper: "part_ok n t \<Longrightarrow> c \<in> set (upper t) \<Longrightarrow> 33 \<le> unat c \<and> unat c \<le> 126"
  by (auto simp: part_ok_def upper_def unat_upper1 split: if_splits)

lemma rstrip_part:
  assumes "t = [] \<or> part_ok n t"
  shows "rstrip (latin1 (ljust k (upper t))) = latin1 (upper t)"
proof -
  have "\<forall>c\<in>set (latin1 (upper t)). \<not> py_space c"
  proof (cases "t = []")
    case False
    with assms have "part_ok n t" by simp
    from part_ok_upper [OF this] show ?thesis by (fastforce simp: latin1_def py_space_def)
  qed (simp add: latin1_def upper_def)
  then show ?thesis using rstrip_pad [of "latin1 (upper t)"] by (simp add: latin1_def ljust_def)
qed

lemma lower_upper: "lower_latin1 (latin1 (upper t)) = lower_latin1 (latin1 t)"
  by (auto simp: lower_latin1_def latin1_def upper_def lower1_def unat_upper1)

lemma lower_lower: "lower_latin1 (lower_latin1 t) = lower_latin1 t"
  by (auto simp: lower_latin1_def lower1_def)

lemma length_ljust_part: "t = [] \<or> part_ok n t \<Longrightarrow> length (ljust n (upper t)) = n"
  by (auto simp: part_ok_def ljust_def upper_def)

lemma short_name_entry:
  assumes b: "part_ok 8 b" and x: "x = [] \<or> part_ok 3 x"
    and e: "e = ljust 8 (upper b) @ ljust 3 (upper x) @ r"
  shows "lower_latin1 (short_name e fl) = lower_latin1 (latin1 (b @ (if x = [] then [] else 46 # x)))"
    and "short_name e fl \<noteq> []" and "\<forall>c\<in>set (short_name e fl). c < 256"
proof -
  have P: "length (ljust 8 (upper b)) = 8" and Q: "length (ljust 3 (upper x)) = 3"
    using length_ljust_part [of b 8] length_ljust_part [OF x] b by simp_all
  have s8: "slice e 0 8 = ljust 8 (upper b)"
    using slice_nonneg [of e 0 8] P by (simp add: e)
  have s11: "slice e 8 11 = ljust 3 (upper x)"
    using slice_nonneg [of e 8 11] P Q by (simp add: e)
  have rb: "rstrip (latin1 (slice e 0 8)) = latin1 (upper b)"
    using rstrip_part [of b 8 8] b by (simp add: s8)
  have rx: "rstrip (latin1 (slice e 8 11)) = latin1 (upper x)"
    using rstrip_part [OF x, of 3] by (simp add: s11)
  have dot: "lower_latin1 (s @ 46 # t) = lower_latin1 s @ 46 # lower_latin1 t" for s t
    by (simp add: lower_latin1_def lower1_def)
  have nil: "lower_latin1 t = [] \<longleftrightarrow> t = []" "latin1 u = [] \<longleftrightarrow> u = []" "upper u = [] \<longleftrightarrow> u = []" for t u
    by (simp_all add: lower_latin1_def latin1_def upper_def)
  have lat: "latin1 (s @ t) = latin1 s @ latin1 t" "latin1 (46 # t) = 46 # latin1 t" "latin1 [] = []" for s t
    by (simp_all add: latin1_def)
  show "lower_latin1 (short_name e fl) = lower_latin1 (latin1 (b @ (if x = [] then [] else 46 # x)))"
    using lower_upper [of b] lower_upper [of x]
    by (auto simp: short_name_def Let_def rb rx dot nil lat lower_lower)
  show "short_name e fl \<noteq> []"
    using b by (auto simp: short_name_def Let_def rb rx nil part_ok_def)
  have "\<forall>c\<in>set (latin1 u). c < 256" "\<forall>c\<in>set (lower_latin1 (latin1 u)). c < 256" for u
    using unat_byte_less by (auto simp: latin1_def lower_latin1_def lower1_def)
  then show "\<forall>c\<in>set (short_name e fl). c < 256"
    by (auto simp: short_name_def Let_def rb rx)
qed

lemma dir_slot_entry:
  assumes e: "make_entry b x (c # cs) n = Inr e" and b: "part_ok 8 b" and x: "x = [] \<or> part_ok 3 x"
  shows "dir_slot e [] = (Some \<lparr>d_name = short_name e (case_flags b x), d_attr = 0x20,
           d_cluster = c, d_size = n\<rparr>, Next [])"
proof -
  let ?P = "ljust 8 (upper b)" and ?Q = "ljust 3 (upper x)"
  have P: "length ?P = 8" and Q: "length ?Q = 3"
    using length_ljust_part [of b 8] length_ljust_part [OF x] b by simp_all
  from b x have "length b \<le> 8" "length x \<le> 3" by (auto simp: part_ok_def)
  note lay = make_entry_layout [OF e this]
  have len: "length e = 32" by (simp add: lay(1) P Q entry_tail_def)
  obtain b0 b' where b0: "upper b = b0 # b'" using b by (cases "upper b") (auto simp: upper_def part_ok_def)
  then have "33 \<le> unat b0" "unat b0 \<le> 126" using part_ok_upper [OF b, of b0] by simp_all
  then have hd: "b0 \<noteq> 0" "b0 \<noteq> 0xE5" by auto
  have e0: "e ! 0 = b0" by (simp add: lay(1) ljust_def b0)
  have nth: "e ! (11 + k) = ([0x20, case_flags b x] @ replicate 9 0 @ entry_tail c n) ! k" for k
    using P Q by (simp add: lay(1) nth_append)
  have "e ! 11 = 0x20" "e ! 12 = case_flags b x" using nth [of 0] nth [of 1] by simp_all
  moreover have "e ! 26 = of_nat (c mod 256)" "e ! 27 = of_nat (c div 256)"
    using nth [of 15] nth [of 16] by (simp_all add: nth_append entry_tail_def)
  moreover have "e ! 28 = of_nat (n mod 256)" "e ! 29 = of_nat (n div 256 mod 256)"
    "e ! 30 = of_nat (n div 65536 mod 256)" "e ! 31 = of_nat (n div 16777216)"
    using nth [of 17] nth [of 18] nth [of 19] nth [of 20] by (simp_all add: nth_append entry_tail_def)
  moreover have "unpack_H e 26 = Inr c" "unpack_I e 28 = Inr n"
    using calculation join_H [OF lay(2)] join_I [OF lay(3)] len
    by (simp_all only: unpack_H_def unpack_I_def) simp_all
  ultimately show ?thesis
    using hd e0 len by (simp add: dir_slot_def Let_def)
qed

text \<open>The old root directory has no entry of that name before its first reusable slot, and
  no long-name part is pending there.\<close>

definition root_clear :: "(ustr \<Rightarrow> ustr) \<Rightarrow> vol \<Rightarrow> ustr \<Rightarrow> bool" where
  "root_clear lower v nm \<longleftrightarrow>
     (case scan_slots (takeWhile used_slot (slots_of v (root_sectors v))) [] of
        (ys, Next lfn) \<Rightarrow> lfn = [] \<and> (\<forall>d\<in>set ys. lower (d_name d) \<noteq> lower nm)
      | _ \<Rightarrow> False)"

text \<open>\<open>str.lower\<close> on text below code point 256; beyond, nothing is assumed of it.\<close>

definition lower_ok :: "(ustr \<Rightarrow> ustr) \<Rightarrow> bool" where
  "lower_ok lower \<longleftrightarrow> (\<forall>t. (\<forall>c\<in>set t. c < 256) \<longrightarrow> lower t = lower_latin1 t)"

lemma split_path_plain: "47 \<notin> set t \<Longrightarrow> t \<noteq> [] \<or> acc \<noteq> [] \<Longrightarrow> split_path acc t = [acc @ t]"
  by (induction t arbitrary: acc) auto

lemma find_first:
  "\<forall>y\<in>set ys. \<not> P y \<Longrightarrow> P d \<Longrightarrow> List.find P (ys @ d # zs) = Some d"
  by (induction ys) auto

lemma name_ok_path:
  assumes "name_ok nm"
  shows "split_path [] (latin1 nm) = [latin1 nm]"
proof -
  from name_ok_parts(2) [OF assms] obtain b x where bx: "part_ok 8 b" "x = [] \<or> part_ok 3 x"
    "nm = b @ (if x = [] then [] else 46 # x)" by blast
  have "47 \<notin> set (latin1 nm)" and "latin1 nm \<noteq> []"
    using bx by (auto simp: latin1_def part_ok_def)
  then show ?thesis using split_path_plain [of "latin1 nm" "[]"] by simp
qed

lemma root_sectors_nat: "root_sectors v = map int (map (\<lambda>i. v_rootsec v + i) [0..<root_len v])"
  by (simp add: root_sectors_def root_len_def)

lemma slots_of_cong:
  "\<forall>k\<in>set ks. sector v (int k) = sector w (int k) \<Longrightarrow> slots_of v (map int ks) = slots_of w (map int ks)"
  by (induction ks) (simp_all add: slots_of_def)

lemma find_entry_after:
  assumes slots: "slots_of v' (root_sectors v') = pre @ e # post"
    and pre: "scan_slots pre [] = (ys, Next [])" "\<forall>y\<in>set ys. lower (d_name y) \<noteq> lower nm"
    and e: "dir_slot e [] = (Some d, Next [])" and eq: "lower (d_name d) = lower nm"
  shows "find_entry lower v' 0 nm = Inr (Some d)"
proof -
  have "\<forall>s\<in>set (root_sectors v'). 0 \<le> s" by (auto simp: root_sectors_def)
  from scan_sectors_eq [OF this, of v' "[]"] slots pre(1) e
  obtain zs x where "entries v' 0 = (ys @ d # zs, x)"
    by (cases "scan_slots post []")
      (auto simp: entries_def scan_slots_append split: flow.splits)
  then show ?thesis using find_first [of ys "\<lambda>y. lower (d_name y) = lower nm" d zs] pre(2) eq
    by (simp add: find_entry_def)
qed

text \<open>The directory after the call: one slot of the old one is replaced by the new entry.\<close>

lemma putroot_slots:
  assumes snd: "sound v" and fits: "name_fits nm" and put: "putroot v nm data = (v', Inr cs)"
  shows "\<exists>pre old e post. slots_of v (root_sectors v) = pre @ old # post
    \<and> slots_of v' (root_sectors v') = pre @ e # post \<and> pre = takeWhile used_slot (slots_of v (root_sectors v))
    \<and> make_entry (name_parts nm ! 0) (name_parts nm ! 1) cs (length data) = Inr e"
proof -
  let ?ks = "map (\<lambda>i. v_rootsec v + i) [0..<root_len v]"
  let ?e = "\<lambda>cs. make_entry (name_parts nm ! 0) (name_parts nm ! 1) cs (length data)"
  from putroot_stages [OF snd, of data nm] put obtain cs' w y where st: "link_chain vol_set 0xFFF v cs' = Inr w"
    "length y = length (v_img v)"
    "\<And>q n. v_base v + v_rootsec v * SEC \<le> q \<Longrightarrow> q + n \<le> v_base v + v_data0 v * SEC \<Longrightarrow>
        file_get y q n = file_get (v_img v) q n"
    and pe: "put_entry (w\<lparr>v_img := y\<rparr>) (map int ?ks) (?e cs') cs' = (v', Inr cs)"
    using root_sectors_nat by metis
  from link_chain_geometry [OF st(1)] obtain f where f: "w = v\<lparr>v_fat := f\<rparr>" by blast
  define v2 where "v2 = w\<lparr>v_img := y\<rparr>"
  have room: "v_base v2 + (k + 1) * SEC \<le> v_base v + v_data0 v * SEC" if "k \<in> set ?ks" for k
  proof -
    have "k + 1 \<le> v_data0 v" using that snd by (auto simp: sound_def)
    from mult_le_mono1 [OF this, of SEC] show ?thesis using f by (simp add: v2_def)
  qed
  have inside: "v_base v + v_data0 v * SEC \<le> length (v_img v2)"
    using data0_inside [OF snd] st(2) by (simp add: v2_def)
  have "\<forall>s\<in>set (map int ?ks). \<exists>k. s = int k \<and> 0 \<le> k \<and> k < v_data0 v"
  proof
    fix s assume "s \<in> set (map int ?ks)"
    then obtain i where "i < root_len v" "s = int (v_rootsec v + i)" by auto
    with snd show "\<exists>k. s = int k \<and> 0 \<le> k \<and> k < v_data0 v"
      by (intro exI [of _ "v_rootsec v + i"]) (simp add: sound_def)
  qed
  note sec = this
  have e32: "length e = 32" if "?e cs' = Inr e" for e using length_entry_fits [OF fits that] .
  have "v_base (w\<lparr>v_img := y\<rparr>) + v_data0 v * SEC \<le> length (v_img (w\<lparr>v_img := y\<rparr>))"
    using inside f by (simp add: v2_def)
  from put_entry_effect [OF pe sec e32 this]
  obtain e img where e: "?e cs' = Inr e" "cs = cs'" "v' = v2\<lparr>v_img := img\<rparr>"
    by (auto simp: v2_def)
  have "\<forall>k\<in>set ?ks. v_base v2 + (k + 1) * SEC \<le> length (v_img v2)"
    using room inside le_trans by blast
  from put_entry_slots [OF pe [unfolded e(1), folded v2_def] length_entry_fits [OF fits e(1)] _ this]
  obtain pre old post where sl: "slots_of v2 (map int ?ks) = pre @ old # post"
    "slots_of v' (map int ?ks) = pre @ e # post" "\<forall>e\<in>set pre. used_slot e" "\<not> used_slot old"
    by (auto simp: distinct_map inj_on_def)
  have "sector v2 (int k) = sector v (int k)" if k: "k \<in> set ?ks" for k
    using st(3) [of "v_base v + k * SEC" SEC] room [OF k] k f by (auto simp: sector_eq v2_def)
  then have "slots_of v2 (map int ?ks) = slots_of v (root_sectors v)"
    unfolding root_sectors_nat by (intro slots_of_cong ballI)
  moreover have "root_sectors v' = map int ?ks"
    using e(3) f by (simp add: root_sectors_def root_len_def v2_def)
  moreover have "pre = takeWhile used_slot (pre @ old # post)"
    using sl(3,4) by (simp add: takeWhile_append2)
  ultimately show ?thesis using sl(1,2) e(1,2)
    by (intro exI [of _ pre] exI [of _ old] exI [of _ e] exI [of _ post]) simp
qed

text \<open>The entry \<open>putroot\<close> writes decodes to the name it was given.\<close>

lemma new_entry:
  assumes nm: "name_ok nm" and e: "make_entry (name_parts nm ! 0) (name_parts nm ! 1) cs n = Inr e"
    and cs: "cs = c # cs'" and low: "lower_ok lower"
  shows "\<exists>d. dir_slot e [] = (Some d, Next []) \<and> lower (d_name d) = lower (latin1 nm)
    \<and> d_cluster d = c \<and> d_size d = n"
proof -
  from name_ok_parts [OF nm] obtain b x where bx: "name_parts nm ! 0 = b" "name_parts nm ! 1 = x"
    "part_ok 8 b" "x = [] \<or> part_ok 3 x" "nm = b @ (if x = [] then [] else 46 # x)" by blast
  let ?d = "\<lparr>d_name = short_name e (case_flags b x), d_attr = 0x20, d_cluster = c, d_size = n\<rparr>"
  from e bx(1,2) cs have e: "make_entry b x (c # cs') n = Inr e" by simp
  have "length b \<le> 8" "length x \<le> 3" using bx(3,4) by (auto simp: part_ok_def)
  from make_entry_layout(1) [OF e this]
  have "e = ljust 8 (upper b) @ ljust 3 (upper x) @ ([0x20, case_flags b x] @ replicate 9 0 @ entry_tail c n)"
    by simp
  note sn = short_name_entry [OF bx(3,4) this, of "case_flags b x"]
  have "\<forall>c\<in>set (latin1 nm). c < 256" by (auto simp: latin1_def)
  then have "lower (d_name ?d) = lower (latin1 nm)"
    using low sn(1,3) bx(5) by (simp add: lower_ok_def)
  with dir_slot_entry [OF e bx(3,4)] show ?thesis by (intro exI [of _ ?d]) simp
qed

lemma find_path_after:
  assumes snd: "sound v" and nm: "name_ok nm" and put: "putroot v nm data = (v', Inr cs)"
    and low: "lower_ok lower" and clear: "root_clear lower v (latin1 nm)" and "cs = c # cs'"
  shows "\<exists>d. find_path lower v' (latin1 nm) = Inr (Some d) \<and> d_cluster d = c \<and> d_size d = length data"
proof -
  from putroot_slots [OF snd name_ok_parts(1) [OF nm] put] obtain pre e post where
    sl: "slots_of v' (root_sectors v') = pre @ e # post"
      "pre = takeWhile used_slot (slots_of v (root_sectors v))"
    and e: "make_entry (name_parts nm ! 0) (name_parts nm ! 1) cs (length data) = Inr e"
    by blast
  from clear sl(2) obtain ys where ys: "scan_slots pre [] = (ys, Next [])"
    "\<forall>d\<in>set ys. lower (d_name d) \<noteq> lower (latin1 nm)"
    by (auto simp: root_clear_def split: prod.splits flow.splits)
  from new_entry [OF nm e assms(6) low] obtain d where d: "dir_slot e [] = (Some d, Next [])"
    "lower (d_name d) = lower (latin1 nm)" "d_cluster d = c" "d_size d = length data" by blast
  from find_entry_after [where lower = lower, OF sl(1) ys d(1,2)] d(3,4)
  show ?thesis by (simp add: find_path_def name_ok_path [OF nm])
qed

section \<open>Reading a chain back\<close>

lemma chain_img: "in_chain (v\<lparr>v_img := x\<rparr>) c = in_chain v c" "vol_get (v\<lparr>v_img := x\<rparr>) c = vol_get v c"
  by (simp_all add: in_chain_def vol_get_def)

lemma distinct_clusters_length:
  assumes "distinct cs" and "\<forall>c\<in>set cs. c \<in> set [2..<nat (n + 2)]" and "cs \<noteq> []"
  shows "int (length cs) \<le> n"
proof -
  have "set cs \<subseteq> {2..<nat (n + 2)}" using assms(2) by auto
  then have "card (set cs) \<le> nat (n + 2) - 2" using card_mono [of "{2..<nat (n + 2)}" "set cs"] by simp
  moreover have "2 < nat (n + 2)" using assms(2,3) by (cases cs) auto
  ultimately show ?thesis using distinct_card [OF assms(1)] by linarith
qed

lemma walk_last:
  "walk v c cs \<Longrightarrow> cs \<noteq> [] \<Longrightarrow> vol_get v (last cs) = Inr z \<Longrightarrow> \<not> in_chain v z"
  by (induction cs arbitrary: c) (auto split: sum.splits if_splits elim: walk.elims)

lemma linked_last: "linked g nm z cs \<Longrightarrow> cs \<noteq> [] \<Longrightarrow> g (last cs) = Inr (nm z)"
  by (induction cs rule: induct_list012) auto

lemma chain_after_putroot:
  assumes snd: "sound v" and put: "putroot v nm data = (v', Inr cs)" and fits: "name_fits nm"
  shows "v_fat12 v \<Longrightarrow> chain v' (hd cs) = Inr cs" and "\<not> v_fat12 v \<Longrightarrow> chain v' (hd cs) \<noteq> Inr cs"
proof -
  from putroot_effect [OF snd put fits] obtain w x where cs: "cs \<noteq> []" "distinct cs"
    "\<forall>c\<in>set cs. c \<in> set [2..<nat (v_count v + 2)]" and w: "link_chain vol_set 0xFFF v cs = Inr w"
    and v': "v' = w\<lparr>v_img := x\<rparr>" by blast
  from link_chain_geometry [OF w] obtain f where f: "w = v\<lparr>v_fat := f\<rparr>" by blast
  have inch: "in_chain v' = in_chain v" using v' f by (simp add: fun_eq_iff in_chain_def)
  have "linked (vol_get w) (vol_norm v) 0xFFF cs"
    using vol.link_chain_linked [OF cs(2) w] .
  then have lk: "linked (vol_get v') (vol_norm v) 0xFFF cs"
    using v' by (simp add: chain_img cong: linked_cong)
  have cl: "in_chain v' c \<and> vol_norm v c = c" if "c \<in> set cs" for c
  proof -
    from that cs(3) have "2 \<le> c" "c \<le> nat (v_count v) + 1" "2 \<le> nat (v_count v) + 1" by auto
    from sound_cluster(3,4) [OF snd this] show ?thesis by (simp add: inch)
  qed
  show "chain v' (hd cs) = Inr cs" if "v_fat12 v"
  proof -
    have "\<not> in_chain v' (vol_norm v 0xFFF)" using that by (simp add: inch in_chain_def vol_norm_def)
    from walk_linked [OF cs(1) lk _ this] cl have "walk v' (hd cs) cs" by blast
    moreover have "v_count v' = v_count v" using v' f by simp
    ultimately show ?thesis using distinct_clusters_length [OF cs(2,3,1)] by (simp add: chain_eq)
  qed
  show "chain v' (hd cs) \<noteq> Inr cs" if "\<not> v_fat12 v"
  proof
    assume "chain v' (hd cs) = Inr cs"
    then have "walk v' (hd cs) cs" by (simp add: chain_eq)
    from walk_last [OF this cs(1) linked_last [OF lk cs(1)]] that show False
      by (simp add: inch in_chain_def vol_norm_def)
  qed
qed

lemma read_after_putroot:
  assumes snd: "sound v" and put: "putroot v nm data = (v', Inr cs)" and fits: "name_fits nm"
  shows "read_clusters v' cs = Inr (concat (map (chunk data (v_spc v * SEC)) [0..<length cs]))"
proof -
  from putroot_effect [OF snd put fits] obtain w x where cs: "cs \<noteq> []" "distinct cs"
    "\<forall>c\<in>set cs. c \<in> set [2..<nat (v_count v + 2)]" and w: "link_chain vol_set 0xFFF v cs = Inr w"
    and v': "v' = w\<lparr>v_img := x\<rparr>" and st: "stored v data cs x" by blast
  from link_chain_geometry [OF w] obtain f where f: "w = v\<lparr>v_fat := f\<rparr>" by blast
  have "\<forall>j<length cs. file_get (v_img v') (cpos v' (cs ! j)) (v_spc v' * SEC) = chunk data (v_spc v * SEC) (0 + j)"
    using st v' f by (simp add: stored_def cpos_def)
  moreover have "\<forall>c\<in>set cs. 2 \<le> c" using cs(3) by auto
  ultimately show ?thesis using read_clusters_eq [of cs v' data "v_spc v * SEC" 0] by simp
qed

lemma readfile_after_putroot:
  assumes "sound v" and "v_fat12 v" and "name_ok nm" and "lower_ok lower" and "root_clear lower v (latin1 nm)"
    and "putroot v nm data = (v', Inr cs)" and "length data \<le> length cs * (v_spc v * SEC)"
  shows "readfile lower v' (latin1 nm) = Inr (Some data)"
proof -
  note fits = name_ok_parts(1) [OF assms(3)]
  from putroot_effect [OF assms(1,6) fits] have "cs \<noteq> []" by blast
  then obtain c cs' where cs: "cs = c # cs'" by (auto simp: neq_Nil_conv)
  from find_path_after [OF assms(1,3,6,4,5) cs] obtain d where
    "find_path lower v' (latin1 nm) = Inr (Some d)" "d_cluster d = c" "d_size d = length data" by blast
  moreover have "chain v' c = Inr cs"
    using chain_after_putroot(1) [OF assms(1,6) fits assms(2)] cs by simp
  ultimately show ?thesis
    using read_after_putroot [OF assms(1,6) fits] take_concat_chunks [OF assms(7)]
    by (simp add: readfile_def)
qed

section \<open>Opening a volume\<close>

lemma length_concat_reads:
  "\<forall>i<n. p i + SEC \<le> length img \<Longrightarrow>
     length (concat (map (\<lambda>i. file_get img (p i) SEC) [0..<n])) = n * SEC"
  by (induction n) (simp_all add: length_file_get)

lemma vol_init_sound:
  assumes "vol_init img lba = Inr v"
    and "lba * SEC + (v_data0 v + nat (v_count v) * v_spc v) * SEC \<le> length img"
    and "vol_has v (nat (v_count v) + 1)" and "v_count v < 65525" and "0 < v_nfats v"
  shows "sound v"
proof -
  from assms(1) obtain b where "v_img v = img" and base: "v_base v = lba * SEC" and "0 < v_spc v"
    and rs: "v_rootsec v = v_rsvd v + v_nfats v * v_spf v"
    and d0: "v_data0 v = v_rootsec v + (v_rootents v * 32 + SEC - 1) div SEC"
    and ft: "v_fat12 v \<longleftrightarrow> v_count v < 4085"
    and fat: "v_fat v = concat (map (\<lambda>i. file_get img (lba * SEC + (v_rsvd v + i) * SEC) SEC) [0..<v_spf v])"
    by (auto simp: vol_init_def Let_def bind_res_eq_Inr idx_eq_Inr unat_gt_0 split: if_splits)
  moreover have "lba * SEC + (v_rsvd v + i) * SEC + SEC \<le> length img" if "i < v_spf v" for i
  proof -
    have "1 * v_spf v \<le> v_nfats v * v_spf v" by (rule mult_le_mono1) (use assms(5) in simp)
    then have "i + 1 \<le> v_nfats v * v_spf v" using that by linarith
    then have "v_rsvd v + i + 1 \<le> v_data0 v + nat (v_count v) * v_spc v" using rs d0 by simp
    from mult_le_mono1 [OF this, of SEC] assms(2) show ?thesis by simp
  qed
  then have "length (v_fat v) = v_spf v * SEC"
    using length_concat_reads [of "v_spf v" "\<lambda>i. lba * SEC + (v_rsvd v + i) * SEC" img] by (simp add: fat)
  ultimately show ?thesis
    using assms(2-4) by (simp add: sound_def root_len_def SEC_def)
qed

section \<open>When \<open>putroot\<close> succeeds\<close>

lemma free_slot_total:
  assumes "length b = 512" and "i \<le> 16"
  shows "free_slot b [i..<16] =
    Inr (case List.find (\<lambda>k. \<not> used_slot (sector_slots b ! k)) [i..<16] of
           None \<Rightarrow> None | Some k \<Rightarrow> Some (32 * k))"
proof -
  have "free_slot b ks = Inr (case List.find (\<lambda>k. \<not> used_slot (sector_slots b ! k)) ks of
           None \<Rightarrow> None | Some k \<Rightarrow> Some (32 * k))" if "\<forall>k\<in>set ks. k < 16" for ks
    using that assms(1) by (induction ks) (auto simp: used_slot_def slot_first_byte)
  then show ?thesis by simp
qed

lemma put_entry_total:
  assumes "\<forall>k\<in>set ks. v_base v + (k + 1) * SEC \<le> length (v_img v)"
    and "\<exists>e\<in>set (slots_of v (map int ks)). \<not> used_slot e"
  shows "\<exists>v'. put_entry v (map int ks) (Inr x) free = (v', Inr free)"
  using assms
proof (induction ks)
  case (Cons s ks)
  let ?b = "sector v (int s)"
  have len: "length ?b = 512" using Cons.prems(1) length_sector [of v s] by (simp add: SEC_def)
  show ?case
  proof (cases "List.find (\<lambda>k. \<not> used_slot (sector_slots ?b ! k)) [0..<16]")
    case (Some k)
    then have "free_slot ?b [0..<16] = Inr (Some (32 * k))" using free_slot_total [OF len, of 0] by simp
    then show ?thesis by (simp add: wr_sector)
  next
    case None
    then have "free_slot ?b [0..<16] = Inr None" using free_slot_total [OF len, of 0] by simp
    moreover have "\<forall>e\<in>set (sector_slots ?b). used_slot e"
      using None by (auto simp: find_None_iff in_set_conv_nth)
    ultimately show ?thesis using Cons by (auto simp: slots_of_def)
  qed
qed (simp add: slots_of_def)

lemma make_entry_total:
  assumes "length b \<le> 8" and "length x \<le> 3" and "c < 0x10000" and "n < 0x100000000"
  shows "\<exists>e. make_entry b x (c # cs) n = Inr e"
  using assms by (simp add: make_entry_def Let_def ljust_def upper_def pack_HHHI_def upd_def)

lemma putroot_total:
  assumes snd: "sound v" and fits: "name_fits nm" and free: "free_list v \<noteq> []"
    and slot: "\<exists>e\<in>set (slots_of v (root_sectors v)). \<not> used_slot e"
    and n: "length data < 0x100000000"
  shows "\<exists>v'. putroot v nm data = (v', Inr (take (clusters_needed v data) (free_list v)))"
proof -
  let ?ks = "map (\<lambda>i. v_rootsec v + i) [0..<root_len v]"
  from putroot_stages [OF snd, of data nm] obtain cs w y where
    cs: "cs = take (clusters_needed v data) (free_list v)"
    and w: "link_chain vol_set 0xFFF v cs = Inr w" and y: "length y = length (v_img v)"
    and root: "\<And>q n. v_base v + v_rootsec v * SEC \<le> q \<Longrightarrow> q + n \<le> v_base v + v_data0 v * SEC \<Longrightarrow>
        file_get y q n = file_get (v_img v) q n"
    and pe: "putroot v nm data = put_entry (w\<lparr>v_img := y\<rparr>) (map int ?ks)
        (make_entry (name_parts nm ! 0) (name_parts nm ! 1) cs (length data)) cs"
    using root_sectors_nat by metis
  from link_chain_geometry [OF w] obtain f where f: "w = v\<lparr>v_fat := f\<rparr>" by blast
  have "clusters_needed v data \<noteq> 0" by (simp add: clusters_needed_def)
  with cs free have "cs \<noteq> []" by simp
  then obtain c cs' where ccs: "cs = c # cs'" by (auto simp: neq_Nil_conv)
  have "c \<in> set [2..<nat (v_count v + 2)]" using free_list_range(2) [of "clusters_needed v data" v] ccs by (simp flip: cs)
  then have "c < 0x10000" using snd by (auto simp: sound_def split: if_splits)
  with make_entry_total [of "name_parts nm ! 0" "name_parts nm ! 1" c "length data" cs'] fits n ccs
  obtain e where e: "make_entry (name_parts nm ! 0) (name_parts nm ! 1) cs (length data) = Inr e"
    by (auto simp: name_fits_def)
  have room: "v_base v + (k + 1) * SEC \<le> v_base v + v_data0 v * SEC" if "k \<in> set ?ks" for k
  proof -
    have "k + 1 \<le> v_data0 v" using that snd by (auto simp: sound_def)
    from mult_le_mono1 [OF this, of SEC] show ?thesis by simp
  qed
  have "sector (w\<lparr>v_img := y\<rparr>) (int k) = sector v (int k)" if k: "k \<in> set ?ks" for k
    using root [of "v_base v + k * SEC" SEC] room [OF k] k f by (auto simp: sector_eq)
  then have "slots_of (w\<lparr>v_img := y\<rparr>) (map int ?ks) = slots_of v (root_sectors v)"
    unfolding root_sectors_nat by (intro slots_of_cong ballI)
  moreover have "\<forall>k\<in>set ?ks. v_base (w\<lparr>v_img := y\<rparr>) + (k + 1) * SEC \<le> length (v_img (w\<lparr>v_img := y\<rparr>))"
    using room data0_inside [OF snd] y f le_trans by fastforce
  ultimately show ?thesis using put_entry_total [of ?ks "w\<lparr>v_img := y\<rparr>" e cs] slot pe e cs by simp
qed

section \<open>Properties of the volume tool\<close>

lemma last_link:
  assumes snd: "sound v" and put: "putroot v nm data = (v', Inr cs)" and fits: "name_fits nm"
  shows "vol_get v' (last cs) = Inr (vol_norm v 0xFFF)" and "v_fat12 v' = v_fat12 v"
proof -
  from putroot_effect [OF snd put fits] obtain w x where cs: "cs \<noteq> []" "distinct cs"
    and w: "link_chain vol_set 0xFFF v cs = Inr w" and v': "v' = w\<lparr>v_img := x\<rparr>" by blast
  from linked_last [OF vol.link_chain_linked [OF cs(2) w] cs(1)] v'
  show "vol_get v' (last cs) = Inr (vol_norm v 0xFFF)" by (simp add: chain_img)
  from link_chain_geometry [OF w] v' show "v_fat12 v' = v_fat12 v" by auto
qed

lemma needed_enough:
  "v_spc v * SEC \<noteq> 0 \<Longrightarrow> length data \<le> clusters_needed v data * (v_spc v * SEC)"
proof -
  let ?c = "v_spc v * SEC" and ?m = "length data + v_spc v * SEC - 1"
  assume c: "?c \<noteq> 0"
  have "?m mod ?c < ?c" using c by simp
  then have "length data \<le> ?m div ?c * ?c" using div_mult_mod_eq [of ?m ?c] c by linarith
  also have "\<dots> \<le> clusters_needed v data * ?c"
    unfolding clusters_needed_def by (intro mult_le_mono1) simp
  finally show ?thesis .
qed

definition demo_vol :: "bool \<Rightarrow> vol" where
  "demo_vol is12 = \<lparr>v_img = replicate 1536 0, v_base = 0, v_spc = 1, v_rsvd = 0, v_nfats = 1,
     v_rootents = 16, v_spf = 1, v_rootsec = 1, v_data0 = 2, v_count = 1, v_fat12 = is12,
     v_fat = replicate 512 0\<rparr>"

lemma demo_fat12: "v_fat12 (demo_vol is12) = is12"
  by (simp add: demo_vol_def)

definition demo_name :: "byte list" where
  "demo_name = [97, 46, 116]"

lemma demo_sound: "sound (demo_vol is12)"
  by (simp add: sound_def demo_vol_def root_len_def SEC_def vol_has_def has12_def has16_def)

lemma demo_free: "free_list (demo_vol is12) = [2]"
proof -
  have "[2..<3] = [2::nat]" by (simp add: upt_rec)
  then show ?thesis
    by (simp add: free_list_def demo_vol_def vol_get_def get12_eq has12_def read_even_def get16_def unpack_H_def)
qed

lemma sector_slots_zero: "sector_slots (replicate 512 0) = replicate 16 (replicate 32 0)"
  by (rule nth_equalityI) (simp_all add: sector_slots_nth)

lemma demo_slots: "slots_of (demo_vol is12) (root_sectors (demo_vol is12)) = replicate 16 (replicate 32 0)"
proof -
  have "root_sectors (demo_vol is12) = [1]" by (simp add: root_sectors_def demo_vol_def)
  moreover have "sector (demo_vol is12) 1 = replicate 512 0"
    by (simp add: sector_def file_get_def demo_vol_def SEC_def)
  ultimately show ?thesis by (simp add: slots_of_def sector_slots_zero)
qed

lemma demo_slot_free: "\<exists>e\<in>set (slots_of (demo_vol is12) (root_sectors (demo_vol is12))). \<not> used_slot e"
  by (simp add: demo_slots used_slot_def)

lemma demo_clear: "root_clear lower (demo_vol is12) nm"
  by (simp add: root_clear_def demo_slots used_slot_def eval_nat_numeral)

lemma demo_name_ok: "name_ok demo_name"
  by (simp add: name_ok_def demo_name_def part_ok_def)

lemma lower_latin1_ok: "lower_ok lower_latin1"
  by (simp add: lower_ok_def)

lemma demo_needed: "length data \<le> 512 \<Longrightarrow> clusters_needed (demo_vol is12) data = 1"
  by (auto simp: clusters_needed_def demo_vol_def SEC_def div_le_mono max_def)

text \<open>
  C1. On a sound FAT12 volume with room for the data and a free root slot, writing a file
  under a plain 8.3 name succeeds and reading that name back gives exactly the data; the
  volume stays sound.
\<close>

theorem putroot_readfile_roundtrip:
  assumes "sound v" and "v_fat12 v" and "name_ok nm" and "lower_ok lower"
    and "root_clear lower v (latin1 nm)" and "\<exists>e\<in>set (slots_of v (root_sectors v)). \<not> used_slot e"
    and "clusters_needed v data \<le> length (free_list v)" and "length data < 0x100000000"
  shows "\<exists>v' cs. putroot v nm data = (v', Inr cs) \<and> sound v'
           \<and> readfile lower v' (latin1 nm) = Inr (Some data)"
proof -
  note fits = name_ok_parts(1) [OF assms(3)]
  let ?cs = "take (clusters_needed v data) (free_list v)"
  have need: "1 \<le> clusters_needed v data" by (simp add: clusters_needed_def)
  with assms(7) have "free_list v \<noteq> []" by auto
  from putroot_total [OF assms(1) fits this assms(6,8)] obtain v' where
    put: "putroot v nm data = (v', Inr ?cs)" by blast
  have "length data \<le> clusters_needed v data * (v_spc v * SEC)"
    using assms(1) by (intro needed_enough) (simp add: sound_def SEC_def)
  with assms(7) have "length data \<le> length ?cs * (v_spc v * SEC)" by simp
  from readfile_after_putroot [OF assms(1-5) put this] putroot_effect [OF assms(1) put fits] put
  show ?thesis by blast
qed

theorem putroot_readfile_roundtrip_witness:
  "\<exists>v' cs. putroot (demo_vol True) demo_name [1, 2, 3] = (v', Inr cs) \<and> sound v'
     \<and> readfile lower_latin1 v' (latin1 demo_name) = Inr (Some [1, 2, 3])"
  by (rule putroot_readfile_roundtrip [OF demo_sound _ demo_name_ok lower_latin1_ok demo_clear demo_slot_free])
    (simp_all add: demo_needed demo_free demo_fat12)

text \<open>
  C2. On a FAT16 volume the chain \<open>putroot\<close> writes is never terminated: its last entry
  holds 0xFFF, which FAT16 reads as one more cluster number and not as an end of chain,
  so following the chain never returns the clusters just written.
\<close>

theorem putroot_fat16_unterminated:
  assumes "sound v" and "\<not> v_fat12 v" and "name_fits nm" and "putroot v nm data = (v', Inr cs)"
  shows "vol_get v' (last cs) = Inr 0xFFF \<and> in_chain v' 0xFFF \<and> \<not> eoc v' 0xFFF
     \<and> chain v' (hd cs) \<noteq> Inr cs"
  using last_link [OF assms(1,4,3)] chain_after_putroot(2) [OF assms(1,4,3,2)] assms(2)
  by (simp add: vol_norm_def in_chain_def eoc_def)

theorem putroot_fat16_unterminated_witness:
  "\<exists>v'. putroot (demo_vol False) demo_name [1, 2, 3] = (v', Inr [2])
     \<and> vol_get v' 2 = Inr 0xFFF \<and> in_chain v' 0xFFF \<and> \<not> eoc v' 0xFFF \<and> chain v' 2 \<noteq> Inr [2]"
proof -
  have f16: "\<not> v_fat12 (demo_vol False)" by (simp add: demo_fat12)
  from putroot_total [OF demo_sound name_ok_parts(1) [OF demo_name_ok] _ demo_slot_free, of False "[1, 2, 3]"]
  obtain v' where put: "putroot (demo_vol False) demo_name [1, 2, 3] = (v', Inr [2])"
    by (auto simp: demo_free demo_needed)
  from putroot_fat16_unterminated [OF demo_sound f16 name_ok_parts(1) [OF demo_name_ok] put] put
  show ?thesis by auto
qed

section \<open>Opening an image\<close>

text \<open>
  The boot record as the FAT specification reads it: little-endian fields, the start of the
  root directory and of the data area, the total sector count from the 16-bit field or,
  where that is zero, from the 32-bit one. A record describes \<open>n\<close> clusters when the data area
  holds \<open>n\<close> whole ones and no more, and its FAT has room for them when the 12 or 16 bits of
  the entries 0 to \<open>n + 1\<close> fit its sectors of 4096 bits.
\<close>

definition le16 :: "byte list \<Rightarrow> nat \<Rightarrow> nat" where
  "le16 b k = unat (b ! k) + 256 * unat (b ! (k + 1))"

definition total_sectors :: "byte list \<Rightarrow> nat" where
  "total_sectors b = (if le16 b 19 = 0 then le16 b 32 + 65536 * le16 b 34 else le16 b 19)"

definition root_start :: "byte list \<Rightarrow> nat" where
  "root_start b = le16 b 14 + unat (b ! 16) * le16 b 22"

definition data_start :: "byte list \<Rightarrow> nat" where
  "data_start b = root_start b + (le16 b 17 * 32 + 511) div 512"

definition describes :: "byte list \<Rightarrow> nat \<Rightarrow> bool" where
  "describes b n \<longleftrightarrow> 0 < unat (b ! 16)
     \<and> data_start b + n * unat (b ! 13) \<le> total_sectors b
     \<and> total_sectors b < data_start b + (n + 1) * unat (b ! 13)"

definition fat_room :: "byte list \<Rightarrow> nat \<Rightarrow> bool" where
  "fat_room b n \<longleftrightarrow> (n + 2) * (if n < 4085 then 12 else 16) \<le> le16 b 22 * 4096"

lemma or_push_add: "x < 2 ^ k \<Longrightarrow> x OR push_bit k y = x + 2 ^ k * (y::nat)"
proof -
  assume x: "x < 2 ^ k"
  have "bit x i \<Longrightarrow> i < k" for i using x by (metis bit_take_bit_iff take_bit_nat_eq_self)
  then have "x AND push_bit k y = 0" by (intro bit_eqI) (fastforce simp: bit_simps)
  then have "x + push_bit k y = x OR push_bit k y" by (rule disjunctive_add_eq_or)
  then show ?thesis by (simp add: push_bit_eq_mult mult.commute)
qed

lemma unpack_H_le16: "p + 2 \<le> length b \<Longrightarrow> unpack_H b p = Inr (le16 b p)"
  by (simp add: unpack_H_def le16_def or_push_add)

lemma unpack_I_le16: "p + 4 \<le> length b \<Longrightarrow> unpack_I b p = Inr (le16 b p + 65536 * le16 b (p + 2))"
proof -
  have u: "unat (b ! q) \<le> 255" for q using unat_byte_less [of "b ! q"] by linarith
  have "unat (b ! p) + 256 * unat (b ! (p + 1)) < 2 ^ 16"
    using u [of p] u [of "p + 1"] by simp
  moreover have "unat (b ! p) + 256 * unat (b ! (p + 1)) + 65536 * unat (b ! (p + 2)) < 2 ^ 24"
    using u [of p] u [of "p + 1"] u [of "p + 2"] by simp
  ultimately show "p + 4 \<le> length b \<Longrightarrow> ?thesis"
    using or_push_add [of "unat (b ! p)" 8 "unat (b ! (p + 1))"]
    by (simp add: unpack_I_def le16_def or_push_add numeral_3_eq_3 flip: or.assoc)
qed

lemma concat_slices: "concat (map (\<lambda>i. file_get img (p + i * SEC) SEC) [0..<n]) = file_get img p (n * SEC)"
  by (induction n) (simp_all add: file_get_def take_add add.commute [of SEC] add.commute [of p])

lemma vol_init_reads:
  assumes "lba * SEC + SEC \<le> length img" and "b = file_get img (lba * SEC) SEC" and "0 < unat (b ! 13)"
  shows "vol_init img lba = Inr \<lparr>v_img = img, v_base = lba * SEC, v_spc = unat (b ! 13),
     v_rsvd = le16 b 14, v_nfats = unat (b ! 16), v_rootents = le16 b 17, v_spf = le16 b 22,
     v_rootsec = root_start b, v_data0 = data_start b,
     v_count = (int (total_sectors b) - int (data_start b)) div int (unat (b ! 13)),
     v_fat12 = ((int (total_sectors b) - int (data_start b)) div int (unat (b ! 13)) < 4085),
     v_fat = file_get img ((lba + le16 b 14) * SEC) (le16 b 22 * SEC)\<rparr>"
proof -
  have len: "length b = 512" using assms(1,2) by (simp add: length_file_get SEC_def)
  have fat: "concat (map (\<lambda>i. file_get img (lba * SEC + (r + i) * SEC) SEC) [0..<n])
      = file_get img ((lba + r) * SEC) (n * SEC)" for r n
    using concat_slices [of img "(lba + r) * SEC" n] by (simp add: algebra_simps)
  have sec: "sector u 0 = file_get (v_img u) (v_base u) SEC" for u by (simp add: sector_def)
  have data: "data_start b = root_start b + (le16 b 17 * 32 + SEC - 1) div SEC"
    by (simp add: data_start_def SEC_def)
  have "b ! 13 \<noteq> 0" using assms(3) by auto
  then show ?thesis
    by (simp add: vol_init_def Let_def sec assms(2) [symmetric] len unpack_H_le16
        unpack_I_le16 total_sectors_def fat data root_start_def)
qed

text \<open>
  C3. A boot record that describes \<open>n\<close> clusters and has room for them in its FAT opens,
  wherever the partition starts in an image that holds its sectors: the volume has exactly
  \<open>n\<close> clusters, the FAT type of that count, the data area and the root directory where the
  record puts them and the first copy of the FAT in its cache, and it is sound.
\<close>

theorem vol_init_establishes_sound:
  assumes "b = file_get img (lba * SEC) SEC" and "(lba + total_sectors b) * SEC \<le> length img"
    and "describes b n" and "fat_room b n" and "n < 65525"
  shows "\<exists>v. vol_init img lba = Inr v \<and> sound v \<and> v_count v = int n \<and> (v_fat12 v \<longleftrightarrow> n < 4085)
     \<and> v_rootsec v = root_start b \<and> v_data0 v = data_start b
     \<and> v_fat v = file_get img ((lba + le16 b 14) * SEC) (le16 b 22 * SEC)"
proof -
  define spc where "spc = unat (b ! 13)"
  have d: "0 < unat (b ! 16)" "data_start b + n * spc \<le> total_sectors b"
    "total_sectors b < data_start b + (n + 1) * spc"
    using assms(3) by (simp_all add: describes_def spc_def)
  then have spc: "0 < spc" by (cases spc) auto
  have spf: "0 < le16 b 22" using assms(4) by (auto simp: fat_room_def intro!: gr0I split: if_splits)
  have "0 < unat (b ! 16) * le16 b 22" using d(1) spf by simp
  then have "0 < total_sectors b" using d(2) unfolding data_start_def root_start_def by linarith
  then have "lba + 1 \<le> lba + total_sectors b" by simp
  from order_trans [OF mult_le_mono1 [OF this] assms(2)]
  have img: "lba * SEC + SEC \<le> length img" by simp
  have "(int (total_sectors b) - int (data_start b)) div int spc = int n"
  proof (rule int_div_pos_eq)
    show "int (total_sectors b) - int (data_start b)
        = int spc * int n + int (total_sectors b - (data_start b + n * spc))"
      using d(2) by (simp add: of_nat_diff algebra_simps)
    have "total_sectors b - (data_start b + n * spc) < spc" using d(2,3) by simp
    then show "int (total_sectors b - (data_start b + n * spc)) < int spc" by (simp only: of_nat_less_iff)
  qed simp
  then obtain v where v: "vol_init img lba = Inr v" "v_count v = int n" "v_fat12 v \<longleftrightarrow> n < 4085"
      "v_rootsec v = root_start b" "v_data0 v = data_start b" "v_spc v = spc" "v_nfats v = unat (b ! 16)"
      "v_fat v = file_get img ((lba + le16 b 14) * SEC) (le16 b 22 * SEC)"
    using vol_init_reads [OF img assms(1)] spc by (simp add: spc_def)
  have fits: "lba * SEC + (data_start b + n * spc) * SEC \<le> length img"
    using mult_le_mono1 [OF d(2), of SEC] assms(2) by (simp add: algebra_simps)
  have "(lba + le16 b 14) * SEC + le16 b 22 * SEC \<le> length img"
  proof -
    have "le16 b 22 \<le> unat (b ! 16) * le16 b 22" using d(1) by (cases "unat (b ! 16)") simp_all
    with d(2) have "le16 b 14 + le16 b 22 \<le> total_sectors b"
      unfolding data_start_def root_start_def by linarith
    then have "lba + le16 b 14 + le16 b 22 \<le> lba + total_sectors b" by simp
    from mult_le_mono1 [OF this, of SEC] assms(2) show ?thesis by (simp add: algebra_simps)
  qed
  then have "vol_has v (n + 1)"
    using assms(4) v(3,8)
    by (simp add: vol_has_def has12_def has16_def fat_room_def length_file_get SEC_def split: if_splits)
  then have "sound v" using vol_init_sound [OF v(1)] v d(1) fits assms(5) by simp
  with v show ?thesis by simp
qed

definition demo_boot :: "byte list" where
  "demo_boot = replicate 13 0 @ [1, 1, 0, 1, 16, 0, 4, 0, 0, 1, 0] @ replicate 488 0"

definition demo_image :: "byte list" where
  "demo_image = demo_boot @ replicate 1536 0"

lemma demo_image_nth:
  "demo_image ! 13 = 1" "demo_image ! 14 = 1" "demo_image ! 15 = 0" "demo_image ! 16 = 1"
  "demo_image ! 17 = 16" "demo_image ! 18 = 0" "demo_image ! 19 = 4" "demo_image ! 20 = 0"
  "demo_image ! 22 = 1" "demo_image ! 23 = 0" "length demo_image = 2048"
  by (simp_all add: demo_image_def demo_boot_def nth_append)

lemma demo_init:
  "vol_init demo_image 0 = Inr \<lparr>v_img = demo_image, v_base = 0, v_spc = 1, v_rsvd = 1, v_nfats = 1,
     v_rootents = 16, v_spf = 1, v_rootsec = 2, v_data0 = 3, v_count = 1, v_fat12 = True,
     v_fat = file_get demo_image 512 512\<rparr>"
  by (simp add: vol_init_def Let_def rd_def file_read_def file_get_def SEC_def idx_def unpack_H_def
      demo_image_nth)

theorem vol_init_establishes_sound_witness:
  "\<exists>v. vol_init demo_image 0 = Inr v \<and> sound v \<and> v_fat12 v \<and> v_count v = 1 \<and> v_data0 v = 3"
proof -
  have "le16 (file_get demo_image 0 SEC) k = le16 demo_image k" if "k < 500" for k
    using that by (simp add: le16_def file_get_def SEC_def demo_image_nth)
  moreover have "file_get demo_image 0 SEC ! k = demo_image ! k" if "k < 500" for k
    using that by (simp add: file_get_def SEC_def demo_image_nth)
  ultimately have "total_sectors (file_get demo_image 0 SEC) = 4"
    "data_start (file_get demo_image 0 SEC) = 3"
    "describes (file_get demo_image 0 SEC) 1" "fat_room (file_get demo_image 0 SEC) 1"
    by (simp_all add: describes_def fat_room_def total_sectors_def data_start_def root_start_def
        le16_def demo_image_nth)
  with vol_init_establishes_sound [of "file_get demo_image 0 SEC" demo_image 0 1]
  show ?thesis by (auto simp: SEC_def demo_image_nth)
qed

end
