(* ===== verification/Fat_Keep.thy ===== *)
theory Fat_Keep
  imports Fat_Readback
begin

text \<open>
  What \<open>Vol.putroot\<close> does to the files that are already there, and what it does when the
  volume has too little room. The clusters it takes are free ones, so the chain, the data
  and the directory entry of every other file survive; without enough free clusters it still
  returns normally, and the file it leaves is a shortened one under its full size.
\<close>

section \<open>The other files\<close>

lemma dir_slot_free:
  "e \<noteq> [] \<Longrightarrow> e ! 0 = 0 \<Longrightarrow> dir_slot e lfn = (None, Return)"
  "e \<noteq> [] \<Longrightarrow> e ! 0 = 0xE5 \<Longrightarrow> dir_slot e lfn = (None, Next [])"
  by (simp_all add: dir_slot_def idx_def)

text \<open>An entry found before a slot is replaced is found after, unless the new one has its name.\<close>

lemma find_replaced:
  assumes pre: "scan_slots pre [] = (ys, Next [])"
    and old: "old \<noteq> []" "\<not> used_slot old"
    and new: "dir_slot e [] = (Some d, Next [])" "\<not> P d"
    and "List.find P (fst (scan_slots (pre @ old # post) [])) = Some r"
  shows "List.find P (fst (scan_slots (pre @ e # post) [])) = Some r"
proof -
  have app: "List.find P (as @ bs) = (case List.find P as of None \<Rightarrow> List.find P bs | Some x \<Rightarrow> Some x)" for as bs
    by (induction as) auto
  from old(2) consider "old ! 0 = 0" | "old ! 0 = 0xE5" by (auto simp: used_slot_def)
  then show ?thesis
  proof cases
    case 1
    with assms(6) have "List.find P ys = Some r"
      using dir_slot_free(1) [OF old(1)] by (simp add: scan_slots_append pre)
    then show ?thesis using new
      by (simp add: scan_slots_append pre app split: prod.splits)
  next
    case 2
    with assms(6) have "List.find P (ys @ fst (scan_slots post [])) = Some r"
      using dir_slot_free(2) [OF old(1)] by (simp add: scan_slots_append pre split: prod.splits)
    then show ?thesis using new
      by (auto simp: scan_slots_append pre app split: prod.splits option.splits)
  qed
qed

lemma find_entry_Some:
  "find_entry lower v 0 q = Inr (Some d) \<longleftrightarrow>
     List.find (\<lambda>d. lower (d_name d) = lower q) (fst (scan_slots (slots_of v (root_sectors v)) [])) = Some d"
proof -
  have "\<forall>s\<in>set (root_sectors v). 0 \<le> s" by (auto simp: root_sectors_def)
  from scan_sectors_eq [OF this, of v "[]"] show ?thesis
    by (simp add: find_entry_def entries_def split: prod.splits flow.splits option.splits)
qed

lemma root_slots_nonempty:
  "sound v \<Longrightarrow> e \<in> set (slots_of v (root_sectors v)) \<Longrightarrow> e \<noteq> []"
proof -
  assume snd: "sound v" and "e \<in> set (slots_of v (root_sectors v))"
  then obtain s where s: "s \<in> set (root_sectors v)" "e \<in> set (sector_slots (sector v s))"
    by (auto simp: slots_of_def)
  from root_sectors_mem [OF s(1)] obtain k where k: "s = int k" "k < v_rootsec v + root_len v" by blast
  with snd have "k + 1 \<le> v_data0 v" by (simp add: sound_def)
  from mult_le_mono1 [OF this, of SEC] have "v_base v + (k + 1) * SEC \<le> length (v_img v)"
    using data0_inside [OF snd] by simp
  from length_sector [OF this] have "length (sector v s) = 512" by (simp add: k(1) SEC_def)
  then have "\<forall>e\<in>set (sector_slots (sector v s)). length e = 32"
    by (auto simp: in_set_conv_nth sector_slots_nth)
  with s(2) show "e \<noteq> []" by auto
qed

lemma takeWhile_next: "takeWhile P (xs @ y # ys) = xs \<Longrightarrow> \<not> P y"
  by (induction xs) (auto split: if_splits)

lemma walk_kept:
  assumes "walk v c xs" and "in_chain v' = in_chain v" and "\<forall>x\<in>set xs. vol_get v' x = vol_get v x"
  shows "walk v' c xs"
  using assms(1,3) by (induction xs arbitrary: c) (auto simp: assms(2) split: sum.splits)

text \<open>A call keeps the geometry, and of every cluster that is not free its entry and its data.\<close>

lemma putroot_frame:
  assumes snd: "sound v" and put: "putroot v nm data = (v', Inr cs)" and fits: "name_fits nm"
  shows "in_chain v' = in_chain v" and "v_count v' = v_count v"
    and "2 \<le> c \<Longrightarrow> vol_get v c \<noteq> Inr 0 \<Longrightarrow> vol_get v' c = vol_get v c
      \<and> rd v' (clus_sec v' c) (v_spc v') = rd v (clus_sec v c) (v_spc v)"
proof -
  from putroot_effect [OF snd put fits] obtain w x where w: "link_chain vol_set 0xFFF v cs = Inr w"
    and v': "v' = w\<lparr>v_img := x\<rparr>" and st: "stored v data cs x"
    and cs: "cs = take (clusters_needed v data) (free_list v)" by blast
  from link_chain_geometry [OF w] obtain f where f: "w = v\<lparr>v_fat := f\<rparr>" by blast
  show "in_chain v' = in_chain v" and "v_count v' = v_count v"
    using v' f by (simp_all add: fun_eq_iff in_chain_def)
  assume c: "2 \<le> c" "vol_get v c \<noteq> Inr 0"
  then have "c \<notin> set cs" by (auto simp: cs free_list_def dest: in_set_takeD)
  moreover from this have "vol_get v' c = vol_get v c"
    using vol.link_chain_frame [OF w] v' by (simp add: chain_img)
  moreover have "cpos v' c = cpos v c" "v_spc v' = v_spc v" using v' f by (simp_all add: cpos_def)
  ultimately show "vol_get v' c = vol_get v c
      \<and> rd v' (clus_sec v' c) (v_spc v') = rd v (clus_sec v c) (v_spc v)"
    using st c(1) v' by (simp add: rd_cluster stored_def)
qed

lemma read_clusters_kept:
  "\<forall>c\<in>set xs. rd v' (clus_sec v' c) (v_spc v') = rd v (clus_sec v c) (v_spc v) \<Longrightarrow>
     read_clusters v' xs = read_clusters v xs"
  by (induction xs) simp_all

lemma plain_path: "47 \<notin> set q \<Longrightarrow> q \<noteq> [] \<Longrightarrow> find_path lower v q = find_entry lower v 0 q"
  using split_path_plain [of q "[]"]
  by (cases "find_entry lower v 0 q") (simp_all add: find_path_def split: option.splits)

lemma find_entry_kept:
  assumes snd: "sound v" and nm: "name_ok nm" and low: "lower_ok lower"
    and clear: "root_clear lower v (latin1 nm)" and put: "putroot v nm data = (v', Inr cs)"
    and other: "lower q \<noteq> lower (latin1 nm)" and found: "find_entry lower v 0 q = Inr (Some d)"
  shows "find_entry lower v' 0 q = Inr (Some d)"
proof -
  note fits = name_ok_parts(1) [OF nm]
  from putroot_slots [OF snd fits put] obtain pre old e post where
    sl: "slots_of v (root_sectors v) = pre @ old # post" "slots_of v' (root_sectors v') = pre @ e # post"
      "pre = takeWhile used_slot (slots_of v (root_sectors v))"
    and e: "make_entry (name_parts nm ! 0) (name_parts nm ! 1) cs (length data) = Inr e" by blast
  have "\<not> used_slot old"
    using sl(1,3) takeWhile_next [of used_slot pre old post] by simp
  moreover have "old \<noteq> []" using root_slots_nonempty [OF snd] sl(1) by simp
  moreover from clear sl(3) obtain ys where "scan_slots pre [] = (ys, Next [])"
    by (auto simp: root_clear_def split: prod.splits flow.splits)
  moreover have "cs \<noteq> []" using putroot_effect [OF snd put fits] by blast
  then obtain c cs' where "cs = c # cs'" by (cases cs) auto
  from new_entry [OF nm e this low] other obtain dn where "dir_slot e [] = (Some dn, Next [])"
    "lower (d_name dn) \<noteq> lower q" by auto
  ultimately show ?thesis
    using find_replaced [of pre _ old e dn "\<lambda>d. lower (d_name d) = lower q" post d] found
    by (simp add: find_entry_Some sl(1,2))
qed

text \<open>
  C37. Writing a file leaves every other root file alone: a name that was found before the
  call, with a chain that holds no free cluster, is found after it and reads the same.
\<close>

theorem putroot_keeps_other_files:
  assumes "sound v" and "name_ok nm" and "lower_ok lower" and "root_clear lower v (latin1 nm)"
    and "putroot v nm data = (v', Inr cs)"
    and "q \<noteq> []" and "47 \<notin> set q" and "lower q \<noteq> lower (latin1 nm)"
    and "find_path lower v q = Inr (Some d)" and "chain v (d_cluster d) = Inr xs"
    and "\<forall>x\<in>set xs. vol_get v x \<noteq> Inr 0"
  shows "find_path lower v' q = Inr (Some d) \<and> chain v' (d_cluster d) = Inr xs
    \<and> readfile lower v' q = readfile lower v q"
proof -
  note frame = putroot_frame [OF assms(1,5) name_ok_parts(1) [OF assms(2)]]
  have ent: "find_path lower v' q = Inr (Some d)"
    using find_entry_kept [OF assms(1-5,8)] assms(9) by (simp add: plain_path assms(6,7))
  from assms(10) have w: "walk v (d_cluster d) xs" and len: "xs = [] \<or> int (length xs) \<le> v_count v + 2"
    by (simp_all add: chain_eq)
  have two: "\<forall>x\<in>set xs. 2 \<le> x" using walk_in_chain [OF w] by (auto simp: in_chain_def)
  with frame(3) assms(11) have "walk v' (d_cluster d) xs" by (intro walk_kept [OF w frame(1)]) blast
  with len have "chain v' (d_cluster d) = Inr xs" by (simp add: chain_eq frame(2))
  moreover have "read_clusters v' xs = read_clusters v xs"
    using frame(3) two assms(11) by (intro read_clusters_kept) blast
  ultimately show ?thesis using ent assms(9,10) by (simp add: readfile_def)
qed

section \<open>A volume with too little room\<close>

lemma take_concat_short:
  "n * csz \<le> length data \<Longrightarrow> concat (map (chunk data csz) [0..<n]) = take (n * csz) data"
proof -
  assume n: "n * csz \<le> length data"
  have "chunk data csz i = take csz (drop (i * csz) data)" if "i < n" for i
  proof -
    have "i * csz + csz \<le> n * csz" using mult_le_mono1 [of "Suc i" n csz] that by simp
    then show ?thesis using n by (simp add: chunk_def Let_def)
  qed
  then have "concat (map (chunk data csz) [0..<n]) = concat (map (\<lambda>i. take csz (drop (i * csz) data)) [0..<n])"
    by (intro arg_cong [of _ _ concat] map_cong) auto
  also have "\<dots> = take (n * csz) data"
    by (induction n) (simp_all add: take_add add.commute [of csz])
  finally show ?thesis .
qed

lemma needed_least: "k < clusters_needed v data \<Longrightarrow> 1 \<le> k \<Longrightarrow> 0 < v_spc v \<Longrightarrow> k * (v_spc v * SEC) < length data"
proof -
  let ?c = "v_spc v * SEC"
  assume "k < clusters_needed v data" "1 \<le> k" "0 < v_spc v"
  then have "k + 1 \<le> (length data + ?c - 1) div ?c" "0 < ?c" by (auto simp: clusters_needed_def SEC_def)
  then have "(k + 1) * ?c \<le> length data + ?c - 1" by (simp add: less_eq_div_iff_mult_less_eq)
  then have "k * ?c + ?c \<le> length data + ?c - 1" by (simp add: add_mult_distrib)
  with \<open>0 < ?c\<close> show ?thesis by linarith
qed

text \<open>A base name of more than eight characters makes the entry longer than a slot.\<close>

lemma long_name_grows_entry:
  assumes "make_entry base ext free n = Inr e" and "8 \<le> length base" and "length ext \<le> 3"
  shows "length e = length base + 24"
  using assms
  by (auto simp: make_entry_def Let_def upd_def ljust_def upper_def dest!: length_pack_HHHI
      split: if_splits elim!: bind_res_InrE)

text \<open>
  C38. Too few free clusters are no error: \<open>putroot\<close> links the ones there are and
  returns them, the directory entry still records the full size, and reading the name back
  gives a proper prefix of the data.
\<close>

theorem putroot_shortens_silently:
  assumes "sound v" and "v_fat12 v" and "name_ok nm" and "lower_ok lower"
    and "root_clear lower v (latin1 nm)" and "\<exists>e\<in>set (slots_of v (root_sectors v)). \<not> used_slot e"
    and "free_list v \<noteq> []" and "length (free_list v) < clusters_needed v data"
    and "length data < 0x100000000"
  shows "\<exists>v' d. putroot v nm data = (v', Inr (free_list v))
    \<and> find_path lower v' (latin1 nm) = Inr (Some d) \<and> d_size d = length data
    \<and> readfile lower v' (latin1 nm) = Inr (Some (take (length (free_list v) * (v_spc v * SEC)) data))
    \<and> length (free_list v) * (v_spc v * SEC) < length data"
proof -
  note fits = name_ok_parts(1) [OF assms(3)]
  let ?n = "length (free_list v) * (v_spc v * SEC)"
  from putroot_total [OF assms(1) fits assms(7,6,9)] assms(8) obtain v' where
    put: "putroot v nm data = (v', Inr (free_list v))" by auto
  from assms(7) obtain c cs where cs: "free_list v = c # cs" by (cases "free_list v") auto
  from find_path_after [OF assms(1,3) put assms(4,5) cs] obtain d where
    d: "find_path lower v' (latin1 nm) = Inr (Some d)" "d_cluster d = c" "d_size d = length data" by blast
  have short: "?n < length data"
    using needed_least [OF assms(8)] assms(1,7) by (simp add: sound_def Suc_le_eq)
  have "chain v' c = Inr (free_list v)"
    using chain_after_putroot(1) [OF assms(1) put fits assms(2)] cs by simp
  moreover have "read_clusters v' (free_list v) = Inr (take ?n data)"
    using read_after_putroot [OF assms(1) put fits] take_concat_short [of "length (free_list v)"] short by simp
  ultimately have "readfile lower v' (latin1 nm) = Inr (Some (take ?n data))"
    using d short by (simp add: readfile_def)
  with put d short show ?thesis by blast
qed

text \<open>One free cluster of 512 bytes, a file of 600.\<close>

theorem putroot_shortens_silently_witness:
  "\<exists>v' d. putroot (demo_vol True) demo_name (replicate 600 7) = (v', Inr [2])
    \<and> find_path lower_latin1 v' (latin1 demo_name) = Inr (Some d) \<and> d_size d = 600
    \<and> readfile lower_latin1 v' (latin1 demo_name) = Inr (Some (replicate 512 7))"
proof -
  have "clusters_needed (demo_vol True) (replicate 600 7) = 2"
    by (simp add: clusters_needed_def demo_vol_def SEC_def)
  then have "\<exists>v' d. putroot (demo_vol True) demo_name (replicate 600 7) = (v', Inr (free_list (demo_vol True)))
    \<and> find_path lower_latin1 v' (latin1 demo_name) = Inr (Some d) \<and> d_size d = length (replicate 600 (7::byte))
    \<and> readfile lower_latin1 v' (latin1 demo_name) =
        Inr (Some (take (length (free_list (demo_vol True)) * (v_spc (demo_vol True) * SEC)) (replicate 600 7)))
    \<and> length (free_list (demo_vol True)) * (v_spc (demo_vol True) * SEC) < length (replicate 600 (7::byte))"
    by (intro putroot_shortens_silently demo_sound demo_name_ok lower_latin1_ok demo_clear demo_slot_free)
      (simp_all add: demo_fat12 demo_free)
  moreover have "v_spc (demo_vol True) = 1" by (simp add: demo_vol_def)
  ultimately show ?thesis by (simp add: demo_free SEC_def)
qed

text \<open>A FAT12 volume of two clusters, the first of which holds the file B.\<close>

definition demo_entry :: "byte list" where
  "demo_entry = ljust 8 (upper [66]) @ ljust 3 (upper []) @ [0x20, case_flags [66] []] @ replicate 9 0 @ entry_tail 2 3"

lemma demo_entry_made: "make_entry [66] [] [2] 3 = Inr demo_entry"
  using make_entry_total [of "[66]" "[]" 2 3 "[]"] make_entry_layout(1) [of "[66]" "[]" 2 "[]" 3]
  by (auto simp: demo_entry_def)

lemma length_demo_entry: "length demo_entry = 32"
  using length_make_entry [OF demo_entry_made] by simp

definition demo_two :: vol where
  "demo_two = \<lparr>v_img = replicate 512 0 @ (demo_entry @ replicate 480 0) @ [4, 5, 6] @ replicate 1021 0, v_base = 0,
     v_spc = 1, v_rsvd = 0, v_nfats = 1,
     v_rootents = 16, v_spf = 1, v_rootsec = 1, v_data0 = 2, v_count = 2, v_fat12 = True,
     v_fat = [0xF0, 0xFF, 0xFF, 0xFF, 0x0F, 0x00] @ replicate 506 0\<rparr>"

lemma demo_two_sound: "sound demo_two"
  by (simp add: sound_def demo_two_def length_demo_entry root_len_def SEC_def vol_has_def has12_def)

lemma demo_two_free: "free_list demo_two = [3]"
proof -
  have "[2..<4] = [2, 3::nat]" by (simp add: upt_rec)
  then show ?thesis
    by (simp add: free_list_def demo_two_def vol_get_def get12_eq has12_def read_even_def read_odd_def nth_append)
qed

lemma sector_slots_pad: "length e = 32 \<Longrightarrow> sector_slots (e @ replicate 480 0) = e # replicate 15 (replicate 32 0)"
  by (rule nth_equalityI) (auto simp: sector_slots_nth nth_Cons split: nat.split)

lemma demo_two_slots: "slots_of demo_two (root_sectors demo_two) = demo_entry # replicate 15 (replicate 32 0)"
proof -
  have "root_sectors demo_two = [1]" by (simp add: root_sectors_def demo_two_def)
  moreover have "sector demo_two 1 = demo_entry @ replicate 480 0"
    by (simp add: sector_def file_get_def demo_two_def SEC_def length_demo_entry)
  ultimately show ?thesis by (simp add: slots_of_def sector_slots_pad length_demo_entry)
qed

lemma demo_two_dir:
  obtains d where "dir_slot demo_entry [] = (Some d, Next [])" "lower_latin1 (d_name d) = [98]"
    "d_cluster d = 2" "d_size d = 3"
proof -
  have "name_ok [66]" by (simp add: name_ok_def part_ok_def)
  moreover have "make_entry (name_parts [66] ! 0) (name_parts [66] ! 1) [2] 3 = Inr demo_entry"
    by (simp add: name_parts_def demo_entry_made)
  moreover have "lower_latin1 (latin1 [66]) = [98]" by (simp add: lower_latin1_def lower1_def latin1_def)
  ultimately show ?thesis using new_entry [of "[66]" "[2]" 3 demo_entry 2 "[]" lower_latin1] lower_latin1_ok that
    by auto
qed

lemma demo_two_clear: "root_clear lower_latin1 demo_two (latin1 demo_name)"
proof -
  obtain d where d: "dir_slot demo_entry [] = (Some d, Next [])" "lower_latin1 (d_name d) = [98]"
    by (rule demo_two_dir)
  have "used_slot demo_entry" by (simp add: demo_entry_def used_slot_def ljust_def upper_def upper1_def)
  moreover have "replicate 15 (replicate 32 (0::byte)) = replicate 32 0 # replicate 14 (replicate 32 0)"
    by (simp add: numeral_eq_Suc)
  moreover have "\<not> used_slot (replicate 32 0)" by (simp add: used_slot_def)
  ultimately show ?thesis
    using d by (simp add: root_clear_def demo_two_slots)
      (simp add: lower_latin1_def lower1_def demo_name_def latin1_def)
qed

lemma demo_two_find:
  obtains d where "find_path lower_latin1 demo_two [66] = Inr (Some d)" "d_cluster d = 2" "d_size d = 3"
proof -
  obtain d where d: "dir_slot demo_entry [] = (Some d, Next [])" "lower_latin1 (d_name d) = [98]"
    "d_cluster d = 2" "d_size d = 3" by (rule demo_two_dir)
  have "lower_latin1 [66] = [98]" by (simp add: lower_latin1_def lower1_def)
  with d(1,2) have "find_path lower_latin1 demo_two [66] = Inr (Some d)"
    by (simp add: plain_path find_entry_Some demo_two_slots split: prod.split)
  with d(3,4) show ?thesis by (intro that)
qed

lemma demo_two_chain: "chain demo_two 2 = Inr [2]" "vol_get demo_two 2 = Inr 0xFFF"
proof -
  show g: "vol_get demo_two 2 = Inr 0xFFF"
    by (simp add: demo_two_def vol_get_def get12_eq has12_def read_even_def)
  then show "chain demo_two 2 = Inr [2]" by (simp add: chain_eq in_chain_def demo_two_def)
qed

theorem putroot_keeps_other_files_witness:
  "\<exists>v'. putroot demo_two demo_name [1, 2, 3] = (v', Inr [3])
    \<and> readfile lower_latin1 v' [66] = Inr (Some [4, 5, 6])"
proof -
  obtain d where d: "find_path lower_latin1 demo_two [66] = Inr (Some d)" "d_cluster d = 2" "d_size d = 3"
    by (rule demo_two_find)
  have n: "clusters_needed demo_two [1, 2, 3] = 1"
    by (simp add: clusters_needed_def demo_two_def SEC_def)
  have "\<exists>e\<in>set (slots_of demo_two (root_sectors demo_two)). \<not> used_slot e"
    by (simp add: demo_two_slots used_slot_def)
  with putroot_total [OF demo_two_sound name_ok_parts(1) [OF demo_name_ok], of "[1, 2, 3]"]
  obtain v' where put: "putroot demo_two demo_name [1, 2, 3] = (v', Inr [3])"
    by (auto simp: n demo_two_free)
  have "readfile lower_latin1 demo_two [66] = Inr (Some [4, 5, 6])"
    by (simp add: readfile_def d demo_two_chain rd_cluster)
      (simp add: demo_two_def cpos_def file_get_def SEC_def length_demo_entry)
  with putroot_keeps_other_files [OF demo_two_sound demo_name_ok lower_latin1_ok demo_two_clear put,
      of "[66]" d "[2]"] d demo_two_chain
  have "readfile lower_latin1 v' [66] = Inr (Some [4, 5, 6])"
    by (simp add: lower_latin1_def lower1_def demo_name_def latin1_def)
  with put show ?thesis by blast
qed

end
