(* ===== verification/Disk_Chain.thy ===== *)
theory Disk_Chain
  imports Fat_Keep
begin

text \<open>
  The disk the volume tool of \<open>tools/fat12-proto/fatx.py\<close> leaves, as the model disk of
  \<open>tools/fat12-proto/sim12.py\<close>: the table sectors of the image, and the entries of a written
  chain in them.
\<close>

lemma linked_nth:
  "linked g nm z cs \<Longrightarrow> j < length cs \<Longrightarrow> g (cs ! j) = Inr (nm (if j + 1 < length cs then cs ! (j + 1) else z))"
proof (induction cs arbitrary: j rule: induct_list012)
  case (3 c d cs)
  then show ?case by (cases j) auto
qed auto

text \<open>The first copy of the table, sector by sector, and the table.\<close>

definition fat_sectors :: "vol \<Rightarrow> byte list list" where
  "fat_sectors v = map (\<lambda>i. sector v (int (v_rsvd v + i))) [0..<v_spf v]"

lemma concat_fat_sectors:
  "concat (fat_sectors v) = file_get (v_img v) (v_base v + v_rsvd v * SEC) (v_spf v * SEC)"
  using concat_slices [of "v_img v" "v_base v + v_rsvd v * SEC" "v_spf v"]
  by (simp add: fat_sectors_def sector_eq add_mult_distrib add.assoc del: of_nat_add)

lemma putroot_table:
  assumes snd: "sound v" and put: "putroot v nm data = (v', Inr cs)" and fits: "name_fits nm" and "v_fat12 v"
  shows "0 < v_nfats v \<Longrightarrow> concat (fat_sectors v') = v_fat v'" and "v_spf v' = v_spf v \<and> v_nfats v' = v_nfats v"
    and "j < length cs \<Longrightarrow> get12 (v_fat v') (cs ! j) = Inr (if j + 1 < length cs then cs ! (j + 1) else 0xFFF)"
    and "c \<in> set cs \<Longrightarrow> c < 0xFF7"
proof -
  from putroot_effect [OF snd put fits] obtain w x where cs: "cs \<noteq> []" "distinct cs"
    "\<forall>c\<in>set cs. c \<in> set [2..<nat (v_count v + 2)]" and w: "link_chain vol_set 0xFFF v cs = Inr w"
    and v': "v' = w\<lparr>v_img := x\<rparr>" and fl: "flushed w x" by blast
  from link_chain_geometry [OF w] obtain f where f: "w = v\<lparr>v_fat := f\<rparr>" by blast
  show "v_spf v' = v_spf v \<and> v_nfats v' = v_nfats v" using v' f by simp
  show "0 < v_nfats v \<Longrightarrow> concat (fat_sectors v') = v_fat v'"
    using fl v' f by (auto simp: concat_fat_sectors flushed_def dest: spec [of _ 0])
  have small: "c < 0xFF7" if "c \<in> set cs" for c
  proof -
    from cs(3) that have "int c < v_count v + 2" by auto
    moreover have "v_count v < 4085" using snd assms(4) by (simp add: sound_def)
    ultimately show ?thesis by simp
  qed
  then show "c \<in> set cs \<Longrightarrow> c < 0xFF7" .
  have nm: "vol_norm v c = c" if "c \<in> set cs" for c
  proof -
    from that cs(3) have "2 \<le> c" "c \<le> nat (v_count v) + 1" "2 \<le> nat (v_count v) + 1" by auto
    from sound_cluster(4) [OF snd this] show ?thesis .
  qed
  have fff: "vol_norm v 0xFFF = 0xFFF" using assms(4) by (simp add: vol_norm_def)
  assume j: "j < length cs"
  from linked_nth [OF vol.link_chain_linked [OF cs(2) w] j]
  have "vol_get v' (cs ! j) = Inr (if j + 1 < length cs then cs ! (j + 1) else 0xFFF)"
    using v' nm fff by (simp add: chain_img)
  moreover have "vol_get v' c = get12 (v_fat v') c" for c using v' f assms(4) by (simp add: vol_get_def)
  ultimately show "get12 (v_fat v') (cs ! j) = Inr (if j + 1 < length cs then cs ! (j + 1) else 0xFFF)" by simp
qed

lemma length_fat_sectors:
  assumes "sound v" and "0 < v_nfats v" and "s \<in> set (fat_sectors v)"
  shows "length s = 512"
proof -
  from assms(3) obtain i where i: "i < v_spf v" "s = sector v (int (v_rsvd v + i))"
    by (auto simp: fat_sectors_def)
  have "v_spf v \<le> v_nfats v * v_spf v" using assms(2) by (cases "v_nfats v") simp_all
  moreover have "v_rsvd v + v_nfats v * v_spf v \<le> v_data0 v" using assms(1) by (simp add: sound_def)
  ultimately have "v_rsvd v + i + 1 \<le> v_data0 v" using i(1) by linarith
  from mult_le_mono1 [OF this, of SEC] have "v_base v + (v_rsvd v + i + 1) * SEC \<le> length (v_img v)"
    using data0_inside [OF assms(1)] by simp
  from length_sector [OF this] i(2) show ?thesis by (simp add: SEC_def)
qed

lemma putroot_fat_sectors:
  assumes "sound v" and "putroot v nm data = (v', Inr cs)" and "name_fits nm" and "v_fat12 v" and "0 < v_nfats v"
  shows "\<forall>s\<in>set (fat_sectors v'). length s = 512" and "length (fat_sectors v') = v_spf v"
proof -
  have "sound v'" using putroot_effect [OF assms(1-3)] by blast
  then show "\<forall>s\<in>set (fat_sectors v'). length s = 512"
    using length_fat_sectors [of v'] putroot_table(2) [OF assms(1-4)] assms(5) by simp
  show "length (fat_sectors v') = v_spf v"
    using putroot_table(2) [OF assms(1-4)] by (simp add: fat_sectors_def)
qed

text \<open>The link of a cluster, as the reference function reads it.\<close>

lemma ref12_link:
  assumes "get12 fat c = Inr (if inner then d else 0xFFF)" and "inner \<Longrightarrow> d < 0xFF7"
  shows "ref_get12 fat c = Inr (if inner then d else 0xFFFF)"
  using assms by (cases inner) (simp_all add: ref_get12_eq widen_def)

text \<open>A volume with a table of the model disk's size.\<close>

definition demo_large :: vol where
  "demo_large = \<lparr>v_img = replicate 7168 0, v_base = 0, v_spc = 1, v_rsvd = 0, v_nfats = 1,
     v_rootents = 16, v_spf = 12, v_rootsec = 12, v_data0 = 13, v_count = 1, v_fat12 = True,
     v_fat = replicate 6144 0\<rparr>"

lemma demo_large_sound: "sound demo_large"
  by (simp add: sound_def demo_large_def root_len_def SEC_def vol_has_def has12_def)

lemma demo_large_free: "free_list demo_large = [2]"
proof -
  have "[2..<3] = [2::nat]" by (simp add: upt_rec)
  then show ?thesis
    by (simp add: free_list_def demo_large_def vol_get_def get12_eq has12_def read_even_def)
qed

lemma demo_large_slots: "slots_of demo_large (root_sectors demo_large) = replicate 16 (replicate 32 0)"
proof -
  have "root_sectors demo_large = [12]" by (simp add: root_sectors_def demo_large_def)
  moreover have "sector demo_large 12 = replicate 512 0"
    by (simp add: sector_def file_get_def demo_large_def SEC_def)
  ultimately show ?thesis by (simp add: slots_of_def sector_slots_zero)
qed

lemma demo_large_put:
  obtains v' where "putroot demo_large demo_name [1, 2, 3] = (v', Inr [2])"
proof -
  have n: "clusters_needed demo_large [1, 2, 3] = 1"
    by (simp add: clusters_needed_def demo_large_def SEC_def)
  have "\<exists>e\<in>set (slots_of demo_large (root_sectors demo_large)). \<not> used_slot e"
    by (simp add: demo_large_slots used_slot_def)
  with putroot_total [OF demo_large_sound name_ok_parts(1) [OF demo_name_ok], of "[1, 2, 3]"] that
  show thesis by (auto simp: n demo_large_free)
qed

end
