(* ===== verification/Md_Wrap.thy ===== *)
theory Md_Wrap
  imports Prelude
begin

text \<open>
  The row builder of the Markdown reference renderer, \<open>tools/mdvref.py\<close>: the class
  \<open>Out\<close> (the rows of the document), the class \<open>Wrap\<close> (the rows of one block) and the
  functions \<open>sgr\<close>, \<open>vis\<close> and \<open>spaces\<close>. Both classes are records; a method that
  changes the object returns it changed. \<open>Out\<close> is shared by all blocks, one at a time,
  and travels inside the wrapper of the current block. A prefix function, which the source
  passes as a closure that extends \<open>rb\<close> and returns a column count, is a function from
  the plain flag and \<open>rb\<close> to the extended \<open>rb\<close> and the count.

  The specification is a terminal: \<open>feed\<close> reads a row byte by byte, follows its
  escape sequences and records every byte it shows with the pen it is shown in.
  \<open>laid\<close> says that the rows of a block show exactly a given text, and \<open>put_laid\<close>
  that \<open>put\<close> extends the text by its byte: wrapping moves text to another row, but neither
  loses it, spaces between words included, nor changes its order or its style, and no row is
  wider than the screen.
\<close>

section \<open>Escape sequences\<close>

definition S_B :: int where "S_B = 1"
definition S_I :: int where "S_I = 2"
definition S_L :: int where "S_L = 4"
definition S_C :: int where "S_C = 8"
definition S_U :: int where "S_U = 16"

lemmas style_bits = S_B_def S_I_def S_L_def S_C_def S_U_def

definition RESET :: "byte list" where
  "RESET = 27 # lit ''[0m''"

definition sgr :: "byte list \<Rightarrow> int \<Rightarrow> byte list" where
  "sgr bs st = 27 # lit ''[0'' @ bs
     @ (if st AND S_B \<noteq> 0 then lit '';1'' else [])
     @ (if st AND S_I \<noteq> 0 then lit '';3'' else [])
     @ (if st AND S_L \<noteq> 0 then lit '';4'' else [])
     @ (if st AND S_C \<noteq> 0 then lit '';33'' else [])
     @ (if st AND S_U \<noteq> 0 then lit '';32'' else [])
     @ lit ''m''"

text \<open>A UTF-8 continuation byte takes no column.\<close>

definition is_cont :: "byte \<Rightarrow> bool" where
  "is_cont c \<longleftrightarrow> c AND 0xC0 = 0x80"

text \<open>The final byte of a control sequence.\<close>

definition csi_final :: "byte \<Rightarrow> bool" where
  "csi_final c \<longleftrightarrow> 0x40 \<le> c \<and> c \<le> 0x7e"

text \<open>The rest of a row after an escape byte, where \<open>vis\<close> goes on counting.\<close>

definition after_esc :: "byte list \<Rightarrow> byte list" where
  "after_esc bs = (case bs of
       [] \<Rightarrow> []
     | d # ds \<Rightarrow> if d = 91 then tl (dropWhile (\<lambda>x. \<not> csi_final x) ds) else ds)"

lemma length_after_esc [termination_simp]: "length (after_esc bs) \<le> length bs"
proof (cases bs)
  case (Cons d ds)
  have "length (tl (dropWhile (\<lambda>x. \<not> csi_final x) ds)) \<le> length ds"
    by (metis diff_le_self length_dropWhile_le length_tl order_trans)
  with Cons show ?thesis by (simp add: after_esc_def)
qed (simp add: after_esc_def)

fun vis :: "byte list \<Rightarrow> nat" where
  "vis [] = 0"
| "vis (c # cs) =
     (if c = 27 then vis (after_esc cs)
      else (if is_cont c then 0 else 1) + vis cs)"

section \<open>Out and Wrap\<close>

record out =
  out_W :: int
  plain :: bool
  rows :: "byte list list"
  any_out :: bool
  need_blank :: bool

definition init_out :: "int \<Rightarrow> bool \<Rightarrow> out" where
  "init_out width pl =
     \<lparr>out_W = width, plain = pl, rows = [], any_out = False, need_blank = False\<rparr>"

definition row :: "out \<Rightarrow> byte list \<Rightarrow> out" where
  "row ou b = ou\<lparr>rows := rows ou @ [b], any_out := True\<rparr>"

text \<open>The blank row that is due before a block.\<close>

definition pay_blank :: "out \<Rightarrow> out" where
  "pay_blank ou =
     (let ou = (if need_blank ou \<and> any_out ou then row ou [] else ou)
      in ou\<lparr>need_blank := False\<rparr>)"

type_synonym prefix = "bool \<Rightarrow> byte list \<Rightarrow> byte list \<times> nat"

definition spaces :: "nat \<Rightarrow> prefix" where
  "spaces n pl rb = (rb @ replicate n 32, n)"

record wrap =
  wout :: out
  words :: bool
  fp :: prefix
  cp :: prefix
  base :: "byte list"
  cur :: int
  started :: bool
  rb :: "byte list"
  col :: nat
  pcol :: nat
  rstyle :: "int option"
  brk :: "(nat \<times> int option) option"

text \<open>
  The attributes from \<open>rb\<close> on exist once a row is started; \<open>put\<close> and
  \<open>finish\<close> start one before they use them.
\<close>

definition init_wrap :: "out \<Rightarrow> bool \<Rightarrow> prefix \<Rightarrow> prefix \<Rightarrow> byte list \<Rightarrow> wrap" where
  "init_wrap ou wd f g bs =
     \<lparr>wout = ou, words = wd, fp = f, cp = g, base = bs, cur = 0, started = False,
      rb = [], col = 0, pcol = 0, rstyle = None, brk = None\<rparr>"

definition start_row :: "bool \<Rightarrow> wrap \<Rightarrow> wrap" where
  "start_row first w =
     (let ou = pay_blank (wout w);
          (bs, n) = (if first then fp w else cp w) (plain ou) []
      in w\<lparr>wout := ou, rb := bs, col := n, pcol := n, rstyle := None, brk := None,
           started := True\<rparr>)"

definition style_bytes :: "wrap \<Rightarrow> int \<Rightarrow> byte list" where
  "style_bytes w st = (if plain (wout w) then [] else sgr (base w) st)"

definition apply_style :: "wrap \<Rightarrow> wrap" where
  "apply_style w =
     (if cur w \<noteq> 0 \<or> base w \<noteq> [] then
        if rstyle w \<noteq> Some (cur w) then
          w\<lparr>rb := rb w @ style_bytes w (cur w), rstyle := Some (cur w)\<rparr>
        else w
      else if rstyle w \<noteq> None then
        w\<lparr>rb := (if plain (wout w) then rb w else rb w @ RESET), rstyle := None\<rparr>
      else w)"

definition end_row :: "wrap \<Rightarrow> wrap" where
  "end_row w =
     (let w = (if rstyle w \<noteq> None \<and> \<not> plain (wout w) then w\<lparr>rb := rb w @ RESET\<rparr> else w)
      in w\<lparr>wout := row (wout w) (rb w)\<rparr>)"

text \<open>The row is full: what follows the last space moves to the next row.\<close>

definition break_row :: "wrap \<Rightarrow> wrap" where
  "break_row w =
     (case (if words w then brk w else None) of
        Some (i, bst) \<Rightarrow>
          (let rest = drop (i + 1) (rb w);
               old_rstyle = rstyle w;
               w = start_row False (end_row (w\<lparr>rb := take i (rb w), rstyle := bst\<rparr>));
               bs = (case bst of None \<Rightarrow> [] | Some st \<Rightarrow> style_bytes w st)
           in w\<lparr>rb := rb w @ bs @ rest, rstyle := old_rstyle, col := col w + vis rest\<rparr>)
      | None \<Rightarrow> start_row False (end_row w))"

definition put :: "wrap \<Rightarrow> byte \<Rightarrow> wrap" where
  "put w c =
     (let w = (if started w then w else start_row True w);
          c = (if c = 9 then 32 else c)
      in if c < 32 \<or> c = 127 then w
         else if is_cont c then w\<lparr>rb := rb w @ [c]\<rparr>
         else if c = 32 \<and> words w then
           if col w = pcol w then w
           else if int (col w) \<ge> out_W (wout w) then start_row False (end_row w)
           else let w = apply_style w
                in w\<lparr>rb := rb w @ [32], col := col w + 1,
                     brk := Some (length (rb w), rstyle w)\<rparr>
         else
           let w = (if int (col w) \<ge> out_W (wout w) \<or> length (rb w) > 900
                    then break_row w else w);
               w = apply_style w
           in w\<lparr>rb := rb w @ [c], col := col w + 1\<rparr>)"

definition finish :: "wrap \<Rightarrow> wrap" where
  "finish w =
     (let w = (if started w then w else start_row True w)
      in (end_row w)\<lparr>started := False\<rparr>)"

section \<open>The terminal\<close>

datatype tty_mode = Text | Esc | Csi "byte list"

type_synonym glyph = "byte \<times> byte list option"

record tty =
  tmode :: tty_mode
  pen :: "byte list"
  shown :: "glyph list"

text \<open>
  A shown byte comes with the pen, the parameters of the last \<open>ESC [ ... m\<close>, except a
  continuation byte, which belongs to the character before it.
\<close>

definition glyph :: "byte list \<Rightarrow> byte \<Rightarrow> glyph" where
  "glyph p c = (c, if is_cont c then None else Some p)"

fun tty_step :: "tty \<Rightarrow> byte \<Rightarrow> tty" where
  "tty_step t c = (case tmode t of
       Text \<Rightarrow> if c = 27 then t\<lparr>tmode := Esc\<rparr> else t\<lparr>shown := shown t @ [glyph (pen t) c]\<rparr>
     | Esc \<Rightarrow> t\<lparr>tmode := if c = 91 then Csi [] else Text\<rparr>
     | Csi ps \<Rightarrow> if csi_final c then t\<lparr>tmode := Text, pen := if c = 109 then ps else pen t\<rparr>
                else t\<lparr>tmode := Csi (ps @ [c])\<rparr>)"

definition feed :: "tty \<Rightarrow> byte list \<Rightarrow> tty" where
  "feed t bs = foldl tty_step t bs"

definition tty0 :: "glyph list \<Rightarrow> byte list \<Rightarrow> tty" where
  "tty0 g p = \<lparr>tmode = Text, pen = p, shown = g\<rparr>"

abbreviation plain_pen :: "byte list" where
  "plain_pen \<equiv> [48]"

abbreviation screen :: "byte list \<Rightarrow> tty" where
  "screen bs \<equiv> feed (tty0 [] plain_pen) bs"

section \<open>Feeding the terminal\<close>

lemma feed_Nil [simp]: "feed t [] = t"
  by (simp add: feed_def)

lemma feed_Cons [simp]: "feed t (c # cs) = feed (tty_step t c) cs"
  by (simp add: feed_def)

lemma feed_append [simp]: "feed t (xs @ ys) = feed (feed t xs) ys"
  by (simp add: feed_def)

lemma tty0_simps [simp]:
  "tmode (tty0 g p) = Text" "pen (tty0 g p) = p" "shown (tty0 g p) = g"
  by (simp_all add: tty0_def)

lemma tty0_eq [simp]: "tty0 g p = tty0 g' p' \<longleftrightarrow> g = g' \<and> p = p'"
  by (auto simp: tty0_def)

declare tty_step.simps [simp del]

lemma tty0_step [simp]:
  "c \<noteq> 27 \<Longrightarrow> tty_step (tty0 g p) c = tty0 (g @ [glyph p c]) p"
  by (simp add: tty_step.simps tty0_def)

lemma tty_step_csi [simp]:
  "tty_step \<lparr>tmode = Csi ps, pen = p, shown = g\<rparr> c =
     (if csi_final c then tty0 g (if c = 109 then ps else p)
      else \<lparr>tmode = Csi (ps @ [c]), pen = p, shown = g\<rparr>)"
  by (simp add: tty_step.simps tty0_def)

lemma tty0_escape [simp]:
  "tty_step (tty0 g p) 27 = \<lparr>tmode = Esc, pen = p, shown = g\<rparr>"
  "tty_step \<lparr>tmode = Esc, pen = p, shown = g\<rparr> c =
     (if c = 91 then \<lparr>tmode = Csi [], pen = p, shown = g\<rparr> else tty0 g p)"
  by (simp_all add: tty_step.simps tty0_def)

lemma csi_final_m [simp]: "csi_final 109"
  by (simp add: csi_final_def)

lemma feed_text:
  "\<forall>c\<in>set bs. c \<noteq> 27 \<Longrightarrow> feed (tty0 g p) bs = tty0 (g @ map (glyph p) bs) p"
  by (induction bs arbitrary: g) simp_all

text \<open>What was shown before only precedes what is shown next.\<close>

lemma feed_shown:
  "feed (t\<lparr>shown := g @ shown t\<rparr>) bs = (feed t bs)\<lparr>shown := g @ shown (feed t bs)\<rparr>"
proof (induction bs arbitrary: t)
  case (Cons c cs)
  have "tty_step (t\<lparr>shown := g @ shown t\<rparr>) c
      = (tty_step t c)\<lparr>shown := g @ shown (tty_step t c)\<rparr>"
    by (simp add: tty_step.simps split: tty_mode.split)
  then show ?case using Cons by simp
qed simp

lemma feed_tty0:
  assumes "feed (tty0 [] p) bs = tty0 h q"
  shows "feed (tty0 g p) bs = tty0 (g @ h) q"
  using feed_shown [where t = "tty0 [] p" and g = g and bs = bs] assms by (simp add: tty0_def)

definition sgr_params :: "byte list \<Rightarrow> int \<Rightarrow> byte list" where
  "sgr_params bs st = butlast (drop 2 (sgr bs st))"

definition no_final :: "byte list \<Rightarrow> bool" where
  "no_final bs \<longleftrightarrow> (\<forall>b\<in>set bs. \<not> csi_final b)"

lemma sgr_shape: "sgr bs st = 27 # 91 # sgr_params bs st @ [109]"
  by (simp add: sgr_params_def sgr_def lit_def butlast_append)

lemma sgr_params_no_final:
  "no_final bs \<Longrightarrow> \<forall>b\<in>set (sgr_params bs st). \<not> csi_final b"
  by (auto simp: sgr_params_def sgr_def lit_def butlast_append no_final_def csi_final_def
      split: if_splits)

lemma feed_csi:
  assumes "\<forall>b\<in>set ps. \<not> csi_final b"
  shows "feed \<lparr>tmode = Csi acc, pen = p, shown = g\<rparr> (ps @ [109]) = tty0 g (acc @ ps)"
  using assms
proof (induction ps arbitrary: acc)
  case (Cons b bs)
  have "\<not> csi_final b" using Cons.prems by simp
  then show ?case using Cons.IH [of "acc @ [b]"] Cons.prems by (simp del: feed_append)
qed simp

lemma feed_sgr [simp]:
  "no_final bs \<Longrightarrow> feed (tty0 g p) (sgr bs st) = tty0 g (sgr_params bs st)"
  using feed_csi [OF sgr_params_no_final, of bs "[]" p g st]
  by (simp add: sgr_shape del: feed_append)

lemma RESET_sgr: "RESET = sgr [] 0"
  by (simp add: RESET_def sgr_def lit_def)

lemma sgr_params_plain [simp]: "sgr_params [] 0 = plain_pen"
  by (simp add: sgr_params_def sgr_def lit_def)

lemma no_final_Nil [simp]: "no_final []"
  by (simp add: no_final_def)

lemma feed_RESET [simp]: "feed (tty0 g p) RESET = tty0 g plain_pen"
  by (simp add: RESET_sgr)

text \<open>\<open>vis\<close> counts the columns the terminal shows.\<close>

definition cols :: "glyph list \<Rightarrow> nat" where
  "cols g = length (filter (\<lambda>x. snd x \<noteq> None) g)"

lemma cols_simps [simp]:
  "cols [] = 0" "cols (g @ h) = cols g + cols h"
  "cols (glyph p c # g) = (if is_cont c then 0 else 1) + cols g"
  by (simp_all add: cols_def glyph_def)

lemma feed_csi_open:
  "(\<exists>q. feed \<lparr>tmode = Csi acc, pen = p, shown = g\<rparr> ds
        = feed (tty0 g q) (tl (dropWhile (\<lambda>x. \<not> csi_final x) ds)))
   \<or> shown (feed \<lparr>tmode = Csi acc, pen = p, shown = g\<rparr> ds) = g
     \<and> dropWhile (\<lambda>x. \<not> csi_final x) ds = []"
proof (induction ds arbitrary: acc)
  case (Cons d ds)
  then show ?case by (cases "csi_final d") auto
qed simp

lemma vis_cols: "cols (shown (feed (tty0 g p) bs)) = cols g + vis bs"
proof (induction bs arbitrary: g p rule: vis.induct)
  case (2 c cs)
  show ?case
  proof (cases "c = 27")
    case False
    with 2 show ?thesis by simp
  next
    case True
    have *: "cols (shown (feed (tty0 g q) (after_esc cs))) = cols g + vis (after_esc cs)" for q
      using 2(1) True by simp
    show ?thesis
    proof (cases "\<exists>ds. cs = 91 # ds")
      case False
      with True * [of p] show ?thesis
        by (cases cs) (auto simp: after_esc_def)
    next
      case csi: True
      then obtain ds where ds: "cs = 91 # ds" ..
      have after: "after_esc cs = tl (dropWhile (\<lambda>x. \<not> csi_final x) ds)"
        by (simp add: ds after_esc_def)
      from feed_csi_open [of "[]" p g ds] True show ?thesis
      proof (elim disjE exE conjE)
        fix q
        assume "feed \<lparr>tmode = Csi [], pen = p, shown = g\<rparr> ds
          = feed (tty0 g q) (tl (dropWhile (\<lambda>x. \<not> csi_final x) ds))"
        then show ?thesis using True * [of q] by (simp add: ds after_esc_def)
      next
        assume "shown (feed \<lparr>tmode = Csi [], pen = p, shown = g\<rparr> ds) = g"
          and none: "dropWhile (\<lambda>x. \<not> csi_final x) ds = []"
        moreover have "after_esc cs = []" using none after by (simp only: list.sel)
        ultimately show ?thesis using True by (simp add: ds del: dropWhile_eq_Nil_conv)
      qed
    qed
  qed
qed simp

lemma vis_shown: "vis bs = cols (shown (feed (tty0 [] p) bs))"
  using vis_cols [of "[]" p bs] by simp
section \<open>What a block has laid out\<close>

definition ink :: "byte list \<Rightarrow> glyph list" where
  "ink b = shown (screen b)"

lemma vis_ink: "vis b = cols (ink b)"
  by (simp add: ink_def vis_shown [of b plain_pen])

lemma ink_Nil [simp]: "ink [] = []"
  by (simp add: ink_def)

text \<open>The pen of a style, and of the style \<open>rstyle\<close> says is in effect.\<close>

definition pen_of :: "bool \<Rightarrow> byte list \<Rightarrow> int \<Rightarrow> byte list" where
  "pen_of pl bs st = (if pl then plain_pen else sgr_params bs st)"

definition pen_in :: "bool \<Rightarrow> byte list \<Rightarrow> int option \<Rightarrow> byte list" where
  "pen_in pl bs rs = (case rs of None \<Rightarrow> plain_pen | Some st \<Rightarrow> pen_of pl bs st)"

lemma pen_in_simps [simp]:
  "pen_in pl bs None = plain_pen" "pen_in pl bs (Some st) = pen_of pl bs st"
  "pen_in True bs rs = plain_pen"
  by (simp_all add: pen_in_def pen_of_def split: option.split)

text \<open>
  A prefix: printable bytes and complete sequences, which leave the terminal reset and
  take the columns the prefix function reports.
\<close>

definition good_prefix :: "byte list \<Rightarrow> nat \<Rightarrow> bool" where
  "good_prefix p n \<longleftrightarrow> screen p = tty0 (ink p) plain_pen \<and> vis p = n"

definition prefixed :: "wrap \<Rightarrow> byte list \<Rightarrow> byte list \<Rightarrow> nat \<Rightarrow> bool" where
  "prefixed w p q n \<longleftrightarrow>
     fp w (plain (wout w)) [] = (p, n) \<and> cp w (plain (wout w)) [] = (q, n)
     \<and> good_prefix p n \<and> good_prefix q n \<and> no_final (base w)"

text \<open>The first row of a block has the first prefix, the others the second.\<close>

fun with_prefix :: "byte list \<Rightarrow> byte list \<Rightarrow> byte list list \<Rightarrow> byte list list" where
  "with_prefix p q [] = []"
| "with_prefix p q (b # bs) = (p @ b) # map ((@) q) bs"

lemma with_prefix_snoc [simp]:
  "with_prefix p q (bs @ [b]) = with_prefix p q bs @ [(if bs = [] then p else q) @ b]"
  by (cases bs) simp_all

text \<open>A row body that ends with the terminal reset.\<close>

definition closed_row :: "byte list \<Rightarrow> bool" where
  "closed_row b \<longleftrightarrow> screen b = tty0 (ink b) plain_pen"

text \<open>
  \<open>brk\<close> is a space of the body after which nothing but the moved rest follows, with
  text before it.
\<close>

definition brk_ok :: "wrap \<Rightarrow> byte list \<Rightarrow> byte list \<Rightarrow> bool" where
  "brk_ok w p b \<longleftrightarrow> (\<forall>i st. brk w = Some (i, st) \<longrightarrow>
     (\<exists>a r. b = a @ 32 # r \<and> i = length p + length a \<and> 0 < vis a
       \<and> screen a = tty0 (ink a) (pen_in (plain (wout w)) (base w) st)))"

text \<open>
  The row being built: \<open>bs\<close> are the bodies of the finished rows of the block, \<open>b\<close> the
  body of the current one, after the rows \<open>old\<close> of the document.
\<close>

definition at_row :: "wrap \<Rightarrow> byte list \<Rightarrow> byte list \<Rightarrow> nat \<Rightarrow> byte list list
    \<Rightarrow> byte list list \<Rightarrow> byte list \<Rightarrow> bool" where
  "at_row w p q n old bs b \<longleftrightarrow>
     prefixed w p q n \<and> started w \<and> \<not> need_blank (wout w)
     \<and> rows (wout w) = old @ with_prefix p q bs
     \<and> rb w = (if bs = [] then p else q) @ b
     \<and> col w = n + vis b \<and> pcol w = n
     \<and> screen b = tty0 (ink b) (pen_in (plain (wout w)) (base w) (rstyle w))
     \<and> (\<forall>x\<in>set bs. closed_row x)
     \<and> brk_ok w (if bs = [] then p else q) b"

lemma screen_append:
  assumes "screen b = tty0 (ink b) p" and "feed (tty0 [] p) c = tty0 g q"
  shows "screen (b @ c) = tty0 (ink (b @ c)) q" and "ink (b @ c) = ink b @ g"
proof -
  have "screen (b @ c) = tty0 (ink b @ g) q"
    using feed_tty0 [OF assms(2), of "ink b"] assms(1) by (simp only: feed_append)
  then show "ink (b @ c) = ink b @ g" and "screen (b @ c) = tty0 (ink (b @ c)) q"
    by (simp_all only: ink_def [of "b @ c"] tty0_simps)
qed

lemma screen_snoc:
  assumes "screen b = tty0 (ink b) p" and "c \<noteq> 27"
  shows "screen (b @ [c]) = tty0 (ink (b @ [c])) p" and "ink (b @ [c]) = ink b @ [glyph p c]"
  using screen_append [OF assms(1), of "[c]" "[glyph p c]" p] assms(2)
  by (simp_all only: feed_Cons feed_Nil tty0_step append_Nil simp_thms)

subsection \<open>The steps of the row builder\<close>

lemma pay_blank_simps [simp]:
  "plain (pay_blank ou) = plain ou" "out_W (pay_blank ou) = out_W ou"
  "\<not> need_blank (pay_blank ou)"
  "\<not> need_blank ou \<Longrightarrow> pay_blank ou = ou"
  by (simp_all add: pay_blank_def row_def)

lemma start_row_at:
  assumes "prefixed w p q n"
  shows "at_row (start_row True w) p q n (rows (pay_blank (wout w))) [] []"
  using assms
  by (simp add: at_row_def start_row_def prefixed_def brk_ok_def)

lemma end_row_at:
  assumes "at_row w p q n old bs b"
  obtains s where "at_row (start_row False (end_row w)) p q n old (bs @ [b @ s]) []"
    and "ink (b @ s) = ink b"
proof -
  let ?s = "if rstyle w \<noteq> None \<and> \<not> plain (wout w) then RESET else []"
  have b: "screen b = tty0 (ink b) (pen_in (plain (wout w)) (base w) (rstyle w))"
    using assms by (simp add: at_row_def)
  have "feed (tty0 [] (pen_in (plain (wout w)) (base w) (rstyle w))) ?s = tty0 [] plain_pen"
    by (cases "plain (wout w)") auto
  from screen_append [OF b this]
  have s: "screen (b @ ?s) = tty0 (ink (b @ ?s)) plain_pen" "ink (b @ ?s) = ink b"
    by (simp_all only: append_Nil2)
  have "at_row (start_row False (end_row w)) p q n old (bs @ [b @ ?s]) []"
    using assms s
    by (auto simp: at_row_def start_row_def end_row_def prefixed_def brk_ok_def row_def
        closed_row_def)
  then show thesis using that s(2) by blast
qed

lemma vis_append_ink:
  "ink b' = ink b \<Longrightarrow> vis b' = vis b"
  by (simp add: vis_ink)

lemma brk_ok_append:
  "brk_ok w p b \<Longrightarrow> brk w' = brk w \<Longrightarrow> plain (wout w') = plain (wout w) \<Longrightarrow> base w' = base w
   \<Longrightarrow> brk_ok w' p (b @ s)"
  unfolding brk_ok_def
proof (intro allI impI)
  fix i st
  assume ok: "\<forall>i st. brk w = Some (i, st) \<longrightarrow> (\<exists>a r. b = a @ 32 # r \<and> i = length p + length a
      \<and> 0 < vis a \<and> screen a = tty0 (ink a) (pen_in (plain (wout w)) (base w) st))"
    and same: "brk w' = brk w" "plain (wout w') = plain (wout w)" "base w' = base w"
    and brk: "brk w' = Some (i, st)"
  from ok brk same(1) obtain a r where "b = a @ 32 # r" and "i = length p + length a" and "0 < vis a"
    and "screen a = tty0 (ink a) (pen_in (plain (wout w)) (base w) st)"
    by metis
  then show "\<exists>a r. b @ s = a @ 32 # r \<and> i = length p + length a \<and> 0 < vis a
      \<and> screen a = tty0 (ink a) (pen_in (plain (wout w')) (base w') st)"
    using same by (intro exI [of _ a] exI [of _ "r @ s"]) simp
qed

lemma pen_of_base0 [simp]: "pen_of pl [] 0 = plain_pen"
  by (simp add: pen_of_def)

text \<open>The style \<open>apply_style\<close> writes, if any.\<close>

definition style_change :: "wrap \<Rightarrow> byte list" where
  "style_change w = drop (length (rb w)) (rb (apply_style w))"

lemma apply_style_frame [simp]:
  "words (apply_style w) = words w" "fp (apply_style w) = fp w" "cp (apply_style w) = cp w"
  "base (apply_style w) = base w" "cur (apply_style w) = cur w"
  "wout (apply_style w) = wout w" "started (apply_style w) = started w"
  "col (apply_style w) = col w" "pcol (apply_style w) = pcol w" "brk (apply_style w) = brk w"
  "rb (apply_style w) = rb w @ style_change w"
  by (simp_all add: apply_style_def style_change_def)

lemma style_change_feed:
  assumes "no_final (base w)"
  shows "feed (tty0 [] (pen_in (plain (wout w)) (base w) (rstyle w))) (style_change w)
       = tty0 [] (pen_in (plain (wout w)) (base w) (rstyle (apply_style w)))"
    and "pen_in (plain (wout w)) (base w) (rstyle (apply_style w))
       = pen_of (plain (wout w)) (base w) (cur w)"
  using assms
  by (auto simp: style_change_def apply_style_def style_bytes_def pen_of_def)

lemma apply_style_at:
  assumes "at_row w p q n old bs b"
  shows "at_row (apply_style w) p q n old bs (b @ style_change w)"
    and "ink (b @ style_change w) = ink b"
proof -
  have b: "screen b = tty0 (ink b) (pen_in (plain (wout w)) (base w) (rstyle w))"
    and base: "no_final (base w)"
    using assms by (simp_all add: at_row_def prefixed_def)
  note s = screen_append [OF b style_change_feed(1) [OF base]]
  show ink: "ink (b @ style_change w) = ink b"
    using s(2) by (simp only: append_Nil2)
  show "at_row (apply_style w) p q n old bs (b @ style_change w)"
    using assms s(1) vis_append_ink [OF ink]
    by (auto simp: at_row_def prefixed_def intro: brk_ok_append)
qed

lemma append_at:
  assumes "at_row w p q n old bs b" and "c \<noteq> 27"
    and "w' = w\<lparr>rb := rb w @ [c], col := col w + (if is_cont c then 0 else 1)\<rparr>"
  shows "at_row w' p q n old bs (b @ [c])"
    and "ink (b @ [c]) = ink b @ [glyph (pen_in (plain (wout w)) (base w) (rstyle w)) c]"
proof -
  have b: "screen b = tty0 (ink b) (pen_in (plain (wout w)) (base w) (rstyle w))"
    using assms(1) by (simp add: at_row_def)
  note s = screen_snoc [OF b assms(2)]
  show ink: "ink (b @ [c]) = ink b @ [glyph (pen_in (plain (wout w)) (base w) (rstyle w)) c]"
    by (rule s(2))
  have "vis (b @ [c]) = vis b + (if is_cont c then 0 else 1)"
    by (simp add: vis_ink ink del: feed_append)
  then show "at_row w' p q n old bs (b @ [c])"
    using assms(1) s(1) unfolding assms(3)
    by (auto simp: at_row_def prefixed_def intro: brk_ok_append)
qed

lemma space_not_cont [simp]: "\<not> is_cont 32"
  by (simp add: is_cont_def)

lemma space_at:
  assumes "at_row w p q n old bs b" and "col w \<noteq> pcol w"
    and "w' = w\<lparr>rb := rb w @ [32], col := col w + 1, brk := Some (length (rb w), rstyle w)\<rparr>"
  shows "at_row w' p q n old bs (b @ [32])"
    and "ink (b @ [32]) = ink b @ [glyph (pen_in (plain (wout w)) (base w) (rstyle w)) 32]"
proof -
  have b: "screen b = tty0 (ink b) (pen_in (plain (wout w)) (base w) (rstyle w))"
    and "0 < vis b" and len: "length (rb w) = length (if bs = [] then p else q) + length b"
    using assms(1,2) by (auto simp: at_row_def)
  then have "brk_ok w' (if bs = [] then p else q) (b @ [32])"
    unfolding brk_ok_def assms(3) by (intro allI impI exI [of _ b] exI [of _ "[]"]) auto
  then show "at_row w' p q n old bs (b @ [32])"
    using append_at(1) [OF assms(1), of 32, OF _ refl] unfolding assms(3)
    by (simp add: at_row_def prefixed_def)
  show "ink (b @ [32]) = ink b @ [glyph (pen_in (plain (wout w)) (base w) (rstyle w)) 32]"
    by (rule append_at(2) [OF assms(1) _ refl]) simp
qed

lemma feed_tty0_rest:
  assumes "feed (tty0 g p) bs = tty0 h q"
  obtains k where "h = g @ k" and "feed (tty0 [] p) bs = tty0 k q"
proof -
  have "tty0 h q = (feed (tty0 [] p) bs)\<lparr>shown := g @ shown (feed (tty0 [] p) bs)\<rparr>"
    using feed_shown [where t = "tty0 [] p" and g = g and bs = bs] assms by (simp add: tty0_def)
  then have "h = g @ shown (feed (tty0 [] p) bs)"
    and "feed (tty0 [] p) bs = tty0 (shown (feed (tty0 [] p) bs)) q"
    by (cases "feed (tty0 [] p) bs", simp add: tty0_def)+
  then show thesis using that by blast
qed

text \<open>
  A glyph without a pen is a continuation byte and takes no column.
\<close>

lemma ink_cont: "x \<in> set (ink b) \<Longrightarrow> snd x = None \<longleftrightarrow> is_cont (fst x)"
proof -
  have "x \<in> set (shown (feed t b)) \<Longrightarrow> \<forall>y\<in>set (shown t). snd y = None \<longleftrightarrow> is_cont (fst y)
      \<Longrightarrow> snd x = None \<longleftrightarrow> is_cont (fst x)" for t
  proof (induction b arbitrary: t)
    case (Cons c b)
    have "\<forall>y\<in>set (shown (tty_step t c)). snd y = None \<longleftrightarrow> is_cont (fst y)"
      using Cons.prems(2) by (auto simp: tty_step.simps glyph_def split: tty_mode.split)
    then show ?case using Cons by simp
  qed simp
  then show "x \<in> set (ink b) \<Longrightarrow> ?thesis" by (simp add: ink_def)
qed

lemma cols_zero: "cols g = 0 \<longleftrightarrow> (\<forall>x\<in>set g. snd x = None)"
  by (auto simp: cols_def filter_empty_conv)

text \<open>
  What a row shows of the text \<open>t\<close> that belongs to it: all of it, except that in a block of
  words the spaces before its first character are left out.
\<close>

definition row_shows :: "bool \<Rightarrow> glyph list \<Rightarrow> glyph list \<Rightarrow> bool" where
  "row_shows wd g t \<longleftrightarrow> (if wd
     then \<exists>z r. t = z @ r \<and> (\<forall>x\<in>set z. fst x = 32 \<or> snd x = None)
        \<and> g = filter (\<lambda>x. snd x = None) z @ r
     else g = t)"

definition rows_show :: "bool \<Rightarrow> glyph list list \<Rightarrow> glyph list \<Rightarrow> bool" where
  "rows_show wd gs t \<longleftrightarrow> (\<exists>ts. list_all2 (row_shows wd) gs ts \<and> concat ts = t)"

lemma row_shows_refl: "row_shows wd g g"
  unfolding row_shows_def by (auto intro: exI [of _ "[]"])

lemma row_shows_snoc: "row_shows wd g t \<Longrightarrow> row_shows wd (g @ [x]) (t @ [x])"
  by (auto simp: row_shows_def) (metis append_assoc)

text \<open>A space in front of the first character of a row.\<close>

lemma row_shows_blank:
  assumes "row_shows True g t" and "cols g = 0" and "fst x = 32" and "snd x \<noteq> None"
  shows "row_shows True g (t @ [x])"
proof -
  obtain z r where z: "t = z @ r" "\<forall>x\<in>set z. fst x = 32 \<or> snd x = None" "g = filter (\<lambda>x. snd x = None) z @ r"
    using assms(1) by (auto simp: row_shows_def)
  have "\<forall>x\<in>set r. snd x = None" using assms(2) z(3) by (simp add: cols_zero)
  then have "t @ [x] = (t @ [x]) @ []" "\<forall>y\<in>set (t @ [x]). fst y = 32 \<or> snd y = None"
    "g = filter (\<lambda>x. snd x = None) (t @ [x]) @ []"
    using z assms(3,4) by auto
  then show ?thesis unfolding row_shows_def by (simp only: if_True) blast
qed

text \<open>A row broken at a space: the space belongs to the new row, which leaves it out.\<close>

lemma row_shows_break:
  assumes "row_shows True (g @ x # h) t" and "0 < cols g" and "fst x = 32" and "snd x \<noteq> None"
  shows "\<exists>t1 t2. t = t1 @ t2 \<and> row_shows True g t1 \<and> row_shows True h t2"
proof -
  obtain z r where z: "t = z @ r" "\<forall>x\<in>set z. fst x = 32 \<or> snd x = None"
    "g @ x # h = filter (\<lambda>x. snd x = None) z @ r"
    using assms(1) by (auto simp: row_shows_def)
  let ?z = "filter (\<lambda>x. snd x = None) z"
  have "\<not> length g \<le> length ?z"
  proof
    assume "length g \<le> length ?z"
    moreover have "g = take (length g) (?z @ r)" unfolding z(3) [symmetric] by simp
    ultimately have "g = take (length g) ?z" by simp
    then have "set g \<subseteq> set ?z" using set_take_subset [of "length g" ?z] by simp
    then have "\<forall>y\<in>set g. snd y = None" by auto
    then show False using assms(2) by (simp add: cols_zero [symmetric])
  qed
  moreover have "length g \<le> length ?z" if "g @ us = ?z" for us using arg_cong [OF that, of length] by simp
  ultimately obtain a where g: "g = ?z @ a" and r: "r = a @ x # h"
    using z(3) unfolding append_eq_append_conv2 by metis
  have "row_shows True g (z @ a)" using z(2) g unfolding row_shows_def by auto
  moreover have "row_shows True h (x # h)"
    unfolding row_shows_def if_True using assms(3,4) by (intro exI [of _ "[x]"] exI [of _ h]) simp
  ultimately show ?thesis using z(1) r by (intro exI [of _ "z @ a"] exI [of _ "x # h"]) simp
qed

lemma rows_show_False [simp]: "rows_show False gs t \<longleftrightarrow> t = concat gs"
proof -
  have "row_shows False = (=)" by (simp add: row_shows_def fun_eq_iff)
  then show ?thesis by (auto simp: rows_show_def list.rel_eq)
qed

lemma rows_show_snoc:
  "rows_show wd (gs @ [g]) t \<longleftrightarrow> (\<exists>u v. t = u @ v \<and> rows_show wd gs u \<and> row_shows wd g v)"
proof
  assume "rows_show wd (gs @ [g]) t"
  then obtain us vs where "list_all2 (row_shows wd) gs us" "list_all2 (row_shows wd) [g] vs" "t = concat (us @ vs)"
    by (auto simp: rows_show_def list_all2_append1)
  moreover from this(2) obtain v where "vs = [v]" "row_shows wd g v" by (auto simp: list_all2_Cons1)
  ultimately show "\<exists>u v. t = u @ v \<and> rows_show wd gs u \<and> row_shows wd g v"
    by (intro exI [of _ "concat us"] exI [of _ v]) (auto simp: rows_show_def)
next
  assume "\<exists>u v. t = u @ v \<and> rows_show wd gs u \<and> row_shows wd g v"
  then obtain us v where "t = concat us @ v" "list_all2 (row_shows wd) gs us" "row_shows wd g v"
    by (auto simp: rows_show_def)
  then show "rows_show wd (gs @ [g]) t"
    unfolding rows_show_def by (intro exI [of _ "us @ [v]"]) (simp add: list_all2_appendI)
qed

definition has_brk :: "wrap \<Rightarrow> bool" where
  "has_brk w \<longleftrightarrow> words w \<and> brk w \<noteq> None"

lemma break_row_plain: "\<not> has_brk w \<Longrightarrow> break_row w = start_row False (end_row w)"
  by (auto simp: break_row_def has_brk_def split: option.split)

lemma break_row_frame [simp]:
  "words (break_row w) = words w" "cur (break_row w) = cur w" "base (break_row w) = base w"
  "plain (wout (break_row w)) = plain (wout w)" "out_W (wout (break_row w)) = out_W (wout w)"
  by (auto simp: break_row_def start_row_def end_row_def Let_def row_def
      split: option.splits prod.splits)

lemma style_bytes_feed:
  assumes "no_final (base w)"
  shows "screen (case st of None \<Rightarrow> [] | Some s \<Rightarrow> style_bytes w s)
       = tty0 [] (pen_in (plain (wout w)) (base w) st)"
  using assms by (auto simp: style_bytes_def pen_of_def split: option.split)

lemma break_at:
  assumes "at_row w p q n old bs b" and "has_brk w"
  obtains x b' where "at_row (break_row w) p q n old (bs @ [x]) b'"
    and "\<exists>y. fst y = 32 \<and> snd y \<noteq> None \<and> ink b = ink x @ y # ink b'" and "0 < cols (ink x)"
    and "vis x < vis b" and "vis b' < vis b"
proof -
  let ?pl = "plain (wout w)" and ?bs = "base w"
  define pp where "pp = (if bs = [] then p else q)"
  obtain i st where brk: "brk w = Some (i, st)" and wd: "words w"
    using assms(2) by (auto simp: has_brk_def)
  obtain a r where b: "b = a @ 32 # r" and i: "i = length pp + length a" and a0: "0 < vis a"
    and a: "screen a = tty0 (ink a) (pen_in ?pl ?bs st)"
    using assms(1) brk unfolding at_row_def brk_ok_def pp_def [symmetric] by blast
  have rb: "rb w = pp @ b" and base: "no_final ?bs"
    and sb: "screen b = tty0 (ink b) (pen_in ?pl ?bs (rstyle w))"
    using assms(1) by (simp_all add: at_row_def prefixed_def pp_def)
  have cut: "take i (rb w) = pp @ a" "drop (Suc i) (rb w) = r"
    by (simp_all add: rb b i)
  define w2 where "w2 = w\<lparr>rb := pp @ a, rstyle := st, col := n + vis a, brk := None\<rparr>"
  have "at_row w2 p q n old bs a"
    using assms(1) a by (auto simp: at_row_def w2_def prefixed_def brk_ok_def pp_def)
  then obtain s where w3: "at_row (start_row False (end_row w2)) p q n old (bs @ [a @ s]) []"
    and s: "ink (a @ s) = ink a" by (rule end_row_at)
  define w3 where "w3 = start_row False (end_row w2)"
  have same: "start_row False (end_row (w\<lparr>rb := pp @ a, rstyle := st\<rparr>)) = w3"
    by (simp add: w2_def w3_def start_row_def end_row_def Let_def split: prod.split)
  define t where "t = (case st of None \<Rightarrow> [] | Some s \<Rightarrow> style_bytes w3 s)"
  have w3f: "plain (wout w3) = ?pl" "base w3 = ?bs" "rb w3 = q" "col w3 = n" "brk w3 = None"
    using w3 by (auto simp: w3_def w2_def start_row_def end_row_def at_row_def Let_def row_def
        split: prod.split)
  have break: "break_row w = w3\<lparr>rb := q @ t @ r, rstyle := rstyle w, col := n + vis r\<rparr>"
    using wd brk same by (cases st) (simp_all add: break_row_def cut t_def w3f Let_def)
  have "feed (tty0 (ink a @ [glyph (pen_in ?pl ?bs st) 32]) (pen_in ?pl ?bs st)) r
      = tty0 (ink b) (pen_in ?pl ?bs (rstyle w))"
    using sb by (simp add: b a)
  then obtain k where k': "ink b = (ink a @ [glyph (pen_in ?pl ?bs st) 32]) @ k"
    and r: "feed (tty0 [] (pen_in ?pl ?bs st)) r = tty0 k (pen_in ?pl ?bs (rstyle w))"
    by (rule feed_tty0_rest)
  then have k: "ink b = ink a @ glyph (pen_in ?pl ?bs st) 32 # k" by simp
  have st: "screen (t @ r) = tty0 (ink (t @ r)) (pen_in ?pl ?bs (rstyle w))" "ink (t @ r) = k"
    using style_bytes_feed [of w3 st] base w3f r by (simp_all add: t_def ink_def)
  have vr: "vis r = vis (t @ r)"
    using st(2) r by (simp add: vis_ink [of "t @ r"] vis_shown [of r "pen_in ?pl ?bs st"])
  have "at_row (break_row w) p q n old (bs @ [a @ s]) (t @ r)"
    using w3 st(1) vr w3f unfolding w3_def [symmetric] break
    by (auto simp: at_row_def prefixed_def brk_ok_def)
  moreover have "\<exists>y. fst y = 32 \<and> snd y \<noteq> None \<and> ink b = ink (a @ s) @ y # ink (t @ r)"
    unfolding s st(2) k by (intro exI conjI) (auto simp: glyph_def)
  moreover have "0 < cols (ink (a @ s))" using a0 by (simp add: s vis_ink)
  moreover have "vis (a @ s) < vis b" "vis (t @ r) < vis b"
    using a0 by (simp_all add: vis_ink s st(2) k)
  ultimately show thesis using that by blast
qed

subsection \<open>One byte of text\<close>

text \<open>What a byte of text puts on the terminal, with the style wanted at that point.\<close>

definition text_byte :: "byte \<Rightarrow> byte" where
  "text_byte c = (if c = 9 then 32 else c)"

definition put_glyphs :: "wrap \<Rightarrow> byte \<Rightarrow> glyph list" where
  "put_glyphs w c =
     (if text_byte c < 32 \<or> c = 127 then []
      else [glyph (pen_of (plain (wout w)) (base w) (cur w)) (text_byte c)])"

text \<open>The finished rows show a part of the text, the current one the rest.\<close>

definition body_text :: "wrap \<Rightarrow> byte list list \<Rightarrow> byte list \<Rightarrow> glyph list \<Rightarrow> bool" where
  "body_text w bs b t \<longleftrightarrow>
     (\<exists>u v. t = u @ v \<and> rows_show (words w) (map ink bs) u \<and> row_shows (words w) (ink b) v)"

lemma body_text_cong: "words w' = words w \<Longrightarrow> body_text w' = body_text w"
  by (simp add: body_text_def fun_eq_iff)

lemma body_text_rows: "body_text w bs b t \<Longrightarrow> ink b' = ink b \<Longrightarrow> rows_show (words w) (map ink (bs @ [b'])) t"
  unfolding body_text_def map_append list.map rows_show_snoc by simp

lemma body_text_Nil: "body_text w [] [] []"
  by (auto simp: body_text_def rows_show_def row_shows_refl)

lemma body_text_snoc:
  assumes "body_text w bs b t" and "ink b' = ink b @ [x]"
  shows "body_text w bs b' (t @ [x])"
proof -
  from assms(1) obtain u v where "t = u @ v" "rows_show (words w) (map ink bs) u" "row_shows (words w) (ink b) v"
    by (auto simp: body_text_def)
  with row_shows_snoc [OF this(3), of x] assms(2) show ?thesis
    unfolding body_text_def by (intro exI [of _ u] exI [of _ "v @ [x]"]) simp
qed

lemma body_text_blank:
  assumes "body_text w bs b t" and "words w" and "cols (ink b) = 0"
  shows "body_text w bs b (t @ [glyph p 32])"
proof -
  from assms(1,2) obtain u v where "t = u @ v" "rows_show True (map ink bs) u" "row_shows True (ink b) v"
    by (auto simp: body_text_def)
  with row_shows_blank [OF this(3) assms(3), of "glyph p 32"] assms(2) show ?thesis
    unfolding body_text_def by (intro exI [of _ u] exI [of _ "v @ [glyph p 32]"]) (simp add: glyph_def)
qed

lemma body_text_new_row: "body_text w bs b t \<Longrightarrow> ink b' = ink b \<Longrightarrow> body_text w (bs @ [b']) [] t"
  using body_text_rows [of w bs b t b'] row_shows_refl [of "words w" "[]"]
  unfolding body_text_def [of w "bs @ [b']"] by (intro exI [of _ t] exI [of _ "[]"]) simp

lemma body_text_break:
  assumes "body_text w bs b t" and "words w" and "ink b = ink x @ y # ink b'" and "0 < cols (ink x)"
    and "fst y = 32" and "snd y \<noteq> None"
  shows "body_text w (bs @ [x]) b' t"
proof -
  from assms(1-3) obtain u v where t: "t = u @ v" "rows_show True (map ink bs) u"
    "row_shows True (ink x @ y # ink b') v"
    by (auto simp: body_text_def)
  from row_shows_break [OF t(3) assms(4-6)] obtain v1 v2 where v: "v = v1 @ v2" "row_shows True (ink x) v1"
    "row_shows True (ink b') v2" by blast
  then have "rows_show True (map ink (bs @ [x])) (u @ v1)"
    unfolding map_append list.map rows_show_snoc using t(2) by blast
  then show ?thesis
    using v t(1) assms(2) unfolding body_text_def by (intro exI [of _ "u @ v1"] exI [of _ v2]) simp
qed

text \<open>No row is wider than the screen, given that the prefix leaves room for a character.\<close>

definition narrow :: "wrap \<Rightarrow> nat \<Rightarrow> byte list list \<Rightarrow> byte list \<Rightarrow> bool" where
  "narrow w n bs b \<longleftrightarrow> (int n < out_W (wout w) \<longrightarrow>
     (\<forall>x\<in>set bs \<union> {b}. int (n + vis x) \<le> out_W (wout w)))"

lemma start_row_frame [simp]:
  "words (start_row f w) = words w" "cur (start_row f w) = cur w"
  "base (start_row f w) = base w" "started (start_row f w)"
  "plain (wout (start_row f w)) = plain (wout w)"
  "out_W (wout (start_row f w)) = out_W (wout w)"
  by (simp_all add: start_row_def Let_def split: prod.split)

lemma end_row_frame [simp]:
  "words (end_row w) = words w" "cur (end_row w) = cur w" "base (end_row w) = base w"
  "plain (wout (end_row w)) = plain (wout w)" "out_W (wout (end_row w)) = out_W (wout w)"
  by (simp_all add: end_row_def row_def Let_def)

lemma text_byte_127: "text_byte c = 127 \<longleftrightarrow> c = 127"
  by (simp add: text_byte_def)

text \<open>The row that receives the byte, after the check for a full row.\<close>

definition make_room :: "wrap \<Rightarrow> wrap" where
  "make_room w =
     (if int (col w) \<ge> out_W (wout w) \<or> length (rb w) > 900 then break_row w else w)"

lemma put_cases:
  assumes "started w"
  shows "put w c =
     (let c = text_byte c in
      if c < 32 \<or> c = 127 then w
      else if is_cont c then w\<lparr>rb := rb w @ [c]\<rparr>
      else if c = 32 \<and> words w then
        if col w = pcol w then w
        else if int (col w) \<ge> out_W (wout w) then start_row False (end_row w)
        else let w = apply_style w
             in w\<lparr>rb := rb w @ [32], col := col w + 1, brk := Some (length (rb w), rstyle w)\<rparr>
      else let w = apply_style (make_room w)
           in w\<lparr>rb := rb w @ [c], col := col w + 1\<rparr>)"
  using assms by (simp add: put_def text_byte_def make_room_def Let_def)

definition lays :: "wrap \<Rightarrow> byte list \<Rightarrow> byte list \<Rightarrow> nat \<Rightarrow> byte list list \<Rightarrow> glyph list \<Rightarrow> bool" where
  "lays w p q n old txt \<longleftrightarrow>
     (\<exists>bs b. at_row w p q n old bs b \<and> body_text w bs b txt \<and> narrow w n bs b)"

lemma make_room_at:
  assumes "at_row w p q n old bs b" and "narrow w n bs b" and "body_text w bs b t"
  obtains bs' b' where "at_row (make_room w) p q n old bs' b'"
    and "body_text w bs' b' t" and "narrow w n bs' b'"
    and "int n < out_W (wout w) \<longrightarrow> int (n + vis b') < out_W (wout w)"
proof -
  consider "make_room w = w" "int (col w) < out_W (wout w)"
    | "make_room w = break_row w" "has_brk w"
    | "make_room w = start_row False (end_row w)"
    unfolding make_room_def by (meson break_row_plain not_le)
  then show thesis
  proof cases
    case 1
    then show ?thesis using assms by (intro that [of bs b]) (auto simp: at_row_def)
  next
    case 2
    obtain x b' where x: "at_row (break_row w) p q n old (bs @ [x]) b'"
      and ink: "\<exists>y. fst y = 32 \<and> snd y \<noteq> None \<and> ink b = ink x @ y # ink b'" "0 < cols (ink x)"
      and v: "vis x < vis b" "vis b' < vis b"
      using assms(1) 2(2) by (rule break_at)
    have "words w" using 2(2) by (simp add: has_brk_def)
    then have "body_text w (bs @ [x]) b' t" using body_text_break [OF assms(3)] ink by blast
    then show ?thesis
      using x v 2(1) assms(2)
      by (intro that [of "bs @ [x]" b']) (auto simp: narrow_def)
  next
    case 3
    obtain s where s: "at_row (start_row False (end_row w)) p q n old (bs @ [b @ s]) []"
      and ink: "ink (b @ s) = ink b"
      using assms(1) by (rule end_row_at)
    have "vis (b @ s) = vis b" by (simp add: vis_ink ink)
    then show ?thesis
      using 3 s body_text_new_row [OF assms(3) ink] assms(2)
      by (intro that [of "bs @ [b @ s]" "[]"]) (auto simp: narrow_def)
  qed
qed

lemma make_room_frame [simp]:
  "words (make_room w) = words w" "cur (make_room w) = cur w" "base (make_room w) = base w"
  "plain (wout (make_room w)) = plain (wout w)" "out_W (wout (make_room w)) = out_W (wout w)"
  by (simp_all add: make_room_def)

lemma at_row_no_final: "at_row w p q n old bs b \<Longrightarrow> no_final (base w)"
  by (simp add: at_row_def prefixed_def)

lemma put_cont_lays:
  assumes "at_row w p q n old bs b" and "narrow w n bs b" and "body_text w bs b t" and "is_cont c"
  shows "lays (w\<lparr>rb := rb w @ [c]\<rparr>) p q n old (t @ [glyph s c])"
proof -
  have c: "c \<noteq> 27" using assms(4) by (auto simp: is_cont_def)
  note a = append_at [OF assms(1) c refl]
  have v: "vis (b @ [c]) = vis b"
    using a(2) assms(4) by (simp add: vis_ink glyph_def cols_def del: feed_append)
  have "at_row (w\<lparr>rb := rb w @ [c]\<rparr>) p q n old bs (b @ [c])" using a(1) assms(4) by simp
  moreover have "body_text w bs (b @ [c]) (t @ [glyph s c])"
    by (rule body_text_snoc [OF assms(3)], subst a(2)) (simp add: glyph_def assms(4))
  ultimately show ?thesis
    unfolding lays_def using assms(2) v
    by (intro exI [of _ bs] exI [of _ "b @ [c]"]) (auto simp: narrow_def body_text_cong [of "w\<lparr>rb := rb w @ [c]\<rparr>" w])
qed

lemma put_space_lays:
  assumes "at_row w p q n old bs b" and "narrow w n bs b" and "body_text w bs b t"
    and "col w \<noteq> pcol w" and "int (col w) < out_W (wout w)"
  shows "lays (let w = apply_style w
      in w\<lparr>rb := rb w @ [32], col := col w + 1, brk := Some (length (rb w), rstyle w)\<rparr>)
     p q n old (t @ [glyph (pen_of (plain (wout w)) (base w) (cur w)) 32])"
proof -
  let ?b = "b @ style_change w"
  note a = apply_style_at [OF assms(1)]
  have "col (apply_style w) \<noteq> pcol (apply_style w)" using assms(4) by simp
  note s = space_at [OF a(1) this refl]
  have "vis (?b @ [32]) = vis b + 1"
    by (simp add: vis_ink s(2) a(2) del: feed_append append_assoc)
  moreover have "col w = n + vis b" using assms(1) by (simp add: at_row_def)
  moreover have "pen_in (plain (wout w)) (base w) (rstyle (apply_style w)) = pen_of (plain (wout w)) (base w) (cur w)"
    using style_change_feed(2) [of w] at_row_no_final [OF assms(1)] by simp
  then have "body_text w bs (?b @ [32]) (t @ [glyph (pen_of (plain (wout w)) (base w) (cur w)) 32])"
    using body_text_snoc [OF assms(3)] s(2) a(2) by simp
  ultimately show ?thesis
    unfolding lays_def Let_def using s(1) assms(2,5)
    by (intro exI [of _ bs] exI [of _ "?b @ [32]"])
      (auto simp: narrow_def body_text_def simp del: append_assoc apply_style_frame(11))
qed

lemma put_char_lays:
  assumes "at_row w p q n old bs b" and "narrow w n bs b" and "body_text w bs b t"
    and "c \<noteq> 27" and "\<not> is_cont c"
  shows "lays (let w = apply_style (make_room w) in w\<lparr>rb := rb w @ [c], col := col w + 1\<rparr>)
     p q n old (t @ [glyph (pen_of (plain (wout w)) (base w) (cur w)) c])"
proof -
  obtain bs' b' where r: "at_row (make_room w) p q n old bs' b'"
    and t: "body_text w bs' b' t" and nr: "narrow w n bs' b'"
    and room: "int n < out_W (wout w) \<longrightarrow> int (n + vis b') < out_W (wout w)"
    using assms(1-3) by (rule make_room_at)
  let ?b = "b' @ style_change (make_room w)"
  note a = apply_style_at [OF r]
  note s = append_at [OF a(1) assms(4) refl]
  have pen: "pen_in (plain (wout w)) (base w) (rstyle (apply_style (make_room w)))
      = pen_of (plain (wout w)) (base w) (cur w)"
    using style_change_feed(2) [of "make_room w"] at_row_no_final [OF r] by simp
  have "vis (?b @ [c]) = vis b' + 1"
    using assms(5) by (simp add: vis_ink s(2) a(2) del: feed_append append_assoc)
  moreover have "body_text w bs' (?b @ [c]) (t @ [glyph (pen_of (plain (wout w)) (base w) (cur w)) c])"
    using body_text_snoc [OF t] s(2) a(2) pen by simp
  ultimately show ?thesis
    unfolding lays_def Let_def using s(1) nr room assms(5)
    by (intro exI [of _ bs'] exI [of _ "?b @ [c]"])
      (auto simp: narrow_def body_text_def simp del: append_assoc apply_style_frame(11))
qed

lemma put_lays_started:
  assumes "started w" and "lays w p q n old txt"
  shows "lays (put w c) p q n old (txt @ put_glyphs w c)"
proof -
  obtain bs b where r: "at_row w p q n old bs b" and t: "body_text w bs b txt"
    and nr: "narrow w n bs b"
    using assms(2) by (auto simp: lays_def)
  let ?c = "text_byte c"
  consider "?c < 32 \<or> ?c = 127"
    | "\<not> (?c < 32 \<or> ?c = 127)" "is_cont ?c"
    | "\<not> (?c < 32 \<or> ?c = 127)" "\<not> is_cont ?c" "?c = 32" "words w"
    | "\<not> (?c < 32 \<or> ?c = 127)" "\<not> is_cont ?c" "\<not> (?c = 32 \<and> words w)"
    by blast
  then show ?thesis
  proof cases
    case 1
    then show ?thesis
      using assms by (simp add: put_cases put_glyphs_def text_byte_127 Let_def)
  next
    case 2
    then show ?thesis
      using assms(1) put_cont_lays [OF r nr t 2(2)]
      by (simp add: put_cases put_glyphs_def text_byte_127 Let_def)
  next
    case 3
    let ?sp = "glyph (pen_of (plain (wout w)) (base w) (cur w)) 32"
    have one: "put_glyphs w c = [?sp]"
      using 3 by (auto simp: put_glyphs_def text_byte_def)
    consider "col w = pcol w" | "col w \<noteq> pcol w" "out_W (wout w) \<le> int (col w)"
      | "col w \<noteq> pcol w" "int (col w) < out_W (wout w)"
      by linarith
    then show ?thesis
    proof cases
      case 1
      then have "cols (ink b) = 0" using r by (simp add: at_row_def vis_ink)
      then have "lays w p q n old (txt @ [?sp])"
        using r nr body_text_blank [OF t 3(4)] unfolding lays_def by blast
      then show ?thesis using assms(1) 3 1 one by (simp add: put_cases Let_def)
    next
      case 2
      obtain s where s: "at_row (start_row False (end_row w)) p q n old (bs @ [b @ s]) []"
        and ink: "ink (b @ s) = ink b"
        using r by (rule end_row_at)
      have "vis (b @ s) = vis b" by (simp add: vis_ink ink)
      then have "lays (start_row False (end_row w)) p q n old (txt @ [?sp])"
        unfolding lays_def using s nr body_text_blank [OF body_text_new_row [OF t ink] 3(4)]
        by (intro exI [of _ "bs @ [b @ s]"] exI [of _ "[]"])
          (auto simp: narrow_def body_text_cong [of "start_row False (end_row w)" w])
      then show ?thesis using assms(1) 3 2 one by (simp add: put_cases Let_def)
    next
      case full: 3
      then show ?thesis
        using assms(1) 3 one put_space_lays [OF r nr t full] by (simp add: put_cases Let_def)
    qed
  next
    case 4
    then have "?c \<noteq> 27" by auto
    then show ?thesis
      using assms(1) 4 put_char_lays [OF r nr t _ 4(2)]
      by (auto simp: put_cases put_glyphs_def text_byte_127 Let_def)
  qed
qed

subsection \<open>A whole block\<close>

definition laid :: "wrap \<Rightarrow> byte list \<Rightarrow> byte list \<Rightarrow> nat \<Rightarrow> byte list list \<Rightarrow> glyph list \<Rightarrow> bool" where
  "laid w p q n old txt \<longleftrightarrow>
     (if started w then lays w p q n old txt
      else prefixed w p q n \<and> old = rows (pay_blank (wout w)) \<and> txt = [])"

lemma put_starts: "\<not> started w \<Longrightarrow> put w c = put (start_row True w) c"
  by (simp add: put_def)

lemma start_row_lays:
  assumes "laid w p q n old txt" and "\<not> started w"
  shows "lays (start_row True w) p q n old txt"
proof -
  have "at_row (start_row True w) p q n old [] []"
    using assms start_row_at [of w p q n] by (simp add: laid_def)
  then show ?thesis
    unfolding lays_def using assms
    by (intro exI [of _ "[]"] exI [of _ "[]"])
      (simp add: body_text_Nil narrow_def laid_def)
qed

lemma put_started: "started (put w c)"
proof (cases "started w")
  case True
  then show ?thesis
    by (auto simp: put_cases Let_def make_room_def break_row_def split: option.split prod.split)
next
  case False
  then show ?thesis
    by (auto simp: put_starts [OF False] put_cases Let_def make_room_def break_row_def
        split: option.split prod.split)
qed

lemma put_laid:
  assumes "laid w p q n old txt"
  shows "laid (put w c) p q n old (txt @ put_glyphs w c)"
proof (cases "started w")
  case True
  then show ?thesis
    using assms put_lays_started [of w p q n old "txt" c] put_started [of w c]
    by (simp add: laid_def)
next
  case False
  have "put_glyphs (start_row True w) c = put_glyphs w c"
    by (simp add: put_glyphs_def)
  then show ?thesis
    using put_lays_started [OF _ start_row_lays [OF assms False], of c] put_started [of w c]
    by (simp add: laid_def put_starts [OF False])
qed

lemma restyle_laid [simp]: "laid (w\<lparr>cur := s\<rparr>) p q n old txt = laid w p q n old txt"
  by (simp add: laid_def lays_def at_row_def prefixed_def brk_ok_def body_text_def narrow_def)

text \<open>
  The rows \<open>rs\<close> of a finished block: behind the prefixes they show the text, in a block of
  words without the spaces before the first character of a row, every one ends with the
  terminal reset, and none is too wide.
\<close>

definition block_shows :: "bool \<Rightarrow> int \<Rightarrow> byte list \<Rightarrow> byte list \<Rightarrow> nat \<Rightarrow> glyph list
    \<Rightarrow> byte list list \<Rightarrow> bool" where
  "block_shows wd W p q n txt rs \<longleftrightarrow>
     (\<exists>bs. bs \<noteq> [] \<and> rs = with_prefix p q bs \<and> rows_show wd (map ink bs) txt
       \<and> (\<forall>b\<in>set bs. closed_row b)
       \<and> (int n < W \<longrightarrow> (\<forall>b\<in>set bs. int (n + vis b) \<le> W)))"

lemma finish_lays:
  assumes "lays w p q n old txt" and "started w"
  shows "\<exists>rs. rows (wout (finish w)) = old @ rs
     \<and> block_shows (words w) (out_W (wout w)) p q n txt rs"
proof -
  obtain bs b where r: "at_row w p q n old bs b" and t: "body_text w bs b txt"
    and nr: "narrow w n bs b"
    using assms by (auto simp: lays_def)
  obtain s where s: "at_row (start_row False (end_row w)) p q n old (bs @ [b @ s]) []"
    and ink: "ink (b @ s) = ink b"
    using r by (rule end_row_at)
  have blank: "\<not> need_blank (wout (end_row w))"
    using r by (simp add: at_row_def end_row_def row_def Let_def)
  have "rows (wout (finish w)) = rows (wout (start_row False (end_row w)))"
    using assms(2) blank by (simp add: finish_def start_row_def Let_def split: prod.split)
  also have "\<dots> = old @ with_prefix p q (bs @ [b @ s])"
    using s by (simp only: at_row_def)
  finally have rows: "rows (wout (finish w)) = old @ with_prefix p q (bs @ [b @ s])" .
  have "vis (b @ s) = vis b" by (simp add: vis_ink ink)
  then have "block_shows (words w) (out_W (wout w)) p q n txt (with_prefix p q (bs @ [b @ s]))"
    unfolding block_shows_def using s body_text_rows [OF t ink] nr
    by (intro exI [of _ "bs @ [b @ s]"]) (auto simp: at_row_def narrow_def)
  with rows show ?thesis by blast
qed

lemma finish_laid:
  assumes "laid w p q n old txt"
  shows "\<exists>rs. rows (wout (finish w)) = old @ rs
     \<and> block_shows (words w) (out_W (wout w)) p q n txt rs"
proof (cases "started w")
  case True
  then show ?thesis using assms finish_lays by (simp add: laid_def)
next
  case False
  have "finish w = finish (start_row True w)"
    using False by (simp add: finish_def)
  then show ?thesis
    using finish_lays [OF start_row_lays [OF assms False]] by simp
qed

text \<open>A text with its styles: the bytes a block is given, each with \<open>cur\<close> set first.\<close>

definition emit :: "wrap \<Rightarrow> byte \<times> int \<Rightarrow> wrap" where
  "emit w e = put (w\<lparr>cur := snd e\<rparr>) (fst e)"

definition emits :: "wrap \<Rightarrow> (byte \<times> int) list \<Rightarrow> wrap" where
  "emits w evs = foldl emit w evs"

definition emitted :: "wrap \<Rightarrow> (byte \<times> int) list \<Rightarrow> glyph list" where
  "emitted w evs = concat (map (\<lambda>(c, st). put_glyphs (w\<lparr>cur := st\<rparr>) c) evs)"

lemma put_frame [simp]:
  "words (put w c) = words w" "cur (put w c) = cur w" "base (put w c) = base w"
  "plain (wout (put w c)) = plain (wout w)" "out_W (wout (put w c)) = out_W (wout w)"
  by (simp_all add: put_def Let_def)

lemma emits_frame [simp]:
  "words (emits w evs) = words w" "base (emits w evs) = base w"
  "plain (wout (emits w evs)) = plain (wout w)" "out_W (wout (emits w evs)) = out_W (wout w)"
  unfolding emits_def by (induction evs arbitrary: w) (simp_all add: emit_def)

lemma put_glyphs_cong:
  "words w = words w' \<Longrightarrow> plain (wout w) = plain (wout w') \<Longrightarrow> base w = base w' \<Longrightarrow> cur w = cur w'
   \<Longrightarrow> put_glyphs w c = put_glyphs w' c"
  by (simp add: put_glyphs_def)

lemma emitted_cong:
  "words w = words w' \<Longrightarrow> plain (wout w) = plain (wout w') \<Longrightarrow> base w = base w'
   \<Longrightarrow> emitted w evs = emitted w' evs"
  unfolding emitted_def
  by (intro arg_cong [of _ _ concat] map_cong refl) (auto intro: put_glyphs_cong)

lemma emits_laid:
  "laid w p q n old txt \<Longrightarrow> laid (emits w evs) p q n old (txt @ emitted w evs)"
proof (induction evs arbitrary: w "txt")
  case Nil
  then show ?case by (simp add: emits_def emitted_def)
next
  case (Cons e evs)
  have "laid (emit w e) p q n old (txt @ put_glyphs (w\<lparr>cur := snd e\<rparr>) (fst e))"
    unfolding emit_def by (rule put_laid) (simp add: Cons.prems)
  from Cons.IH [OF this] have "laid (emits w (e # evs)) p q n old
      ((txt @ put_glyphs (w\<lparr>cur := snd e\<rparr>) (fst e)) @ emitted (emit w e) evs)"
    by (simp add: emits_def)
  moreover have "emitted (emit w e) evs = emitted w evs"
    by (rule emitted_cong) (simp_all add: emit_def)
  ultimately show ?case by (simp add: emitted_def split_beta)
qed

section \<open>What every caller of \<open>put\<close> keeps\<close>

text \<open>
  The renderer above touches a block only through \<open>put\<close> and the attribute \<open>cur\<close>. A
  property of the block that both keep is kept by all of it.
\<close>

locale wrap_property =
  fixes P :: "wrap \<Rightarrow> bool"
  assumes put_keeps: "P w \<Longrightarrow> P (put w c)"
    and restyle_keeps: "P w \<Longrightarrow> P (w\<lparr>cur := s\<rparr>)"
begin

lemma puts_keep: "P w \<Longrightarrow> P (foldl put w cs)"
  by (induction cs arbitrary: w) (auto intro: put_keeps)

lemma emits_keep: "P w \<Longrightarrow> P (emits w evs)"
  unfolding emits_def
  by (induction evs arbitrary: w) (auto simp: emit_def intro: put_keeps restyle_keeps)

end

interpretation lay: wrap_property "\<lambda>w. \<exists>txt. laid w p q n old txt" for p q n old
  by unfold_locales (auto intro: put_laid)

text \<open>Everything a caller does to a block is a sequence of styled bytes.\<close>

definition traced :: "wrap \<Rightarrow> wrap \<Rightarrow> bool" where
  "traced w0 w \<longleftrightarrow> (\<exists>evs s. w = (emits w0 evs)\<lparr>cur := s\<rparr>)"

lemma emits_snoc: "emits w (evs @ [e]) = emit (emits w evs) e"
  by (simp add: emits_def)

interpretation trace: wrap_property "traced w0" for w0
proof
  fix w c
  assume "traced w0 w"
  then obtain evs s where w: "w = (emits w0 evs)\<lparr>cur := s\<rparr>" by (auto simp: traced_def)
  have "put w c = (emits w0 (evs @ [(c, s)]))\<lparr>cur := s\<rparr>"
    by (simp add: emits_snoc emit_def w)
  then show "traced w0 (put w c)" unfolding traced_def by blast
next
  fix w s
  assume "traced w0 w"
  then obtain evs s' where "w\<lparr>cur := s\<rparr> = (emits w0 evs)\<lparr>cur := s\<rparr>"
    by (auto simp: traced_def)
  then show "traced w0 (w\<lparr>cur := s\<rparr>)" unfolding traced_def by blast
qed

lemma traced_refl: "traced w w"
  unfolding traced_def by (intro exI [of _ "[]"] exI [of _ "cur w"]) (simp add: emits_def)

text \<open>In plain mode nothing but printable bytes reaches a row.\<close>

definition printable :: "byte \<Rightarrow> bool" where
  "printable c \<longleftrightarrow> \<not> c < 32 \<and> c \<noteq> 127"

definition printable_rows :: "byte list list \<Rightarrow> bool" where
  "printable_rows rs \<longleftrightarrow> (\<forall>r\<in>set rs. \<forall>c\<in>set r. printable c)"

definition plain_wrap :: "wrap \<Rightarrow> bool" where
  "plain_wrap w \<longleftrightarrow>
     plain (wout w) \<and> printable_rows (rows (wout w))
     \<and> (\<forall>c\<in>set (fst (fp w True [])). printable c) \<and> (\<forall>c\<in>set (fst (cp w True [])). printable c)
     \<and> (started w \<longrightarrow> (\<forall>c\<in>set (rb w). printable c))"

lemma rows_pay_blank: "rows (pay_blank ou) = rows ou \<or> rows (pay_blank ou) = rows ou @ [[]]"
  by (simp add: pay_blank_def row_def)

lemma plain_pay_blank: "printable_rows (rows (pay_blank ou)) = printable_rows (rows ou)"
  using rows_pay_blank [of ou] by (auto simp: printable_rows_def)

lemma start_row_plain: "plain_wrap w \<Longrightarrow> plain_wrap (start_row f w)"
  by (auto simp: plain_wrap_def start_row_def Let_def plain_pay_blank split: prod.split)

lemma end_row_plain: "plain_wrap w \<Longrightarrow> started w \<Longrightarrow> plain_wrap (end_row w)"
  by (auto simp: plain_wrap_def end_row_def row_def printable_rows_def)

lemma end_row_started [simp]: "started (end_row w) = started w"
  by (simp add: end_row_def Let_def)

lemma apply_style_plain: "plain_wrap w \<Longrightarrow> started w \<Longrightarrow> plain_wrap (apply_style w)"
  by (auto simp: plain_wrap_def apply_style_def style_bytes_def)

lemma break_row_plain_wrap:
  assumes "plain_wrap w" and "started w"
  shows "plain_wrap (break_row w)"
proof (cases "has_brk w")
  case False
  then show ?thesis
    using assms by (simp add: break_row_plain start_row_plain end_row_plain)
next
  case True
  then obtain i st where b: "words w" "brk w = Some (i, st)" by (auto simp: has_brk_def)
  define w1 where "w1 = start_row False (end_row (w\<lparr>rb := take i (rb w), rstyle := st\<rparr>))"
  have "plain_wrap (w\<lparr>rb := take i (rb w), rstyle := st\<rparr>)"
    using assms by (auto simp: plain_wrap_def dest: in_set_takeD)
  then have w1: "plain_wrap w1" "started w1"
    using assms(2) unfolding w1_def by (simp_all add: start_row_plain end_row_plain)
  have eq: "break_row w = w1\<lparr>rb := rb w1 @ drop (Suc i) (rb w), rstyle := rstyle w,
      col := col w1 + vis (drop (Suc i) (rb w))\<rparr>"
    using b assms(1) unfolding w1_def
    by (cases st) (simp_all add: break_row_def Let_def style_bytes_def plain_wrap_def)
  show ?thesis
    unfolding eq using w1 assms by (auto simp: plain_wrap_def dest: in_set_dropD)
qed

lemma make_room_plain_wrap: "plain_wrap w \<Longrightarrow> started w \<Longrightarrow> plain_wrap (make_room w)"
  by (simp add: make_room_def break_row_plain_wrap)

lemma started_steps [simp]:
  "started (break_row w) = True" "started w \<Longrightarrow> started (make_room w)"
  by (auto simp: break_row_def make_room_def Let_def split: option.split)

lemma plain_wrap_append:
  "plain_wrap w \<Longrightarrow> started w \<Longrightarrow> printable c \<Longrightarrow> plain_wrap (w\<lparr>rb := rb w @ [c], col := n\<rparr>)"
  by (auto simp: plain_wrap_def)

lemma plain_wrap_fields [simp]:
  "plain_wrap (w\<lparr>cur := s\<rparr>) = plain_wrap w" "plain_wrap (w\<lparr>brk := x\<rparr>) = plain_wrap w"
  "plain_wrap (w\<lparr>col := m\<rparr>) = plain_wrap w"
  by (simp_all add: plain_wrap_def)

lemma put_plain_started:
  assumes "plain_wrap w" and "started w"
  shows "plain_wrap (put w c)"
proof (cases "text_byte c < 32 \<or> text_byte c = 127")
  case False
  then have c: "printable (text_byte c)" and sp: "printable 32" by (auto simp: printable_def)
  have "plain_wrap (w\<lparr>rb := rb w @ [text_byte c]\<rparr>)"
    using assms c by (auto simp: plain_wrap_def)
  moreover have "plain_wrap (apply_style (make_room w))" "started (apply_style (make_room w))"
    using assms by (simp_all add: apply_style_plain make_room_plain_wrap)
  moreover have "plain_wrap (apply_style w)" "started (apply_style w)"
    using assms by (simp_all add: apply_style_plain)
  ultimately show ?thesis
    using assms c sp False plain_wrap_append [of "apply_style (make_room w)" "text_byte c"]
      plain_wrap_append [of "apply_style w" 32]
    by (auto simp: put_cases Let_def start_row_plain end_row_plain
        simp del: apply_style_frame(11))
qed (use assms in \<open>auto simp: put_cases Let_def\<close>)

lemma put_plain: "plain_wrap w \<Longrightarrow> plain_wrap (put w c)"
  by (cases "started w") (auto simp: put_plain_started put_starts start_row_plain)

interpretation printing: wrap_property plain_wrap
  by unfold_locales (auto intro: put_plain)

lemma finish_plain:
  assumes "plain_wrap w"
  shows "printable_rows (rows (wout (finish w)))"
proof -
  have "plain_wrap (end_row (if started w then w else start_row True w))"
    using assms by (auto simp: end_row_plain start_row_plain)
  then show ?thesis by (simp add: finish_def Let_def plain_wrap_def)
qed

section \<open>The properties of the row builder\<close>

lemma good_prefix_spaces: "good_prefix (replicate n 32) n"
proof -
  have "screen (replicate n 32) = tty0 (map (glyph plain_pen) (replicate n 32)) plain_pen"
    by (subst feed_text) simp_all
  moreover have "cols (replicate n (glyph plain_pen 32)) = n"
    by (induction n) simp_all
  ultimately show ?thesis by (simp add: good_prefix_def vis_ink ink_def)
qed

lemma prefixed_spaces:
  "no_final bs \<Longrightarrow>
   prefixed (init_wrap ou wd (spaces m) (spaces m) bs) (replicate m 32) (replicate m 32) m"
  by (simp add: prefixed_def init_wrap_def spaces_def good_prefix_spaces)

lemma finish_frame [simp]:
  "plain (wout (finish w)) = plain (wout w)" "out_W (wout (finish w)) = out_W (wout w)"
  by (simp_all add: finish_def Let_def)

lemma init_wrap_simps [simp]:
  "wout (init_wrap ou wd f g bs) = ou" "words (init_wrap ou wd f g bs) = wd"
  "fp (init_wrap ou wd f g bs) = f" "cp (init_wrap ou wd f g bs) = g"
  "base (init_wrap ou wd f g bs) = bs" "cur (init_wrap ou wd f g bs) = 0"
  "\<not> started (init_wrap ou wd f g bs)"
  by (simp_all add: init_wrap_def)

lemma block_of_trace:
  assumes "prefixed w p q n" and "\<not> started w" and "traced w w'"
  obtains evs rs where "rows (wout (finish w')) = rows (pay_blank (wout w)) @ rs"
    and "block_shows (words w) (out_W (wout w)) p q n (emitted w evs) rs"
proof -
  obtain evs s where w': "w' = (emits w evs)\<lparr>cur := s\<rparr>"
    using assms(3) by (auto simp: traced_def)
  have "laid w p q n (rows (pay_blank (wout w))) []"
    using assms(1,2) by (simp add: laid_def)
  from emits_laid [OF this, of evs]
  have "laid w' p q n (rows (pay_blank (wout w))) (emitted w evs)"
    by (simp add: w')
  from finish_laid [OF this] that show thesis by (auto simp: w')
qed

text \<open>
  C7. A block is given styled bytes: each with \<open>cur\<close> set to its style, then
  \<open>put\<close>. The rows \<open>finish\<close> leaves in the document, after the rows that were there
  and the blank row that was due, show exactly these bytes, in their order and each in its
  style (a block of words leaves out the spaces before the first character of a row, which
  is where a row broken at a space drops it, and every other space is shown; control bytes
  are dropped and a tab counts as a space), behind the first prefix on the first row and the
  continuation prefix on the others. Every row ends with the terminal reset, and none is
  wider than the screen if the prefix is narrower than the screen.
\<close>

theorem wrap_shows_the_text:
  assumes "prefixed (init_wrap ou wd f g bs) p q n"
  shows "\<exists>rs. rows (wout (finish (emits (init_wrap ou wd f g bs) evs))) = rows (pay_blank ou) @ rs
     \<and> block_shows wd (out_W ou) p q n (emitted (init_wrap ou wd f g bs) evs) rs"
proof -
  have "laid (init_wrap ou wd f g bs) p q n (rows (pay_blank ou)) []"
    using assms by (simp add: laid_def)
  from finish_laid [OF emits_laid [OF this, of evs]] show ?thesis by simp
qed

theorem wrap_shows_the_text_witness:
  "\<exists>rs. rows (wout (finish (emits (init_wrap (init_out 20 False) True (spaces 2) (spaces 2) [])
        [(65, S_B), (32, 0), (66, 0)]))) = [] @ rs
     \<and> block_shows True 20 [32, 32] [32, 32] 2
         (emitted (init_wrap (init_out 20 False) True (spaces 2) (spaces 2) [])
           [(65, S_B), (32, 0), (66, 0)]) rs"
proof -
  have "prefixed (init_wrap (init_out 20 False) True (spaces 2) (spaces 2) [])
      [32, 32] [32, 32] 2"
    using prefixed_spaces [of "[]" "init_out 20 False" True 2] by (simp add: numeral_2_eq_2)
  from wrap_shows_the_text [OF this, of "[(65, S_B), (32, 0), (66, 0)]"]
  show ?thesis by (simp add: init_out_def pay_blank_def)
qed

text \<open>
  C8. \<open>vis\<close> counts exactly the columns a terminal uses for a row: the bytes it shows
  outside escape sequences, complete or cut off, that are not UTF-8 continuations.
\<close>

theorem vis_is_the_screen_width:
  "vis b = length (filter (\<lambda>x. \<not> is_cont (fst x)) (shown (screen b)))"
proof -
  have "filter (\<lambda>x. snd x \<noteq> None) (ink b) = filter (\<lambda>x. \<not> is_cont (fst x)) (ink b)"
    by (intro filter_cong refl) (simp add: ink_cont)
  then show ?thesis by (simp add: vis_ink cols_def) (simp add: ink_def)
qed
end
