(* ===== verification/Md_Inline_Safe.thy ===== *)
theory Md_Inline_Safe
  imports Md_Inline
begin

text \<open>
  The inline renderer on NUL-terminated texts: every scanner stays inside the text
  (\<open>run_len_total\<close>, \<open>find_code_close_total\<close>, \<open>emph_close_from_total\<close>,
  \<open>find_pair_total\<close>, \<open>angle_from_total\<close>), so the renderer raises no exception
  (\<open>render_keeps\<close>, proved for every property of the block that \<open>put\<close> and \<open>cur\<close>
  keep). Then two round trips: an escaped text is rendered literally, a code span verbatim.
\<close>

section \<open>NUL-terminated texts\<close>

definition nul_text :: "byte list \<Rightarrow> bool" where
  "nul_text t \<longleftrightarrow> t \<noteq> [] \<and> t ! (length t - 1) = 0 \<and> (\<forall>i<length t - 1. t ! i \<noteq> 0)"

abbreviation text_end :: "byte list \<Rightarrow> nat" where
  "text_end t \<equiv> length t - 1"

lemma nul_text_snoc: "nul_text (b @ [0]) \<longleftrightarrow> 0 \<notin> set b"
  by (auto simp: nul_text_def nth_append in_set_conv_nth)

lemma nul_text_idx:
  assumes "nul_text t" and "j \<le> text_end t"
  shows "idx t j = Inr (t ! j)"
proof -
  have "j < length t" using assms by (cases t) (auto simp: nul_text_def)
  then show ?thesis by simp
qed

lemma nul_text_zero:
  assumes "nul_text t" and "j \<le> text_end t"
  shows "t ! j = 0 \<longleftrightarrow> j = text_end t"
  using assms unfolding nul_text_def by (metis le_neq_implies_less)

lemma nul_text_less:
  assumes "nul_text t" and "j \<le> text_end t" and "t ! j \<noteq> 0"
  shows "j + 1 \<le> text_end t"
  using nul_text_zero [OF assms(1,2)] assms(2,3) by linarith

lemma run_from_total:
  "nul_text t \<Longrightarrow> ch \<noteq> 0 \<Longrightarrow> i + k \<le> text_end t \<Longrightarrow>
    \<exists>m. run_from t i ch k = Inr m \<and> i + m \<le> text_end t \<and> k \<le> m
      \<and> (\<forall>x. k \<le> x \<and> x < m \<longrightarrow> t ! (i + x) = ch) \<and> t ! (i + m) \<noteq> ch"
proof (induction t i ch k rule: run_from.induct)
  case (1 t i ch k)
  note at = nul_text_idx [OF 1(2,4)]
  show ?case
  proof (cases "t ! (i + k) = ch")
    case True
    then have "i + Suc k \<le> text_end t"
      using nul_text_less [OF 1(2,4)] 1(3) by simp
    from 1(1) [OF at True 1(2,3) this] obtain m where
      m: "run_from t i ch (Suc k) = Inr m" "i + m \<le> text_end t" "Suc k \<le> m"
      "\<forall>x. Suc k \<le> x \<and> x < m \<longrightarrow> t ! (i + x) = ch" "t ! (i + m) \<noteq> ch" by blast
    have "\<forall>x. k \<le> x \<and> x < m \<longrightarrow> t ! (i + x) = ch"
      using m(4) True by (metis Suc_leI le_neq_implies_less)
    with m True at show ?thesis by (subst run_from.simps) simp
  next
    case False
    with at 1(4) show ?thesis by (subst run_from.simps) auto
  qed
qed

lemma run_len_total:
  assumes "nul_text t" and "ch \<noteq> 0" and "i \<le> text_end t"
  obtains m where "run_len t i ch = Inr m" and "i + m \<le> text_end t"
    and "\<forall>x<m. t ! (i + x) = ch" and "t ! (i + m) \<noteq> ch" and "t ! i = ch \<Longrightarrow> 0 < m"
proof -
  obtain m where m: "run_len t i ch = Inr m" "i + m \<le> text_end t"
    "\<forall>x<m. t ! (i + x) = ch" "t ! (i + m) \<noteq> ch"
    using run_from_total [of t ch i 0] assms unfolding run_len_def by auto
  from m(1) have "t ! i = ch \<Longrightarrow> 0 < m" by (rule run_len_pos)
  with m that show thesis by blast
qed

lemma code_close_from_total:
  "nul_text t \<Longrightarrow> j \<le> text_end t \<Longrightarrow>
    \<exists>r. code_close_from t k j = Inr r \<and> (\<forall>e. r = Some e \<longrightarrow> j \<le> e \<and> e + k \<le> text_end t)"
proof (induction t k j rule: code_close_from.induct)
  case (1 t k j)
  note at = nul_text_idx [OF 1(3,4)] and next_le = nul_text_less [OF 1(3,4)]
  consider "t ! j = 0" | "t ! j \<noteq> 0" "t ! j \<noteq> 96" | "t ! j = 96" by blast
  then show ?case
  proof cases
    case 1
    with at show ?thesis by (subst code_close_from.simps) simp
  next
    case 2
    with 1(2) [OF at 2 1(3) next_le [OF 2(1)]] at show ?thesis
      by (subst code_close_from.simps) auto
  next
    case 3
    obtain m where m: "run_len t j 96 = Inr m" "j + m \<le> text_end t"
      using run_len_total [OF 1(3) _ 1(4), of 96] by auto
    show ?thesis
    proof (cases "m = k")
      case True
      with at m 3 show ?thesis by (subst code_close_from.simps) auto
    next
      case False
      with 1(1) [OF at _ 3 m(1) False 1(3) m(2)] at m 3 show ?thesis
        by (subst code_close_from.simps) auto
    qed
  qed
qed

lemma find_code_close_total:
  assumes "nul_text t" and "i + k \<le> text_end t"
  obtains r where "find_code_close t i k = Inr r"
    and "\<And>e. r = Some e \<Longrightarrow> i + k \<le> e \<and> e + k \<le> text_end t"
  using code_close_from_total [OF assms, of k] unfolding find_code_close_def by blast

lemma flank_total:
  assumes "nul_text t" and "i + k \<le> text_end t"
  shows "\<exists>r. flank t i k = Inr r"
proof -
  have "\<exists>p. (if i > 0 then idx t (i - 1) else Inr 32) = Inr p"
    using nul_text_idx [OF assms(1), of "i - 1"] assms(2) by auto
  then show ?thesis
    using nul_text_idx [OF assms] by (auto simp: flank_def Let_def)
qed

lemma can_total:
  assumes "nul_text t" and "i + k \<le> text_end t"
  shows "\<exists>b. can_open t i k ch = Inr b" and "\<exists>b. can_close t i k ch = Inr b"
  using flank_total [OF assms] by (auto simp: can_open_def can_close_def)

lemma escaped_total:
  assumes "nul_text t" and "j \<le> text_end t" and "t ! j \<noteq> 0"
  shows "\<exists>b. escaped t j (t ! j) = Inr b \<and> (b \<longrightarrow> j + 2 \<le> text_end t)"
proof -
  have "j + 1 \<le> text_end t" by (rule nul_text_less [OF assms])
  then show ?thesis
    using nul_text_idx [OF assms(1), of "j + 1"] nul_text_less [OF assms(1), of "j + 1"]
    by (auto simp: escaped_def)
qed

lemma emph_close_from_total:
  "nul_text t \<Longrightarrow> ch \<noteq> 0 \<Longrightarrow> j \<le> text_end t \<Longrightarrow> \<exists>r. emph_close_from t k ch j = Inr r"
proof (induction t k ch j rule: emph_close_from.induct)
  case (1 t k ch j)
  note nul = 1(5) and ch = 1(6) and IH = 1(1-4)
  note at = nul_text_idx [OF 1(5,7)] and next_le = nul_text_less [OF 1(5,7)]
  show ?case
  proof (cases "t ! j = 0")
    case True
    with at show ?thesis by (subst emph_close_from.simps) simp
  next
    case nz: False
    obtain esc where esc: "escaped t j (t ! j) = Inr esc" "esc \<longrightarrow> j + 2 \<le> text_end t"
      using escaped_total [OF 1(5,7) nz] by blast
    obtain m where m: "run_len t j 96 = Inr m" "j + m \<le> text_end t"
      using run_len_total [OF 1(5) _ 1(7), of 96] by auto
    obtain e where e: "find_code_close t j m = Inr e" "\<And>x. e = Some x \<Longrightarrow> x + m \<le> text_end t"
      using find_code_close_total [OF 1(5) m(2)] by blast
    obtain n where n: "run_len t j ch = Inr n" "j + n \<le> text_end t"
      using run_len_total [OF 1(5,6,7)] by auto
    consider "esc" | "\<not> esc" "t ! j = 96" | "\<not> esc" "t ! j \<noteq> 96" "t ! j = ch"
      | "\<not> esc" "t ! j \<noteq> 96" "t ! j \<noteq> ch" by blast
    then show ?thesis
    proof cases
      case 1
      then show ?thesis
        using at nz esc IH(1) [OF at nz esc(1) 1 nul ch]
        by (subst emph_close_from.simps) simp
    next
      case 2
      have "(case e of None \<Rightarrow> j + m | Some e \<Rightarrow> e + m) \<le> text_end t"
        using m(2) e(2) by (auto split: option.split)
      from IH(2) [OF at nz esc(1) 2 m(1) e(1) nul ch this]
      show ?thesis using at nz esc m(1) e(1) 2 by (subst emph_close_from.simps) simp
    next
      case 3
      have "\<exists>b. (if n = k then can_close t j k ch else Inr False) = Inr b"
        using can_total(2) [OF nul] n(2) by auto
      then obtain b where b: "(if n = k then can_close t j k ch else Inr False) = Inr b" ..
      show ?thesis
      proof (cases b)
        case True
        then show ?thesis using at nz esc(1) 3 n(1) b by (subst emph_close_from.simps) auto
      next
        case False
        with IH(3) [OF at nz esc(1) 3 n(1) b False nul ch n(2)]
        show ?thesis using at nz esc(1) 3 n(1) b by (subst emph_close_from.simps) auto
      qed
    next
      case 4
      with IH(4) [OF at nz esc(1) 4 nul ch next_le [OF nz]]
      show ?thesis using at nz esc(1) by (subst emph_close_from.simps) simp
    qed
  qed
qed

lemma close_from_total:
  "nul_text t \<Longrightarrow> j \<le> text_end t \<Longrightarrow>
    \<exists>r. close_from op cl t j d = Inr r \<and> (\<forall>e. r = Some e \<longrightarrow> e + 1 \<le> text_end t)"
proof (induction op cl t j d rule: close_from.induct)
  case (1 op cl t j d)
  note nul = 1(5) and IH = 1(1-4)
  note at = nul_text_idx [OF 1(5,6)] and next_le = nul_text_less [OF 1(5,6)]
  show ?case
  proof (cases "t ! j = 0")
    case True
    with at show ?thesis by (subst close_from.simps) simp
  next
    case nz: False
    note nx = next_le [OF nz]
    obtain esc where esc: "escaped t j (t ! j) = Inr esc" "esc \<longrightarrow> j + 2 \<le> text_end t"
      using escaped_total [OF 1(5,6) nz] by blast
    show ?thesis
    proof (cases esc)
      case True
      then show ?thesis
        using at nz esc IH(1) [OF at nz esc(1) True nul] by (subst close_from.simps) simp
    next
      case ne: False
      show ?thesis
        using at nz esc(1) ne nx IH(2) [OF at nz esc(1) ne _ nul nx]
          IH(3) [OF at nz esc(1) ne _ _ _ nul nx] IH(4) [OF at nz esc(1) ne _ _ nul nx]
        by (subst close_from.simps) simp
    qed
  qed
qed

lemma find_pair_total:
  assumes "nul_text t" and "i + 1 \<le> text_end t"
  obtains r r' where "find_bracket t i = Inr r" and "find_paren t i = Inr r'"
    and "\<And>e. r = Some e \<or> r' = Some e \<Longrightarrow> e + 1 \<le> text_end t"
  using close_from_total [OF assms, of 91 93 1] close_from_total [OF assms, of 40 41 1]
  unfolding find_bracket_def find_paren_def by blast

lemma angle_from_total:
  "nul_text t \<Longrightarrow> j \<le> text_end t \<Longrightarrow>
    \<exists>j' sp'. angle_from t j sp = Inr (j', sp') \<and> j' \<le> text_end t"
proof (induction t j sp rule: angle_from.induct)
  case (1 t j sp)
  note at = nul_text_idx [OF 1(2,3)] and next_le = nul_text_less [OF 1(2,3)]
  show ?case
    using at 1(3) 1(1) [OF at _ 1(2)] next_le
    by (subst angle_from.simps) simp
qed

section \<open>The renderer never leaves the text\<close>

text \<open>
  Between rounds of the loop the index, and the index a link jumps to, are at most that of
  the NUL, and the block has been changed by \<open>put\<close> and \<open>cur\<close> alone.
\<close>

definition inl_ok :: "byte list \<Rightarrow> inl \<Rightarrow> bool" where
  "inl_ok t s \<longleftrightarrow> pos s \<le> text_end t \<and> (link_end s \<noteq> None \<longrightarrow> link_after s \<le> text_end t)"

text \<open>A result that is no exception and satisfies \<open>Q\<close>.\<close>

definition yields :: "'a res \<Rightarrow> ('a \<Rightarrow> bool) \<Rightarrow> bool" where
  "yields m Q \<longleftrightarrow> (\<exists>x. m = Inr x \<and> Q x)"

lemma yields_Inr [simp]: "yields (Inr x) Q = Q x"
  by (simp add: yields_def)

lemma yields_bind:
  "yields (bind_res m f) Q = yields m (\<lambda>x. yields (f x) Q)"
  by (cases m) (simp_all add: yields_def)

lemma yields_mono: "yields m P \<Longrightarrow> (\<And>x. P x \<Longrightarrow> Q x) \<Longrightarrow> yields m Q"
  by (auto simp: yields_def)

context wrap_property
begin

lemma put_all_keeps: "P w \<Longrightarrow> P (put_all w cs)"
  by (simp add: put_all_def puts_keep)

lemma style_keeps: "P w \<Longrightarrow> P (style_on w st)" "P w \<Longrightarrow> P (style_off w st)"
  by (simp_all add: style_on_def style_off_def restyle_keeps)

lemmas block_keeps = put_keeps restyle_keeps put_all_keeps style_keeps

lemma literal_keeps:
  assumes "nul_text t" and "inl_ok t s" and "P (iw s)" and "t ! pos s \<noteq> 0"
  shows "inl_ok t (inl_literal c s) \<and> P (iw (inl_literal c s))"
  using nul_text_less [OF assms(1) _ assms(4)] assms(2,3)
  by (auto simp: inl_ok_def inl_literal_def intro: block_keeps)

lemma link_end_keeps:
  assumes "inl_ok t s" and "P (iw s)" and "link_end s = Some (pos s)"
  shows "inl_ok t (inl_link_end s) \<and> P (iw (inl_link_end s))"
  using assms
  by (auto simp: inl_ok_def inl_link_end_def Let_def intro!: block_keeps split: option.split)

lemma escape_keeps:
  assumes "nul_text t" and "inl_ok t s" and "P (iw s)" and "t ! pos s \<noteq> 0"
  shows "yields (inl_escape t s) (\<lambda>s'. inl_ok t s' \<and> P (iw s'))"
proof -
  have le: "pos s + 1 \<le> text_end t"
    using nul_text_less [OF assms(1) _ assms(4)] assms(2) by (simp add: inl_ok_def)
  have two: "is_punct (t ! (pos s + 1)) \<Longrightarrow> pos s + 2 \<le> text_end t"
    using nul_text_less [OF assms(1) le] by (cases "t ! (pos s + 1) = 0") (auto simp: is_punct_def)
  show ?thesis
    using nul_text_idx [OF assms(1) le] two literal_keeps [OF assms] assms(2,3)
    by (auto simp: inl_escape_def inl_ok_def intro: block_keeps)
qed

lemma tick: "(96::byte) \<noteq> 0"
  by simp

lemma code_keeps:
  assumes "nul_text t" and "inl_ok t s" and "P (iw s)"
  shows "yields (inl_code t s) (\<lambda>s'. inl_ok t s' \<and> P (iw s'))"
proof -
  have "pos s \<le> text_end t" using assms(2) by (simp add: inl_ok_def)
  then obtain k where k: "run_len t (pos s) 96 = Inr k" "pos s + k \<le> text_end t"
    using run_len_total [OF assms(1) tick] by blast
  obtain e where "find_code_close t (pos s) k = Inr e"
    "\<And>x. e = Some x \<Longrightarrow> x + k \<le> text_end t"
    using find_code_close_total [OF assms(1) k(2)] by blast
  with k assms(2,3) show ?thesis
    by (auto simp: inl_code_def inl_ok_def intro!: block_keeps split: option.split)
qed

lemma emph_keeps:
  assumes "nul_text t" and "inl_ok t s" and "P (iw s)" and "c \<noteq> 0"
  shows "yields (inl_emph t c s) (\<lambda>s'. inl_ok t s' \<and> P (iw s'))"
proof -
  have "pos s \<le> text_end t" using assms(2) by (simp add: inl_ok_def)
  then obtain k where k: "run_len t (pos s) c = Inr k" "pos s + k \<le> text_end t"
    using run_len_total [OF assms(1,4)] by blast
  obtain a b where "can_open t (pos s) k c = Inr a" and "can_close t (pos s) k c = Inr b"
    using can_total [OF assms(1) k(2)] by blast
  moreover obtain e where "find_emph_close t (pos s) k c = Inr e"
    using emph_close_from_total [OF assms(1,4) k(2)] unfolding find_emph_close_def by blast
  ultimately have "\<exists>kind. emph_kind t c k s = Inr kind"
    by (simp add: emph_kind_def Let_def)
  then obtain kind where "emph_kind t c k s = Inr kind" ..
  with k assms(2,3) show ?thesis
    by (cases kind) (auto simp: inl_emph_def inl_ok_def Let_def intro!: block_keeps)
qed

lemma image_keeps:
  assumes "nul_text t" and "inl_ok t s" and "P (iw s)" and "t ! pos s \<noteq> 0"
  shows "yields (inl_image t s) (\<lambda>s'. inl_ok t s' \<and> P (iw s'))"
proof -
  have le: "pos s + 1 \<le> text_end t"
    using nul_text_less [OF assms(1) _ assms(4)] assms(2) by (simp add: inl_ok_def)
  show ?thesis
  proof (cases "t ! (pos s + 1) = 91")
    case False
    then show ?thesis
      using nul_text_idx [OF assms(1) le] literal_keeps [OF assms] by (simp add: inl_image_def)
  next
    case True
    then have "pos s + 1 + 1 \<le> text_end t" using nul_text_less [OF assms(1) le] by simp
    then obtain r where r: "find_bracket t (pos s + 1) = Inr r"
      "\<And>e. r = Some e \<Longrightarrow> e + 1 \<le> text_end t"
      by (rule find_pair_total [OF assms(1)]) blast
    then show ?thesis
      using nul_text_idx [OF assms(1) le] nul_text_idx [OF assms(1)] literal_keeps [OF assms]
        le assms(2,3)
      by (cases r) (auto simp: inl_image_def inl_ok_def)
  qed
qed

lemma bracket_keeps:
  assumes "nul_text t" and "inl_ok t s" and "P (iw s)" and "t ! pos s \<noteq> 0"
  shows "yields (inl_bracket t s) (\<lambda>s'. inl_ok t s' \<and> P (iw s'))"
proof -
  have le: "pos s + 1 \<le> text_end t"
    using nul_text_less [OF assms(1) _ assms(4)] assms(2) by (simp add: inl_ok_def)
  obtain r where r: "find_bracket t (pos s) = Inr r" "\<And>e. r = Some e \<Longrightarrow> e + 1 \<le> text_end t"
    using find_pair_total [OF assms(1) le] by metis
  show ?thesis
  proof (cases r)
    case None
    with r literal_keeps [OF assms] show ?thesis by (simp add: inl_bracket_def)
  next
    case (Some j)
    have j: "j + 1 \<le> text_end t" using r(2) Some by simp
    note at = nul_text_idx [OF assms(1) j]
    consider "t ! (j + 1) \<noteq> 40" "t ! (j + 1) \<noteq> 91" | "t ! (j + 1) = 40 \<or> t ! (j + 1) = 91"
      by blast
    then show ?thesis
    proof cases
      case 1
      with r Some at literal_keeps [OF assms] show ?thesis by (simp add: inl_bracket_def)
    next
      case 2
      then have "j + 1 + 1 \<le> text_end t" using nul_text_less [OF assms(1) j] by auto
      then obtain a b where ab: "find_bracket t (j + 1) = Inr a" "find_paren t (j + 1) = Inr b"
        "\<And>e. a = Some e \<or> b = Some e \<Longrightarrow> e + 1 \<le> text_end t"
        using find_pair_total [OF assms(1)] by metis
      have "inl_ok t (open_link j e u s) \<and> P (iw (open_link j e u s))"
        if "a = Some e \<or> b = Some e" for e u
        using ab(3) [OF that] le assms(3)
        by (auto simp: inl_ok_def open_link_def intro: block_keeps)
      with 2 ab(1,2) r Some at literal_keeps [OF assms] show ?thesis
        by (auto simp: inl_bracket_def Let_def split: option.split)
    qed
  qed
qed

lemma angle_keeps:
  assumes "nul_text t" and "inl_ok t s" and "P (iw s)" and "t ! pos s \<noteq> 0"
  shows "yields (inl_angle t s) (\<lambda>s'. inl_ok t s' \<and> P (iw s'))"
proof -
  have "pos s + 1 \<le> text_end t"
    using nul_text_less [OF assms(1) _ assms(4)] assms(2) by (simp add: inl_ok_def)
  then obtain j sp where j: "angle_from t (pos s + 1) False = Inr (j, sp)" "j \<le> text_end t"
    using angle_from_total [OF assms(1)] by blast
  have "t ! j = 62 \<Longrightarrow> j + 1 \<le> text_end t"
    using nul_text_less [OF assms(1) j(2)] by simp
  with j nul_text_idx [OF assms(1) j(2)] literal_keeps [OF assms] assms(2,3) show ?thesis
    by (auto simp: inl_angle_def inl_ok_def intro!: block_keeps)
qed

lemma step_keeps:
  assumes "nul_text t" and "inl_ok t s" and "P (iw s)" and "t ! pos s \<noteq> 0"
  shows "yields (inline_step t (t ! pos s) s) (\<lambda>s'. inl_ok t s' \<and> P (iw s'))"
  using link_end_keeps [OF assms(2,3)] literal_keeps [OF assms] escape_keeps [OF assms]
    code_keeps [OF assms(1-3)] emph_keeps [OF assms] image_keeps [OF assms]
    bracket_keeps [OF assms] angle_keeps [OF assms]
  by (simp add: inline_step_def)

lemma loop_keeps:
  "nul_text t \<Longrightarrow> inl_ok t s \<Longrightarrow> P (iw s) \<Longrightarrow> yields (inline_loop t s) (\<lambda>s'. P (iw s'))"
proof (induction t s rule: inline_loop.induct)
  case (1 t s)
  have at: "idx t (pos s) = Inr (t ! pos s)"
    using nul_text_idx [OF 1(2)] 1(3) by (simp add: inl_ok_def)
  show ?case
  proof (cases "t ! pos s = 0")
    case True
    with at 1(4) show ?thesis by (subst inline_loop.simps) simp
  next
    case False
    obtain s' where s': "inline_step t (t ! pos s) s = Inr s'" "inl_ok t s'" "P (iw s')"
      using step_keeps [OF 1(2-4) False] by (auto simp: yields_def)
    with 1(1) [OF at False s'(1) 1(2) s'(2,3)] at False show ?thesis
      by (subst inline_loop.simps) simp
  qed
qed

lemma render_keeps:
  assumes "nul_text t" and "P w"
  shows "yields (render_inline w t) P"
  using loop_keeps [OF assms(1), of "\<lparr>iw = w, pos = 0, it_ch = 0, bo_ch = 0, link_end = None,
        link_after = 0, url = None\<rparr>"] assms(2)
  by (auto simp: render_inline_def yields_bind inl_ok_def elim!: yields_mono intro: restyle_keeps)

end
section \<open>Round trips\<close>

subsection \<open>Escaped text\<close>

text \<open>A backslash before every punctuation character.\<close>

definition escape :: "byte list \<Rightarrow> byte list" where
  "escape b = concat (map (\<lambda>c. if is_punct c then [92, c] else [c]) b)"

lemma escape_simps [simp]:
  "escape [] = []"
  "escape (c # b) = (if is_punct c then 92 # c # escape b else c # escape b)"
  by (simp_all add: escape_def)

lemma not_punct_plain:
  assumes "\<not> is_punct c"
  shows "c \<noteq> 92" "c \<noteq> 96" "c \<noteq> 42" "c \<noteq> 95" "c \<noteq> 33" "c \<noteq> 91" "c \<noteq> 60"
  using assms by (auto simp: is_punct_def)

lemma put_all_Cons [simp]: "put_all w (c # cs) = put_all (put w c) cs"
  by (simp add: put_all_def)

lemma put_all_Nil [simp]: "put_all w [] = w"
  by (simp add: put_all_def)

lemma loop_escaped:
  assumes "0 \<notin> set b" and "link_end s = None" and "t = pre @ escape b @ [0]"
    and "pos s = length pre"
  shows "\<exists>s'. inline_loop t s = Inr s' \<and> iw s' = put_all (iw s) b"
  using assms
proof (induction b arbitrary: s pre)
  case Nil
  then show ?case by (subst inline_loop.simps) (simp add: nth_append)
next
  case (Cons c b)
  note t = Cons.prems(3) and pos = Cons.prems(4)
  show ?case
  proof (cases "is_punct c")
    case True
    let ?s = "s\<lparr>iw := put (iw s) c, pos := pos s + 2\<rparr>"
    have "inline_step t 92 s = Inr ?s"
      using Cons.prems(2) True by (simp add: inline_step_def inl_escape_def t pos nth_append)
    moreover have "idx t (pos s) = Inr 92"
      using True by (simp add: t pos)
    moreover have "\<exists>s'. inline_loop t ?s = Inr s' \<and> iw s' = put_all (iw ?s) b"
      by (rule Cons.IH [of _ "pre @ [92, c]"])
        (use Cons.prems True in \<open>auto simp: t pos\<close>)
    ultimately show ?thesis by (subst inline_loop.simps) simp
  next
    case False
    let ?s = "inl_literal c s"
    have "inline_step t c s = Inr ?s"
      using Cons.prems(2) not_punct_plain [OF False] by (simp add: inline_step_def)
    moreover have "idx t (pos s) = Inr c"
      using False by (simp add: t pos)
    moreover have "c \<noteq> 0" using Cons.prems(1) by auto
    moreover have "\<exists>s'. inline_loop t ?s = Inr s' \<and> iw s' = put_all (iw ?s) b"
      by (rule Cons.IH [of _ "pre @ [c]"])
        (use Cons.prems False in \<open>auto simp: t pos inl_literal_def\<close>)
    ultimately show ?thesis by (subst inline_loop.simps) (simp add: inl_literal_def)
  qed
qed

text \<open>
  C9. Escaping every punctuation character of a text with a backslash renders the text
  literally: whatever Markdown it contains, each of its bytes is put once, in order, in the
  style of the block, and the style is reset at the end.
\<close>

theorem escaped_text_is_literal:
  assumes "0 \<notin> set b"
  shows "render_inline w (escape b @ [0]) = Inr ((put_all w b)\<lparr>cur := 0\<rparr>)"
proof -
  let ?s = "\<lparr>iw = w, pos = 0, it_ch = 0, bo_ch = 0, link_end = None, link_after = 0, url = None\<rparr>"
  obtain s' where "inline_loop (escape b @ [0]) ?s = Inr s'" "iw s' = put_all w b"
    using loop_escaped [OF assms, of ?s "escape b @ [0]" "[]"] by auto
  then show ?thesis by (simp add: render_inline_def)
qed

theorem escaped_text_is_literal_witness:
  "render_inline (init_wrap (init_out 20 True) True (spaces 0) (spaces 0) [])
       [92, 42, 65, 92, 42, 0]
     = Inr ((put_all (init_wrap (init_out 20 True) True (spaces 0) (spaces 0) []) [42, 65, 42])
         \<lparr>cur := 0\<rparr>)"
  using escaped_text_is_literal
    [of "[42, 65, 42]" "init_wrap (init_out 20 True) True (spaces 0) (spaces 0) []"]
  by (simp add: is_punct_def)

subsection \<open>Code spans\<close>

lemma run_from_replicate:
  "t = pre @ replicate n ch @ x # suf \<Longrightarrow> x \<noteq> ch \<Longrightarrow> k \<le> n
   \<Longrightarrow> run_from t (length pre) ch k = Inr n"
proof (induction "n - k" arbitrary: k)
  case 0
  then have "k = n" by simp
  with 0 show ?case by (subst run_from.simps) (simp add: nth_append)
next
  case (Suc d)
  then have k: "k < n" by simp
  then have "idx t (length pre + k) = Inr ch"
    using Suc.prems by (simp add: nth_append)
  moreover have "run_from t (length pre) ch (Suc k) = Inr n"
    using Suc by (intro Suc.hyps(1)) auto
  ultimately show ?case by (subst run_from.simps) simp
qed

lemma run_len_replicate:
  "t = pre @ replicate n ch @ x # suf \<Longrightarrow> x \<noteq> ch \<Longrightarrow> i = length pre \<Longrightarrow> run_len t i ch = Inr n"
  using run_from_replicate [of t pre n ch x suf 0] by (simp add: run_len_def)

lemma code_close_skip:
  assumes "t = pre @ x @ replicate k 96 @ [0]" and "96 \<notin> set x" and "0 \<notin> set x"
    and "j = length pre" and "0 < k"
  shows "code_close_from t k j = Inr (Some (length pre + length x))"
  using assms
proof (induction x arbitrary: j pre)
  case Nil
  have "run_len t j 96 = Inr k"
    using Nil by (intro run_len_replicate [of t pre k 96 0 "[]"]) auto
  moreover have "idx t j = Inr 96"
    using Nil by (cases k) (auto simp: nth_append)
  ultimately show ?case using Nil by (subst code_close_from.simps) simp
next
  case (Cons c x)
  have "idx t j = Inr c" using Cons.prems by (simp add: nth_append)
  moreover have "code_close_from t k (j + 1) = Inr (Some (length (pre @ [c]) + length x))"
    using Cons.prems by (intro Cons.IH) auto
  ultimately show ?case
    using Cons.prems by (subst code_close_from.simps) auto
qed

text \<open>A code span's text without the one space at both ends that is not part of it.\<close>

definition trim_code :: "byte list \<Rightarrow> byte list" where
  "trim_code x =
     (if 2 \<le> length x \<and> hd x = 32 \<and> last x = 32 \<and> (\<exists>c\<in>set x. c \<noteq> 32)
      then butlast (tl x) else x)"

lemma code_span_middle:
  assumes "x \<noteq> []"
  shows "code_span (pre @ x @ suf) (length pre) (length pre + length x) = trim_code x"
proof (cases x)
  case (Cons c y)
  have last: "(pre @ x @ suf) ! (length pre + length x - 1) = last x"
    using assms by (simp add: nth_append last_conv_nth) (simp add: Cons)
  have "take (length pre + length x - 1 - (length pre + 1)) (drop (length pre + 1) (pre @ x @ suf))
      = butlast (tl x)"
    by (simp add: Cons butlast_conv_take)
  then show ?thesis
    using last by (auto simp: code_span_def trim_code_def nth_append hd_conv_nth assms)
qed (use assms in simp)

text \<open>
  C10. Between two equal runs of backticks a text without backticks is shown verbatim in
  the code style, Markdown in it included, except that one space at both ends is left out
  when it has other text.
\<close>

theorem code_span_is_verbatim:
  assumes "x \<noteq> []" and "96 \<notin> set x" and "0 \<notin> set x" and "0 < k"
  shows "render_inline w (replicate k 96 @ x @ replicate k 96 @ [0])
     = Inr ((put_all (w\<lparr>cur := cur w OR S_C\<rparr>) (trim_code x))\<lparr>cur := 0\<rparr>)"
proof -
  let ?t = "replicate k 96 @ x @ replicate k 96 @ [0]"
  let ?s = "\<lparr>iw = w, pos = 0, it_ch = 0, bo_ch = 0, link_end = None, link_after = 0, url = None\<rparr>"
  let ?w = "style_off (put_all (style_on w S_C) (trim_code x)) S_C"
  obtain c y where x: "x = c # y" using assms(1) by (cases x) auto
  then have c: "c \<noteq> 96" using assms(2) by auto
  have "run_len ?t 0 96 = Inr k"
    using c by (intro run_len_replicate [of _ "[]" k 96 c "y @ replicate k 96 @ [0]"])
      (simp_all add: x)
  moreover have "find_code_close ?t 0 k = Inr (Some (k + length x))"
    using code_close_skip [of ?t "replicate k 96" x k k] assms by (simp add: find_code_close_def)
  moreover have "code_span ?t k (k + length x) = trim_code x"
    using code_span_middle [OF assms(1), of "replicate k 96" "replicate k 96 @ [0]"] by simp
  ultimately have "inl_code ?t ?s = Inr (?s\<lparr>iw := ?w, pos := k + length x + k\<rparr>)"
    by (simp add: inl_code_def)
  moreover have "idx ?t 0 = Inr 96" using assms(4) by (cases k) auto
  ultimately have "inline_loop ?t ?s = inline_loop ?t (?s\<lparr>iw := ?w, pos := k + length x + k\<rparr>)"
    by (subst inline_loop.simps) (simp add: inline_step_def)
  also have "\<dots> = Inr (?s\<lparr>iw := ?w, pos := k + length x + k\<rparr>)"
    by (subst inline_loop.simps) (simp add: nth_append)
  finally show ?thesis by (simp add: render_inline_def style_off_def style_on_def)
qed

theorem code_span_is_verbatim_witness:
  "render_inline (init_wrap (init_out 20 True) True (spaces 0) (spaces 0) [])
       [96, 32, 42, 32, 96, 0]
     = Inr ((put_all ((init_wrap (init_out 20 True) True (spaces 0) (spaces 0) [])\<lparr>cur := 8\<rparr>) [42])
         \<lparr>cur := 0\<rparr>)"
  using code_span_is_verbatim
    [of "[32, 42, 32]" 1 "init_wrap (init_out 20 True) True (spaces 0) (spaces 0) []"]
  by (simp add: trim_code_def S_C_def)

text \<open>
  C11. On a NUL-terminated text the inline renderer stops without an exception, and all it
  does to the block is to put bytes, each in some style.
\<close>

theorem render_inline_total:
  assumes "0 \<notin> set b"
  shows "\<exists>evs. render_inline w (b @ [0]) = Inr ((emits w evs)\<lparr>cur := 0\<rparr>)"
proof -
  have "yields (render_inline w (b @ [0])) (traced w)"
    by (rule trace.render_keeps) (simp_all add: nul_text_snoc assms traced_refl)
  then obtain evs s where *: "render_inline w (b @ [0]) = Inr ((emits w evs)\<lparr>cur := s\<rparr>)"
    by (auto simp: yields_def traced_def)
  then obtain x :: inl where "(iw x)\<lparr>cur := 0\<rparr> = (emits w evs)\<lparr>cur := s\<rparr>"
    by (auto simp: render_inline_def)
  from arg_cong [OF this, of cur] have "s = 0" by simp
  with * show ?thesis by blast
qed

theorem render_inline_total_witness:
  "\<exists>evs. render_inline (init_wrap (init_out 20 True) True (spaces 0) (spaces 0) [])
       ([42, 97, 91, 42] @ [0])
     = Inr ((emits (init_wrap (init_out 20 True) True (spaces 0) (spaces 0) []) evs)\<lparr>cur := 0\<rparr>)"
  by (rule render_inline_total) simp

end
