(* ===== verification/Md_Doc.thy ===== *)
theory Md_Doc
  imports Md_Inline_Safe
begin

text \<open>
  The document structure of \<open>tools/mdvref.py\<close>: the class \<open>Doc\<close> and the function
  \<open>render\<close>. \<open>Doc\<close> is the record \<open>doc\<close>; its method \<open>line\<close> is \<open>doc_line\<close>, with one
  definition per kind of line, in the source's order. The attribute \<open>level\<close> does not
  exist before the first heading, so it is an option.

  The theorems: \<open>render\<close> raises no exception on any input, and the rows it returns are
  no wider than the screen and leave the terminal reset; in plain mode they hold printable
  bytes only.
\<close>

section \<open>Blocks\<close>

datatype block_kind = K_NONE | K_PARA | K_LIST | K_QUOTE | K_HEAD | K_TABLE

record doc =
  dout :: out
  kind :: block_kind
  blk :: "byte list"
  margin :: nat
  marker :: "byte list"
  cont :: nat
  in_list :: bool
  list_cont :: nat
  in_fence :: bool
  fch :: byte
  flen :: nat
  fence_ind :: nat
  level :: "nat option"

definition init_doc :: "int \<Rightarrow> bool \<Rightarrow> doc" where
  "init_doc width pl =
     \<lparr>dout = init_out width pl, kind = K_NONE, blk = [], margin = 0, marker = [], cont = 0,
      in_list = False, list_cont = 0, in_fence = False, fch = 0, flen = 0, fence_ind = 0,
      level = None\<rparr>"

definition HEAD_SGR :: "nat \<Rightarrow> byte list" where
  "HEAD_SGR n = (if n = 1 then lit '';1;4;36'' else if n = 2 then lit '';1;36''
     else if n = 3 then lit '';1;35'' else lit '';1'')"

definition MARK_SGR :: "byte list" where "MARK_SGR = 27 # lit ''[36m''"
definition BAR_SGR :: "byte list" where "BAR_SGR = 27 # lit ''[32m''"
definition HR_SGR :: "byte list" where "HR_SGR = 27 # lit ''[36m''"

text \<open>The local functions \<open>fp\<close> and \<open>qp\<close> of \<open>flush\<close>.\<close>

definition list_prefix :: "nat \<Rightarrow> byte list \<Rightarrow> prefix" where
  "list_prefix m mk pl bs =
     (bs @ replicate m 32 @ (if pl then [] else MARK_SGR) @ mk @ (if pl then [] else RESET) @ [32],
      m + length mk + 1)"

definition quote_prefix :: prefix where
  "quote_prefix pl bs =
     (bs @ (if pl then [] else BAR_SGR) @ [124] @ (if pl then [] else RESET) @ [32], 2)"

definition block_wrap :: "doc \<Rightarrow> wrap res" where
  "block_wrap d =
     (let ou = dout d in case kind d of
        K_PARA \<Rightarrow> Inr (init_wrap ou True (spaces (margin d)) (spaces (margin d)) [])
      | K_LIST \<Rightarrow> Inr (init_wrap ou True (list_prefix (margin d) (marker d)) (spaces (cont d)) [])
      | K_QUOTE \<Rightarrow> Inr (init_wrap ou True quote_prefix quote_prefix [])
      | K_HEAD \<Rightarrow> (case level d of
            None \<Rightarrow> Inl AttributeError
          | Some n \<Rightarrow> Inr (init_wrap ou True (spaces 0) (spaces 0) (HEAD_SGR n)))
      | _ \<Rightarrow> Inr (init_wrap ou True (spaces 0) (spaces 0) []))"

definition doc_flush :: "doc \<Rightarrow> doc res" where
  "doc_flush d =
     (if kind d = K_NONE then Inr d
      else bind_res (block_wrap d) (\<lambda>w.
           bind_res (render_inline w (blk d @ [0])) (\<lambda>w.
             Inr (d\<lparr>dout := wout (finish w), kind := K_NONE, blk := []\<rparr>))))"

definition code_byte :: "wrap \<times> nat \<Rightarrow> byte \<Rightarrow> wrap \<times> nat" where
  "code_byte s c = (case s of (w, n) \<Rightarrow>
     if c = 9 then let k = 8 - (n AND 7) in (put_all w (replicate k 32), n + k)
     else if c < 32 \<or> c = 127 then (w, n)
     else (put w c, if is_cont c then n else n + 1))"

definition code_row :: "byte list \<Rightarrow> doc \<Rightarrow> doc" where
  "code_row txt d =
     (let w = (init_wrap (dout d) False (spaces 2) (spaces 2) [])\<lparr>cur := S_C\<rparr>;
          (w, n) = foldl code_byte (w, 0) txt
      in d\<lparr>dout := wout (finish w)\<rparr>)"

definition quote_blank :: "doc \<Rightarrow> doc" where
  "quote_blank d =
     (let ou = pay_blank (dout d)
      in d\<lparr>dout := row ou ((if plain ou then [] else BAR_SGR) @ [124]
            @ (if plain ou then [] else RESET))\<rparr>)"

definition hr :: "doc \<Rightarrow> doc" where
  "hr d =
     (let ou = pay_blank (dout d)
      in d\<lparr>dout := row ou ((if plain ou then [] else HR_SGR) @ replicate (nat (out_W ou)) 45
            @ (if plain ou then [] else RESET))\<rparr>)"

definition doc_start :: "block_kind \<Rightarrow> byte list \<Rightarrow> doc \<Rightarrow> doc res" where
  "doc_start k content d = bind_res (doc_flush d) (\<lambda>d. Inr (d\<lparr>kind := k, blk := content\<rparr>))"

section \<open>One source line\<close>

definition blank :: "byte \<Rightarrow> bool" where
  "blank c \<longleftrightarrow> c = 32 \<or> c = 9"

definition lstrip :: "byte list \<Rightarrow> byte list" where
  "lstrip bs = dropWhile blank bs"

definition rstrip_blank :: "byte list \<Rightarrow> byte list" where
  "rstrip_blank bs = rev (dropWhile blank (rev bs))"

definition run :: "byte \<Rightarrow> byte list \<Rightarrow> nat" where
  "run c bs = length (takeWhile (\<lambda>x. x = c) bs)"

text \<open>The indentation, a tab to the next multiple of four, and the rest of the line.\<close>

fun indent :: "nat \<Rightarrow> byte list \<Rightarrow> nat \<times> byte list" where
  "indent ind [] = (ind, [])"
| "indent ind (c # cs) =
     (if blank c then indent (if c = 9 then (ind + 4) div 4 * 4 else ind + 1) cs else (ind, c # cs))"

definition fence_line :: "nat \<Rightarrow> byte list \<Rightarrow> byte list \<Rightarrow> doc \<Rightarrow> doc res" where
  "fence_line ind s L d =
     bind_res (if ind < 4 \<and> length s \<ge> flen d then bind_res (idx s 0) (\<lambda>c. Inr (c = fch d))
               else Inr False) (\<lambda>maybe.
       let k = run (fch d) s in
       if maybe \<and> k \<ge> flen d \<and> (\<forall>x\<in>set (drop k s). blank x)
       then Inr (d\<lparr>in_fence := False\<rparr>)
       else Inr (code_row (drop (run 32 (take (fence_ind d) L)) L) d))"

definition blank_line :: "doc \<Rightarrow> doc res" where
  "blank_line d = bind_res (doc_flush d) (\<lambda>d.
     Inr (if any_out (dout d) then d\<lparr>dout := (dout d)\<lparr>need_blank := True\<rparr>\<rparr> else d))"

definition fence_opens :: "nat \<Rightarrow> byte list \<Rightarrow> bool" where
  "fence_opens ind s \<longleftrightarrow>
     ind < 4 \<and> length s \<ge> 3 \<and> (s ! 0 = 96 \<or> s ! 0 = 126) \<and> s ! 1 = s ! 0 \<and> s ! 2 = s ! 0
     \<and> \<not> (s ! 0 = 96 \<and> 96 \<in> set (drop (run (s ! 0) s) s))"

definition open_fence :: "nat \<Rightarrow> byte list \<Rightarrow> doc \<Rightarrow> doc res" where
  "open_fence ind s d = bind_res (doc_flush d) (\<lambda>d.
     Inr (d\<lparr>in_fence := True, fch := s ! 0, flen := run (s ! 0) s, fence_ind := ind,
            in_list := False\<rparr>))"

definition is_setext :: "nat \<Rightarrow> byte list \<Rightarrow> doc \<Rightarrow> bool" where
  "is_setext ind s d \<longleftrightarrow>
     ind < 4 \<and> kind d = K_PARA \<and> (s ! 0 = 61 \<or> s ! 0 = 45)
     \<and> (\<forall>x\<in>set (rstrip_blank s). x = s ! 0)"

definition setext :: "byte list \<Rightarrow> doc \<Rightarrow> doc res" where
  "setext s d =
     bind_res (doc_flush (d\<lparr>kind := K_HEAD, level := Some (if s ! 0 = 61 then 1 else 2)\<rparr>))
       (\<lambda>d. Inr (d\<lparr>in_list := False\<rparr>))"

definition is_rule :: "nat \<Rightarrow> byte list \<Rightarrow> bool" where
  "is_rule ind s \<longleftrightarrow>
     ind < 4 \<and> (s ! 0 = 45 \<or> s ! 0 = 42 \<or> s ! 0 = 95)
     \<and> (\<forall>x\<in>set s. x = s ! 0 \<or> blank x) \<and> length (filter (\<lambda>x. x = s ! 0) s) \<ge> 3"

definition rule_line :: "doc \<Rightarrow> doc res" where
  "rule_line d = bind_res (doc_flush d) (\<lambda>d. Inr ((hr d)\<lparr>in_list := False\<rparr>))"

definition is_atx :: "nat \<Rightarrow> byte list \<Rightarrow> bool" where
  "is_atx ind s \<longleftrightarrow>
     ind < 4 \<and> s ! 0 = 35
     \<and> (let k = run 35 s in k \<le> 6 \<and> (k = length s \<or> blank (s ! k)))"

text \<open>A heading's text: without the blanks around it and a closing run of \<open>#\<close>.\<close>

definition atx_text :: "byte list \<Rightarrow> byte list" where
  "atx_text s =
     (let c = rstrip_blank (lstrip s);
          h = rev (dropWhile (\<lambda>x. x = 35) (rev c))
      in if h = [] \<or> blank (last h) then rstrip_blank h else c)"

definition heading :: "byte list \<Rightarrow> doc \<Rightarrow> doc res" where
  "heading s d =
     (let k = run 35 s in
      bind_res (doc_start K_HEAD (atx_text (drop k s)) d) (\<lambda>d.
      bind_res (doc_flush (d\<lparr>level := Some k\<rparr>)) (\<lambda>d. Inr (d\<lparr>in_list := False\<rparr>))))"

definition is_digit :: "byte \<Rightarrow> bool" where
  "is_digit c \<longleftrightarrow> 48 \<le> c \<and> c \<le> 57"

text \<open>The marker of a list item, and how many bytes of the line it takes.\<close>

definition list_marker :: "nat \<Rightarrow> byte list \<Rightarrow> (byte list \<times> nat) option" where
  "list_marker ind s =
     (if (s ! 0 = 45 \<or> s ! 0 = 42 \<or> s ! 0 = 43) \<and> (length s = 1 \<or> blank (s ! 1))
      then Some (if ind = 0 then [42] else [45], 1)
      else if is_digit (s ! 0) then
        let q = length (takeWhile is_digit (take 9 s)) in
        if q < length s \<and> (s ! q = 46 \<or> s ! q = 41) \<and> (q + 1 = length s \<or> blank (s ! (q + 1)))
        then Some (take (q + 1) s, q + 1) else None
      else None)"

definition list_item :: "nat \<Rightarrow> byte list \<Rightarrow> byte list \<Rightarrow> nat \<Rightarrow> doc \<Rightarrow> doc res" where
  "list_item ind s mk q d = bind_res (doc_start K_LIST (lstrip (drop q s)) d) (\<lambda>d.
     let m = min ind 8; n = m + length mk + 1 in
     Inr (d\<lparr>margin := m, marker := mk, cont := n, in_list := True, list_cont := n\<rparr>))"

definition skip_space :: "byte list \<Rightarrow> byte list" where
  "skip_space cs = (case cs of [] \<Rightarrow> [] | d # ds \<Rightarrow> if d = 32 then ds else cs)"

lemma length_skip_space [termination_simp]: "length (skip_space cs) < Suc (length cs)"
  by (simp add: skip_space_def split: list.split)

fun quote_rest :: "byte list \<Rightarrow> byte list" where
  "quote_rest [] = []"
| "quote_rest (c # cs) =
     (if c = 62 then quote_rest (skip_space cs) else c # cs)"

definition quote_line :: "byte list \<Rightarrow> doc \<Rightarrow> doc res" where
  "quote_line s d =
     (let c = lstrip (quote_rest s) in
      if c = [] then bind_res (doc_flush d) (\<lambda>d. Inr (quote_blank d))
      else bind_res (if kind d = K_QUOTE then Inr (d\<lparr>blk := blk d @ 32 # c\<rparr>)
                     else doc_start K_QUOTE c d) (\<lambda>d. Inr (d\<lparr>in_list := False\<rparr>)))"

definition table_line :: "byte list \<Rightarrow> doc \<Rightarrow> doc res" where
  "table_line s d = bind_res (doc_start K_TABLE s d) (\<lambda>d.
     bind_res (doc_flush d) (\<lambda>d. Inr (d\<lparr>in_list := False\<rparr>)))"

text \<open>An indented code line without its first four columns.\<close>

fun strip_code :: "nat \<Rightarrow> byte list \<Rightarrow> byte list" where
  "strip_code n [] = []"
| "strip_code n (c # cs) =
     (if n < 4 \<and> blank c then strip_code (if c = 9 then (n + 4) div 4 * 4 else n + 1) cs
      else c # cs)"

definition text_line :: "nat \<Rightarrow> byte list \<Rightarrow> doc \<Rightarrow> doc res" where
  "text_line ind s d =
     (if kind d = K_PARA \<or> kind d = K_LIST \<or> kind d = K_QUOTE then
        Inr (d\<lparr>blk := (if blk d = [] then [] else blk d @ [32]) @ s\<rparr>)
      else
        bind_res (doc_start K_PARA s (if ind = 0 then d\<lparr>in_list := False\<rparr> else d)) (\<lambda>d.
          Inr (d\<lparr>margin := if in_list d then list_cont d else 0\<rparr>)))"

definition doc_line :: "doc \<Rightarrow> byte list \<Rightarrow> doc res" where
  "doc_line d L =
     (case indent 0 L of (ind, s) \<Rightarrow>
      if in_fence d then fence_line ind s L d
      else if s = [] then blank_line d
      else if fence_opens ind s then open_fence ind s d
      else if is_setext ind s d then setext s d
      else if is_rule ind s then rule_line d
      else if is_atx ind s then heading s d
      else case (if ind < (if in_list d then 64 else 4) then list_marker ind s else None) of
        Some (mk, q) \<Rightarrow> list_item ind s mk q d
      | None \<Rightarrow>
          if ind < 4 \<and> s ! 0 = 62 then quote_line s d
          else if ind < 4 \<and> s ! 0 = 124 then table_line s d
          else if ind \<ge> 4 \<and> \<not> in_list d \<and> kind d = K_NONE then Inr (code_row (strip_code 0 L) d)
          else text_line ind s d)"

section \<open>A document\<close>

fun doc_lines :: "doc \<Rightarrow> byte list list \<Rightarrow> doc res" where
  "doc_lines d [] = Inr d"
| "doc_lines d (L # Ls) =
     bind_res (doc_line d (filter (\<lambda>x. x \<noteq> 13 \<and> x \<noteq> 0) L)) (\<lambda>d. doc_lines d Ls)"

text \<open>\<open>data.split(b'\n')\<close>, without the empty last piece of a text that ends with a newline.\<close>

fun split_nl :: "byte list \<Rightarrow> byte list list" where
  "split_nl [] = [[]]"
| "split_nl (c # cs) =
     (if c = 10 then [] # split_nl cs
      else case split_nl cs of [] \<Rightarrow> [[c]] | l # ls \<Rightarrow> (c # l) # ls)"

definition source_lines :: "byte list \<Rightarrow> byte list list" where
  "source_lines bs =
     (let ls = split_nl bs in if ls \<noteq> [] \<and> last ls = [] then butlast ls else ls)"

definition doc_end :: "doc \<Rightarrow> doc res" where
  [simp]: "doc_end d = doc_flush d"

definition render :: "byte list \<Rightarrow> int \<Rightarrow> bool \<Rightarrow> byte list list res" where
  "render bs width pl =
     bind_res (doc_lines (init_doc width pl) (source_lines bs)) (\<lambda>d.
     bind_res (doc_end d) (\<lambda>d. Inr (rows (dout d))))"

text \<open>What the program prints for \<open>-w w\<close> and \<open>-p\<close>.\<close>

definition screen_width :: "int \<Rightarrow> int" where
  "screen_width w = max 20 (min 250 (w - 1))"

definition mdv_main :: "byte list \<Rightarrow> int \<Rightarrow> bool \<Rightarrow> byte list res" where
  "mdv_main bs w pl =
     bind_res (render bs (screen_width w) pl) (\<lambda>rs. Inr (concat (map (\<lambda>r. r @ [10]) rs)))"

section \<open>The state between two lines\<close>

definition marker_ok :: "byte list \<Rightarrow> bool" where
  "marker_ok mk \<longleftrightarrow> (\<forall>c\<in>set mk. printable c \<and> \<not> is_cont c)"

definition doc_ok :: "doc \<Rightarrow> bool" where
  "doc_ok d \<longleftrightarrow>
     0 \<notin> set (blk d) \<and> (kind d = K_HEAD \<longrightarrow> level d \<noteq> None) \<and> margin d < 20 \<and> list_cont d < 20
     \<and> (in_fence d \<longrightarrow> 0 < flen d)
     \<and> (kind d = K_LIST \<longrightarrow> cont d = margin d + length (marker d) + 1 \<and> margin d + length (marker d) < 19
          \<and> marker_ok (marker d))"

text \<open>The blocks \<open>flush\<close> and \<open>code_row\<close> build: their prefixes take fewer than 20 columns.\<close>

definition doc_block :: "out \<Rightarrow> wrap \<Rightarrow> bool" where
  "doc_block ou w \<longleftrightarrow> (\<exists>wd f g bs p q n. w = init_wrap ou wd f g bs \<and> prefixed w p q n \<and> n < 20
     \<and> (plain ou \<longrightarrow> (\<forall>c\<in>set p \<union> set q. printable c)))"

lemma doc_blockI:
  "prefixed (init_wrap ou wd f g bs) p q n \<Longrightarrow> n < 20
   \<Longrightarrow> plain ou \<longrightarrow> (\<forall>c\<in>set p \<union> set q. printable c)
   \<Longrightarrow> doc_block ou (init_wrap ou wd f g bs)"
  unfolding doc_block_def by blast

lemma no_final_HEAD_SGR: "no_final (HEAD_SGR n)"
  by (simp add: HEAD_SGR_def lit_def no_final_def csi_final_def)

lemma feed_color [simp]:
  "feed (tty0 g p) MARK_SGR = tty0 g (lit ''36'')" "feed (tty0 g p) BAR_SGR = tty0 g (lit ''32'')"
  "feed (tty0 g p) HR_SGR = tty0 g (lit ''36'')"
  by (simp_all add: MARK_SGR_def BAR_SGR_def HR_SGR_def lit_def csi_final_def)

lemma good_prefix_iff:
  "good_prefix p n \<longleftrightarrow> tmode (screen p) = Text \<and> pen (screen p) = plain_pen
     \<and> cols (shown (screen p)) = n"
  by (cases "screen p") (auto simp: good_prefix_def vis_ink ink_def tty0_def)

lemma cols_glyphs: "\<forall>c\<in>set bs. \<not> is_cont c \<Longrightarrow> cols (map (glyph p) bs) = length bs"
  by (induction bs) simp_all

lemma printable_not_esc: "printable c \<Longrightarrow> c \<noteq> 27"
  by (auto simp: printable_def)

lemma feed_spaces: "feed (tty0 g p) (replicate n 32) = tty0 (g @ replicate n (glyph p 32)) p"
  by (subst feed_text) (auto simp: map_replicate)

lemma cols_spaces [simp]: "cols (replicate n (glyph p 32)) = n"
  by (induction n) simp_all

lemma good_list_prefix:
  assumes "marker_ok mk"
  shows "good_prefix (fst (list_prefix m mk pl [])) (m + length mk + 1)"
proof -
  have mk: "feed (tty0 g p) mk = tty0 (g @ map (glyph p) mk) p" for g p
    using assms by (intro feed_text) (auto simp: marker_ok_def dest: printable_not_esc)
  have "cols (map (glyph p) mk) = length mk" for p
    using assms by (intro cols_glyphs) (auto simp: marker_ok_def)
  then show ?thesis
    by (simp add: good_prefix_iff list_prefix_def feed_spaces mk)
qed

lemma good_quote_prefix: "good_prefix (fst (quote_prefix pl [])) 2"
  by (simp add: good_prefix_iff quote_prefix_def is_cont_def)

lemma printable_space [simp]: "printable 32"
  by (simp add: printable_def)

lemma spaces_block:
  "no_final bs \<Longrightarrow> m < 20 \<Longrightarrow> doc_block ou (init_wrap ou wd (spaces m) (spaces m) bs)"
  unfolding doc_block_def
  by (intro exI conjI, rule refl, rule prefixed_spaces) auto

lemma block_wrap_ok:
  assumes "doc_ok d"
  shows "yields (block_wrap d) (doc_block (dout d))"
proof (cases "kind d")
  case K_LIST
  then have mk: "marker_ok (marker d)" and n: "cont d = margin d + length (marker d) + 1" "cont d < 20"
    using assms by (auto simp: doc_ok_def)
  let ?p = "fst (list_prefix (margin d) (marker d) (plain (dout d)) [])"
  have "prefixed (init_wrap (dout d) True (list_prefix (margin d) (marker d)) (spaces (cont d)) [])
      ?p (replicate (cont d) 32) (cont d)"
    using good_list_prefix [OF mk] n(1)
      good_prefix_spaces [of "Suc (margin d + length (marker d))"]
    by (simp add: prefixed_def list_prefix_def spaces_def)
  moreover have "plain (dout d) \<longrightarrow> (\<forall>c\<in>set ?p \<union> set (replicate (cont d) 32). printable c)"
    using mk by (auto simp: list_prefix_def marker_ok_def)
  ultimately have "doc_block (dout d)
      (init_wrap (dout d) True (list_prefix (margin d) (marker d)) (spaces (cont d)) [])"
    using n(2) by (intro doc_blockI)
  then show ?thesis using K_LIST by (simp add: block_wrap_def Let_def)
next
  case K_QUOTE
  let ?p = "fst (quote_prefix (plain (dout d)) [])"
  have pq: "prefixed (init_wrap (dout d) True quote_prefix quote_prefix []) ?p ?p 2"
    using good_quote_prefix by (simp add: prefixed_def quote_prefix_def)
  have pr: "plain (dout d) \<longrightarrow> (\<forall>c\<in>set ?p \<union> set ?p. printable c)"
    by (auto simp: quote_prefix_def printable_def)
  have "doc_block (dout d) (init_wrap (dout d) True quote_prefix quote_prefix [])"
    by (rule doc_blockI [OF pq _ pr]) simp
  then show ?thesis using K_QUOTE by (simp add: block_wrap_def Let_def)
qed (use assms in \<open>auto simp: block_wrap_def Let_def doc_ok_def
    intro!: spaces_block no_final_HEAD_SGR\<close>)

context wrap_property
begin

lemma code_bytes_keep: "P w \<Longrightarrow> P (fst (foldl code_byte (w, n) bs))"
proof (induction bs arbitrary: w n)
  case (Cons c bs)
  obtain w' n' where c: "code_byte (w, n) c = (w', n')" by fastforce
  then have "P w'"
    using Cons.prems by (auto simp: code_byte_def Let_def split: if_splits intro: put_keeps put_all_keeps)
  with Cons.IH c show ?case by simp
qed simp

end

section \<open>What every line keeps\<close>

text \<open>
  A property of the document's rows that finished blocks, rules, empty quote lines and the
  request for a blank row keep is kept by the whole renderer, which never raises.
\<close>

locale doc_property =
  fixes Q :: "out \<Rightarrow> bool"
  assumes block: "Q ou \<Longrightarrow> doc_block ou w \<Longrightarrow> traced w w' \<Longrightarrow> Q (wout (finish w'))"
    and rule_row: "Q (dout d) \<Longrightarrow> Q (dout (hr d))"
    and bar_row: "Q (dout d) \<Longrightarrow> Q (dout (quote_blank d))"
    and want_blank: "Q ou \<Longrightarrow> Q (ou\<lparr>need_blank := True\<rparr>)"
begin

definition good :: "doc \<Rightarrow> bool" where
  "good d \<longleftrightarrow> doc_ok d \<and> Q (dout d)"

definition flushed :: "doc \<Rightarrow> doc \<Rightarrow> bool" where
  "flushed d d' \<longleftrightarrow> (\<exists>ou b. Q ou \<and> 0 \<notin> set b \<and> d' = d\<lparr>dout := ou, kind := K_NONE, blk := b\<rparr>)"

lemma flush_keeps:
  assumes "good d"
  shows "yields (doc_flush d) (flushed d)"
proof (cases "kind d = K_NONE")
  case True
  then have "d = d\<lparr>dout := dout d, kind := K_NONE, blk := blk d\<rparr>" by simp
  then have "flushed d d"
    using assms unfolding flushed_def good_def doc_ok_def by blast
  then show ?thesis using True by (simp add: doc_flush_def)
next
  case False
  obtain w where w: "block_wrap d = Inr w" "doc_block (dout d) w"
    using block_wrap_ok assms by (auto simp: yields_def good_def)
  have "nul_text (blk d @ [0])" using assms by (simp add: nul_text_snoc good_def doc_ok_def)
  then obtain w' where w': "render_inline w (blk d @ [0]) = Inr w'" "traced w w'"
    using trace.render_keeps [OF _ traced_refl] by (auto simp: yields_def)
  have "Q (wout (finish w'))"
    using block w(2) w'(2) assms by (auto simp: good_def)
  then have "flushed d (d\<lparr>dout := wout (finish w'), kind := K_NONE, blk := []\<rparr>)"
    unfolding flushed_def by (metis empty_iff list.set(1))
  then show ?thesis using False w w' by (simp add: doc_flush_def)
qed

lemma code_row_keeps:
  assumes "good d"
  shows "good (code_row bs d)"
proof -
  let ?w = "init_wrap (dout d) False (spaces 2) (spaces 2) []"
  obtain w n where w: "foldl code_byte (?w\<lparr>cur := S_C\<rparr>, 0) bs = (w, n)" by fastforce
  have "traced ?w (fst (foldl code_byte (?w\<lparr>cur := S_C\<rparr>, 0) bs))"
    by (intro trace.code_bytes_keep trace.restyle_keeps traced_refl)
  then have "traced ?w w" using w by simp
  moreover have "doc_block (dout d) ?w" by (rule spaces_block) simp_all
  ultimately have "Q (wout (finish w))"
    using block assms by (auto simp: good_def)
  then show ?thesis using assms w by (auto simp: code_row_def good_def doc_ok_def)
qed

lemma flushed_good: "good d \<Longrightarrow> flushed d d' \<Longrightarrow> good d'"
  by (auto simp: flushed_def good_def doc_ok_def)

lemma bind_flush:
  assumes "good d" and "\<And>d'. flushed d d' \<Longrightarrow> yields (f d') R"
  shows "yields (bind_res (doc_flush d) f) R"
  unfolding yields_bind by (rule yields_mono [OF flush_keeps [OF assms(1)] assms(2)])

lemma start_keeps:
  assumes "good d" and "0 \<notin> set content" and "k = K_HEAD \<longrightarrow> level d \<noteq> None" and "k \<noteq> K_LIST"
  shows "yields (doc_start k content d) (\<lambda>d'. good d' \<and> in_list d' = in_list d \<and> list_cont d' = list_cont d)"
  unfolding doc_start_def
proof (rule bind_flush [OF assms(1)])
  fix d' assume "flushed d d'"
  then show "yields (Inr (d'\<lparr>kind := k, blk := content\<rparr>))
      (\<lambda>d'. good d' \<and> in_list d' = in_list d \<and> list_cont d' = list_cont d)"
    using assms by (auto simp: flushed_def good_def doc_ok_def)
qed

lemma blank_line_keeps:
  assumes "good d"
  shows "yields (blank_line d) good"
  unfolding blank_line_def
proof (rule bind_flush [OF assms])
  fix d' assume "flushed d d'"
  from flushed_good [OF assms this]
  show "yields (Inr (if any_out (dout d') then d'\<lparr>dout := (dout d')\<lparr>need_blank := True\<rparr>\<rparr> else d')) good"
    using want_blank [of "dout d'"] by (simp add: good_def doc_ok_def)
qed

lemma fence_line_keeps:
  assumes "good d" and "in_fence d"
  shows "yields (fence_line ind s L d) good"
proof -
  have "\<exists>b. (if ind < 4 \<and> length s \<ge> flen d then bind_res (idx s 0) (\<lambda>c. Inr (c = fch d))
      else Inr False) = Inr b"
  proof (cases "ind < 4 \<and> length s \<ge> flen d")
    case True
    then have "0 < length s" using assms by (auto simp: good_def doc_ok_def)
    then show ?thesis using True by simp
  qed auto
  then obtain b where b: "(if ind < 4 \<and> length s \<ge> flen d
      then bind_res (idx s 0) (\<lambda>c. Inr (c = fch d)) else Inr False) = Inr b" ..
  have "good (d\<lparr>in_fence := False\<rparr>)"
    using assms(1) by (auto simp: good_def doc_ok_def)
  then show ?thesis
    unfolding fence_line_def b bind_res_simps Let_def
    using code_row_keeps [OF assms(1)] by (auto split: if_split)
qed

lemma open_fence_keeps:
  assumes "good d" and "fence_opens ind s"
  shows "yields (open_fence ind s d) good"
  unfolding open_fence_def
proof (rule bind_flush [OF assms(1)])
  fix d' assume "flushed d d'"
  moreover have "0 < run (s ! 0) s"
    using assms(2) by (cases s) (auto simp: fence_opens_def run_def)
  ultimately show "yields (Inr (d'\<lparr>in_fence := True, fch := s ! 0, flen := run (s ! 0) s,
      fence_ind := ind, in_list := False\<rparr>)) good"
    using assms(1) by (auto simp: flushed_def good_def doc_ok_def)
qed

lemma setext_keeps:
  assumes "good d"
  shows "yields (setext s d) good"
  unfolding setext_def
proof (rule bind_flush)
  show good: "good (d\<lparr>kind := K_HEAD, level := Some (if s ! 0 = 61 then 1 else 2)\<rparr>)"
    using assms by (simp add: good_def doc_ok_def)
  fix d' assume "flushed (d\<lparr>kind := K_HEAD, level := Some (if s ! 0 = 61 then 1 else 2)\<rparr>) d'"
  from flushed_good [OF good this] show "yields (Inr (d'\<lparr>in_list := False\<rparr>)) good"
    by (simp add: good_def doc_ok_def)
qed

lemma hr_frame [simp]:
  "doc_ok (hr d) = doc_ok d" "doc_ok (quote_blank d) = doc_ok d" "doc_ok (d\<lparr>in_list := b\<rparr>) = doc_ok d"
  by (simp_all add: hr_def quote_blank_def doc_ok_def Let_def)

lemma rule_line_keeps:
  assumes "good d"
  shows "yields (rule_line d) good"
  unfolding rule_line_def
proof (rule bind_flush [OF assms])
  fix d' assume "flushed d d'"
  from flushed_good [OF assms this] show "yields (Inr ((hr d')\<lparr>in_list := False\<rparr>)) good"
    by (simp add: good_def rule_row)
qed

lemma heading_keeps:
  assumes "good d" and "0 \<notin> set s"
  shows "yields (heading s d) good"
proof -
  have tx: "0 \<notin> set (atx_text (drop (run 35 s) s))"
    using assms(2)
    by (auto simp: atx_text_def Let_def rstrip_blank_def lstrip_def
        dest!: set_dropWhileD in_set_dropD)
  show ?thesis
    unfolding heading_def Let_def doc_start_def
  proof (simp only: yields_bind yields_Inr, rule yields_mono [OF flush_keeps [OF assms(1)]])
    fix d' assume d': "flushed d d'"
    let ?d = "d'\<lparr>kind := K_HEAD, blk := atx_text (drop (run 35 s) s)\<rparr>\<lparr>level := Some (run 35 s)\<rparr>"
    have good: "good ?d"
      using d' assms(1) tx by (auto simp: flushed_def good_def doc_ok_def)
    show "yields (doc_flush ?d) (\<lambda>x. good (x\<lparr>in_list := False\<rparr>))"
      by (rule yields_mono [OF flush_keeps [OF good]])
        (use flushed_good [OF good] in \<open>simp add: good_def\<close>)
  qed
qed

end
section \<open>Lines and documents\<close>

lemma indent_rest: "indent n L = (ind, s) \<Longrightarrow> set s \<subseteq> set L"
  by (induction n L arbitrary: ind s rule: indent.induct) (auto split: if_splits)

lemma quote_rest_set: "set (quote_rest s) \<subseteq> set s"
proof (induction s rule: quote_rest.induct)
  case (2 c cs)
  have "set (skip_space cs) \<subseteq> set cs" by (auto simp: skip_space_def split: list.split)
  with 2 show ?case by auto
qed simp

lemma lstrip_set: "set (lstrip s) \<subseteq> set s"
  by (auto simp: lstrip_def dest: set_dropWhileD)

lemma cont_is_high:
  assumes "is_cont c"
  shows "128 \<le> unat c"
proof -
  have "c AND 0xC0 = 0x80" using assms by (simp add: is_cont_def)
  then have "bit (c AND 0xC0) 7" by simp
  then have "bit (unat c) 7" by (simp add: bit_and_iff bit_unat_byte)
  then show ?thesis by (simp add: bit_iff_odd) (metis div_less even_zero not_le)
qed

lemma marker_byte: "32 \<le> c \<Longrightarrow> c < 127 \<Longrightarrow> printable c \<and> \<not> is_cont c"
  using cont_is_high [of c] by (auto simp: printable_def word_less_nat_alt word_le_nat_alt)

lemma digit_marker: "is_digit c \<Longrightarrow> printable c \<and> \<not> is_cont c"
  by (rule marker_byte) (auto simp: is_digit_def word_le_nat_alt word_less_nat_alt)

lemma list_marker_ok:
  assumes "list_marker ind s = Some (mk, q)"
  shows "marker_ok mk \<and> length mk \<le> 10"
proof (cases "(s ! 0 = 45 \<or> s ! 0 = 42 \<or> s ! 0 = 43) \<and> (length s = 1 \<or> blank (s ! 1))")
  case True
  then show ?thesis
    using assms marker_byte [of 42] marker_byte [of 45]
    by (auto simp: list_marker_def marker_ok_def split: if_splits)
next
  case False
  define n where "n = length (takeWhile is_digit (take 9 s))"
  have mk: "mk = take (n + 1) s" and at: "s ! n = 46 \<or> s ! n = 41" and len: "n < length s"
    using assms False by (auto simp: list_marker_def n_def Let_def split: if_splits)
  have "n \<le> 9"
    unfolding n_def by (rule order_trans [OF length_takeWhile_le]) simp
  have "take n s = takeWhile is_digit (take 9 s)"
    by (metis n_def \<open>n \<le> 9\<close> min.absorb1 take_take takeWhile_eq_take)
  then have "\<forall>c\<in>set (take n s). is_digit c"
    by (auto dest: set_takeWhileD)
  moreover have "mk = take n s @ [s ! n]" using mk len by (simp add: take_Suc_conv_app_nth)
  ultimately show ?thesis
    using at \<open>n \<le> 9\<close> digit_marker marker_byte [of 46] marker_byte [of 41]
    by (auto simp: marker_ok_def)
qed

context doc_property
begin

lemma list_item_keeps:
  assumes "good d" and "0 \<notin> set s" and "marker_ok mk" and "length mk \<le> 10"
  shows "yields (list_item ind s mk q d) good"
proof -
  have "0 \<notin> set (lstrip (drop q s))"
    using lstrip_set [of "drop q s"] assms(2) by (auto dest: in_set_dropD)
  then show ?thesis
    unfolding list_item_def doc_start_def Let_def
    using assms
    by (simp only: yields_bind yields_Inr,
        intro yields_mono [OF flush_keeps [OF assms(1)]])
      (auto simp: flushed_def good_def doc_ok_def)
qed

lemma quote_line_keeps:
  assumes "good d" and "0 \<notin> set s"
  shows "yields (quote_line s d) good"
proof -
  let ?c = "lstrip (quote_rest s)"
  have c: "0 \<notin> set ?c"
    using lstrip_set quote_rest_set assms(2) by blast
  have "yields (bind_res (doc_flush d) (\<lambda>d. Inr (quote_blank d))) good"
    by (rule bind_flush [OF assms(1)])
      (use flushed_good [OF assms(1)] bar_row in \<open>auto simp: good_def\<close>)
  moreover have "good (d\<lparr>blk := blk d @ 32 # ?c, in_list := False\<rparr>)"
    using assms(1) c by (auto simp: good_def doc_ok_def)
  moreover have "yields (doc_start K_QUOTE ?c d) (\<lambda>d. good (d\<lparr>in_list := False\<rparr>))"
    by (rule yields_mono [OF start_keeps [OF assms(1) c]]) (auto simp: good_def)
  ultimately show ?thesis
    by (simp add: quote_line_def Let_def yields_bind)
qed

lemma table_line_keeps:
  assumes "good d" and "0 \<notin> set s"
  shows "yields (table_line s d) good"
proof -
  have "yields (doc_start K_TABLE s d) good"
    by (rule yields_mono [OF start_keeps [OF assms]]) auto
  moreover have "yields (bind_res (doc_flush d') (\<lambda>d. Inr (d\<lparr>in_list := False\<rparr>))) good"
    if "good d'" for d'
    by (rule bind_flush [OF that]) (use flushed_good [OF that] in \<open>simp add: good_def\<close>)
  ultimately show ?thesis
    unfolding table_line_def yields_bind [of "doc_start K_TABLE s d"] by (rule yields_mono)
qed

lemma text_line_keeps:
  assumes "good d" and "0 \<notin> set s"
  shows "yields (text_line ind s d) good"
proof -
  let ?d = "if ind = 0 then d\<lparr>in_list := False\<rparr> else d"
  have "good ?d" using assms(1) by (simp add: good_def)
  then have "yields (doc_start K_PARA s ?d)
      (\<lambda>d'. good (d'\<lparr>margin := if in_list d' then list_cont d' else 0\<rparr>))"
    unfolding doc_start_def yields_bind yields_Inr
    by (intro yields_mono [OF flush_keeps])
      (auto simp: flushed_def good_def doc_ok_def assms(2))
  moreover have "good (d\<lparr>blk := (if blk d = [] then [] else blk d @ [32]) @ s\<rparr>)"
    using assms by (auto simp: good_def doc_ok_def)
  ultimately show ?thesis by (simp add: text_line_def yields_bind)
qed

lemma line_keeps:
  assumes "good d" and "0 \<notin> set L"
  shows "yields (doc_line d L) good"
proof -
  obtain ind s where s: "indent 0 L = (ind, s)" by fastforce
  then have nz: "0 \<notin> set s" using indent_rest assms(2) by blast
  note keeps = fence_line_keeps [OF assms(1)] blank_line_keeps [OF assms(1)]
    open_fence_keeps [OF assms(1)] setext_keeps [OF assms(1)] rule_line_keeps [OF assms(1)]
    heading_keeps [OF assms(1) nz] quote_line_keeps [OF assms(1) nz]
    table_line_keeps [OF assms(1) nz] text_line_keeps [OF assms(1) nz] code_row_keeps [OF assms(1)]
  show ?thesis
    using keeps list_item_keeps [OF assms(1) nz]
    by (auto simp: doc_line_def s split: option.split dest: list_marker_ok)
qed

lemma lines_keep: "good d \<Longrightarrow> yields (doc_lines d Ls) good"
proof (induction Ls arbitrary: d)
  case (Cons L Ls)
  have "yields (doc_line d (filter (\<lambda>x. x \<noteq> 13 \<and> x \<noteq> 0) L)) good"
    using Cons.prems by (rule line_keeps) simp
  then show ?case
    unfolding doc_lines.simps yields_bind by (rule yields_mono) (rule Cons.IH)
qed simp

lemma render_keeps:
  assumes "Q (init_out W pl)"
  shows "\<exists>ou. render bs W pl = Inr (rows ou) \<and> Q ou"
proof -
  have "good (init_doc W pl)"
    using assms by (simp add: good_def init_doc_def doc_ok_def)
  then obtain d where d: "doc_lines (init_doc W pl) (source_lines bs) = Inr d" "good d"
    using lines_keep by (auto simp: yields_def)
  obtain d' where d': "doc_flush d = Inr d'" "flushed d d'"
    using flush_keeps [OF d(2)] by (auto simp: yields_def)
  then have "Q (dout d')" by (auto simp: flushed_def)
  then show ?thesis using d(1) d'(1) by (auto simp: render_def)
qed

end
section \<open>The properties of the renderer\<close>

lemma traced_frame:
  assumes "traced w w'"
  shows "plain (wout w') = plain (wout w)" and "out_W (wout w') = out_W (wout w)"
  using assms by (auto simp: traced_def)

lemma closed_prefix:
  assumes "good_prefix p n" and "closed_row b"
  shows "closed_row (p @ b)" and "vis (p @ b) = n + vis b"
proof -
  have p: "screen p = tty0 (ink p) plain_pen" and n: "vis p = n"
    using assms(1) by (simp_all add: good_prefix_def)
  have "screen b = tty0 (ink b) plain_pen"
    using assms(2) by (simp add: closed_row_def)
  note c = screen_append [OF p this]
  then show "closed_row (p @ b)" unfolding closed_row_def by blast
  show "vis (p @ b) = n + vis b" using n by (simp add: vis_ink c(2))
qed

lemma with_prefix_rows:
  assumes "r \<in> set (with_prefix p q bs)"
  obtains b where "b \<in> set bs" and "r = p @ b \<or> r = q @ b"
  using assms by (cases bs) auto

text \<open>The rows are complete and fit a screen of \<open>W\<close> columns.\<close>

definition row_fits :: "int \<Rightarrow> byte list \<Rightarrow> bool" where
  "row_fits W r \<longleftrightarrow> int (vis r) \<le> W \<and> tmode (screen r) = Text \<and> pen (screen r) = plain_pen"

definition fits_screen :: "int \<Rightarrow> out \<Rightarrow> bool" where
  "fits_screen W ou \<longleftrightarrow> out_W ou = W \<and> 20 \<le> W \<and> list_all (row_fits W) (rows ou)"

lemma fits_pay_blank: "fits_screen W (pay_blank ou) = fits_screen W ou"
  by (auto simp: fits_screen_def row_fits_def pay_blank_def row_def)

lemma fits_row:
  "fits_screen W ou \<Longrightarrow> row_fits W r \<Longrightarrow> fits_screen W (row ou r)"
  by (simp add: fits_screen_def row_def)

lemma closed_row_screen: "closed_row r \<Longrightarrow> tmode (screen r) = Text \<and> pen (screen r) = plain_pen"
  by (metis closed_row_def tty0_simps(1,2))

lemma block_fits:
  assumes "fits_screen W ou" and "doc_block ou w" and "traced w w'"
  shows "fits_screen W (wout (finish w'))"
proof -
  obtain wd f g bs p q n where w: "w = init_wrap ou wd f g bs" and pre: "prefixed w p q n"
    and n: "n < 20"
    using assms(2) by (auto simp: doc_block_def)
  have st: "\<not> started w" by (simp add: w)
  obtain evs rs where r: "rows (wout (finish w')) = rows (pay_blank (wout w)) @ rs"
    and sh: "block_shows (words w) (out_W (wout w)) p q n (emitted w evs) rs"
    by (rule block_of_trace [OF pre st assms(3)])
  have "row_fits W x" if x: "x \<in> set rs" for x
  proof -
    obtain b where b: "closed_row b" "int (n + vis b) \<le> W" "x = p @ b \<or> x = q @ b"
      using sh x assms(1) n
      by (auto simp: block_shows_def fits_screen_def w elim!: with_prefix_rows)
    then show ?thesis
      using closed_prefix [of p n b] closed_prefix [of q n b] pre closed_row_screen
      by (auto simp: prefixed_def row_fits_def)
  qed
  moreover have "fits_screen W (pay_blank ou)" using assms(1) by (simp add: fits_pay_blank)
  ultimately show ?thesis
    using r traced_frame [OF assms(3)]
    by (auto simp: fits_screen_def w list_all_iff)
qed

lemma bar_fits: "row_fits W ((if pl then [] else BAR_SGR) @ [124] @ (if pl then [] else RESET))"
  if "20 \<le> W"
  using that by (simp add: row_fits_def vis_ink ink_def is_cont_def)

lemma feed_dashes:
  "feed (tty0 g p) (replicate n 45) = tty0 (g @ replicate n (glyph p 45)) p"
  by (subst feed_text) (auto simp: map_replicate)

lemma cols_dashes: "cols (replicate n (glyph p 45)) = n"
  by (induction n) (simp_all add: is_cont_def)

lemma hr_fits:
  "row_fits W ((if pl then [] else HR_SGR) @ replicate (nat W) 45 @ (if pl then [] else RESET))"
  if "20 \<le> W"
  using that by (simp add: row_fits_def vis_ink ink_def feed_dashes cols_dashes)

interpretation screenful: doc_property "fits_screen W" for W
proof
  fix d :: doc
  assume Q: "fits_screen W (dout d)"
  then have "20 \<le> W" and out: "out_W (pay_blank (dout d)) = W"
    by (simp_all add: fits_screen_def)
  then show "fits_screen W (dout (hr d))" and "fits_screen W (dout (quote_blank d))"
    using Q fits_row [of W "pay_blank (dout d)", OF _ hr_fits [of W "plain (dout d)"]]
      fits_row [of W "pay_blank (dout d)", OF _ bar_fits [of W "plain (dout d)"]]
    by (simp_all add: hr_def quote_blank_def Let_def fits_pay_blank del: append_assoc)
qed ((erule block_fits; assumption) | simp add: fits_screen_def)+

text \<open>In plain mode a row holds printable bytes only.\<close>

definition plain_doc :: "out \<Rightarrow> bool" where
  "plain_doc ou \<longleftrightarrow> plain ou \<and> printable_rows (rows ou)"

lemma block_plain:
  assumes "plain_doc ou" and "doc_block ou w" and "traced w w'"
  shows "plain_doc (wout (finish w'))"
proof -
  have "plain_wrap w"
    using assms(1,2)
    by (auto simp: doc_block_def plain_wrap_def plain_doc_def prefixed_def)
  moreover obtain evs s where "w' = (emits w evs)\<lparr>cur := s\<rparr>"
    using assms(3) by (auto simp: traced_def)
  ultimately have "plain_wrap w'" using printing.emits_keep by simp
  then show ?thesis
    using finish_plain by (auto simp: plain_doc_def plain_wrap_def)
qed

lemma plain_doc_steps:
  "plain_doc (pay_blank ou) = plain_doc ou"
  "plain_doc ou \<Longrightarrow> \<forall>c\<in>set r. printable c \<Longrightarrow> plain_doc (row ou r)"
  by (auto simp: plain_doc_def plain_pay_blank) (auto simp: row_def printable_rows_def)

interpretation plainness: doc_property plain_doc
proof
  fix d :: doc
  assume Q: "plain_doc (dout d)"
  then have "plain (pay_blank (dout d))" by (simp add: plain_doc_def)
  with Q show "plain_doc (dout (hr d))" and "plain_doc (dout (quote_blank d))"
    by (auto simp: hr_def quote_blank_def Let_def plain_doc_steps printable_def
        intro!: plain_doc_steps(2))
qed ((erule block_plain; assumption) | simp add: plain_doc_def)+

interpretation anything: doc_property "\<lambda>ou. True"
  by unfold_locales auto

text \<open>
  C12. Whatever bytes the file holds and whatever \<open>-w\<close> says, the program raises no
  exception, and every row it prints fits the screen width it computes from \<open>-w\<close>, ends
  outside an escape sequence and leaves the terminal reset. The lower bound 20 of that width
  is needed: a list item's prefix takes up to 19 columns.
\<close>

theorem mdv_fits_the_screen:
  "\<exists>rs. mdv_main bs w pl = Inr (concat (map (\<lambda>r. r @ [10]) rs))
     \<and> render bs (screen_width w) pl = Inr rs
     \<and> list_all (\<lambda>r. int (vis r) \<le> screen_width w \<and> tmode (screen r) = Text
          \<and> pen (screen r) = plain_pen) rs"
proof -
  have "fits_screen (screen_width w) (init_out (screen_width w) pl)"
    by (simp add: fits_screen_def init_out_def screen_width_def)
  from screenful.render_keeps [OF this, of bs] obtain ou where
    "render bs (screen_width w) pl = Inr (rows ou)" "fits_screen (screen_width w) ou" by blast
  then show ?thesis
    by (intro exI [of _ "rows ou"])
      (simp add: mdv_main_def fits_screen_def row_fits_def [abs_def])
qed

text \<open>
  C13. In plain mode the rows hold no escape sequence and no other control byte, at any
  width: a file cannot drive the terminal.
\<close>

theorem plain_output_is_printable:
  "\<exists>rs. render bs W True = Inr rs \<and> list_all (list_all (\<lambda>c. \<not> c < 32 \<and> c \<noteq> 127)) rs"
proof -
  have "plain_doc (init_out W True)"
    by (simp add: plain_doc_def init_out_def printable_rows_def)
  from plainness.render_keeps [OF this, of bs] obtain ou where
    "render bs W True = Inr (rows ou)" "plain_doc ou" by blast
  then show ?thesis
    by (auto simp: plain_doc_def printable_rows_def printable_def list_all_iff)
qed

subsection \<open>Code lines\<close>

text \<open>The text of a code line: tabs to the next multiple of eight, control bytes dropped.\<close>

fun code_text :: "nat \<Rightarrow> byte list \<Rightarrow> byte list" where
  "code_text n [] = []"
| "code_text n (c # cs) =
     (if c = 9 then replicate (8 - n mod 8) 32 @ code_text (n + (8 - n mod 8)) cs
      else if c < 32 \<or> c = 127 then code_text n cs
      else c # code_text (if is_cont c then n else n + 1) cs)"

lemma and_7: "(n::nat) AND 7 = n mod 8"
proof -
  have "(7::nat) = mask 3" by (simp add: mask_eq_exp_minus_1)
  then show ?thesis by (simp only: take_bit_eq_mask [symmetric]) (simp add: take_bit_eq_mod)
qed

lemma put_char_laid:
  assumes "laid w p q n old g" and "\<not> words w" and "\<not> c < 32" and "c \<noteq> 127"
  shows "laid (put w c) p q n old (g @ [glyph (pen_of (plain (wout w)) (base w) (cur w)) c])"
proof -
  have "c \<noteq> 9" using assms(3) by auto
  then show ?thesis
    using put_laid [OF assms(1), of c] assms(2-4) by (simp add: put_glyphs_def text_byte_def)
qed

lemma put_all_frame [simp]:
  "words (put_all w cs) = words w" "cur (put_all w cs) = cur w" "base (put_all w cs) = base w"
  "plain (wout (put_all w cs)) = plain (wout w)"
  unfolding put_all_def by (induction cs arbitrary: w) simp_all

lemma put_spaces_laid:
  assumes "laid w p q n old g" and "\<not> words w"
  shows "laid (put_all w (replicate k 32)) p q n old
     (g @ map (glyph (pen_of (plain (wout w)) (base w) (cur w))) (replicate k 32))"
  using assms
proof (induction k arbitrary: w g)
  case (Suc k)
  have "laid (put w 32) p q n old (g @ [glyph (pen_of (plain (wout w)) (base w) (cur w)) 32])"
    by (rule put_char_laid [OF Suc.prems]) simp_all
  from Suc.IH [OF this] Suc.prems(2) show ?case by simp
qed (simp add: put_all_def)

lemma code_bytes_laid:
  assumes "laid w p q n old g" and "\<not> words w"
  shows "laid (fst (foldl code_byte (w, k) bs)) p q n old
     (g @ map (glyph (pen_of (plain (wout w)) (base w) (cur w))) (code_text k bs))"
  using assms
proof (induction bs arbitrary: w k g)
  case (Cons c bs)
  consider "c = 9" | "c \<noteq> 9" "c < 32 \<or> c = 127" | "c \<noteq> 9" "\<not> c < 32" "c \<noteq> 127" by blast
  then show ?case
  proof cases
    case 1
    then show ?thesis
      using Cons.IH [OF put_spaces_laid [OF Cons.prems], of "8 - k mod 8" "k + (8 - k mod 8)"]
        Cons.prems(2) by (simp add: code_byte_def and_7)
  next
    case 2
    then show ?thesis using Cons by (simp add: code_byte_def)
  next
    case 3
    then show ?thesis
      using Cons.IH [OF put_char_laid [OF Cons.prems 3(2,3)], of "if is_cont c then k else k + 1"]
        Cons.prems(2) by (simp add: code_byte_def)
  qed
qed simp

text \<open>
  C14. A line of a code block is shown verbatim in the code style, indented by two columns:
  every byte that is not a control byte in its order, spaces included, tabs expanded to
  stops of eight columns. A longer line continues on further rows of the same indentation.
\<close>

theorem code_line_is_verbatim:
  "\<exists>rs. rows (dout (code_row txt d)) = rows (pay_blank (dout d)) @ rs
     \<and> block_shows False (out_W (dout d)) [32, 32] [32, 32] 2
         (map (glyph (pen_of (plain (dout d)) [] S_C)) (code_text 0 txt)) rs"
proof -
  let ?w = "init_wrap (dout d) False (spaces 2) (spaces 2) []"
  let ?w' = "fst (foldl code_byte (?w\<lparr>cur := S_C\<rparr>, 0) txt)"
  let ?old = "rows (pay_blank (dout d))"
  have two: "[32, 32 :: byte] = replicate 2 32" by (simp add: numeral_2_eq_2)
  have "prefixed ?w [32, 32] [32, 32] 2"
    unfolding two by (rule prefixed_spaces) simp
  then have start: "laid (?w\<lparr>cur := S_C\<rparr>) [32, 32] [32, 32] 2 ?old []"
    unfolding restyle_laid by (simp add: laid_def)
  have "traced ?w ?w'"
    by (intro trace.code_bytes_keep trace.restyle_keeps traced_refl)
  then have "out_W (wout ?w') = out_W (dout d)" and "words ?w' = False"
    by (auto simp: traced_def)
  then show ?thesis
    using finish_laid [OF code_bytes_laid [OF start, of 0 "txt"]]
    by (simp add: code_row_def split_beta)
qed

end
