(* ===== verification/Py_Text.thy ===== *)
theory Py_Text
  imports Prelude
begin

text \<open>
  The strings and dictionaries the build tools use: \<open>str\<close> methods on ASCII and Latin-1
  text, Python's \<open>int\<close> of a decimal or hexadecimal literal, and a \<open>dict\<close> as an
  association list in insertion order. The regular expressions of the tools are translated
  by hand where they are used, into the scanners defined here.
\<close>

section \<open>Characters\<close>

definition code :: "char \<Rightarrow> nat" where
  "code c = of_char c"

definition is_space :: "char \<Rightarrow> bool" where
  "is_space c \<longleftrightarrow> (let n = code c in 9 \<le> n \<and> n \<le> 13 \<or> 28 \<le> n \<and> n \<le> 32 \<or> n = 133 \<or> n = 160)"

definition is_dec :: "char \<Rightarrow> bool" where
  "is_dec c \<longleftrightarrow> 48 \<le> code c \<and> code c \<le> 57"

definition is_hex :: "char \<Rightarrow> bool" where
  "is_hex c \<longleftrightarrow> is_dec c \<or> 65 \<le> code c \<and> code c \<le> 70 \<or> 97 \<le> code c \<and> code c \<le> 102"

text \<open>\<open>[A-Za-z_]\<close> and \<open>[A-Za-z0-9_]\<close>.\<close>

definition is_alpha :: "char \<Rightarrow> bool" where
  "is_alpha c \<longleftrightarrow> 65 \<le> code c \<and> code c \<le> 90 \<or> 97 \<le> code c \<and> code c \<le> 122 \<or> code c = 95"

definition is_ident_char :: "char \<Rightarrow> bool" where
  "is_ident_char c \<longleftrightarrow> is_alpha c \<or> is_dec c"

definition digit_val :: "char \<Rightarrow> nat" where
  "digit_val c = (let n = code c in if n \<le> 57 then n - 48 else if n \<le> 70 then n - 55 else n - 87)"

section \<open>Strings\<close>

definition strip :: "string \<Rightarrow> string" where
  "strip s = rev (dropWhile is_space (rev (dropWhile is_space s)))"

definition skip_ws :: "string \<Rightarrow> string" where
  "skip_ws s = dropWhile is_space s"

text \<open>\<open>s.split()\<close>: the pieces between runs of whitespace.\<close>

function split_ws :: "string \<Rightarrow> string list" where
  "split_ws s =
     (let r = skip_ws s in
      if r = [] then []
      else takeWhile (\<lambda>c. \<not> is_space c) r # split_ws (dropWhile (\<lambda>c. \<not> is_space c) r))"
  by pat_completeness auto
termination
proof (relation "measure length", goal_cases)
  case (2 s r)
  then have "r \<noteq> []" and "\<not> is_space (hd r)"
    using hd_dropWhile [of is_space s] by (auto simp: skip_ws_def)
  then have "length (dropWhile (\<lambda>c. \<not> is_space c) r) < length r"
    by (cases r) (auto simp: le_imp_less_Suc length_dropWhile_le)
  also have "length r \<le> length s" using 2 by (simp add: skip_ws_def length_dropWhile_le)
  finally show ?case by simp
qed simp

declare split_ws.simps [simp del]

text \<open>Positional numbers: \<open>int(s, b)\<close> of a string of digits.\<close>

definition from_digits :: "nat \<Rightarrow> string \<Rightarrow> nat" where
  "from_digits b s = foldl (\<lambda>n c. n * b + digit_val c) 0 s"

text \<open>\<open>int(s, 16)\<close>: a sign, the prefix \<open>0x\<close>, digits with single underscores between.\<close>

fun hex_digits :: "string \<Rightarrow> string option" where
  "hex_digits [] = None"
| "hex_digits [c] = (if is_hex c then Some [c] else None)"
| "hex_digits (c # d # s) =
     (if \<not> is_hex c then None
      else case hex_digits (if d = CHR ''_'' then s else d # s) of
        None \<Rightarrow> None | Some ds \<Rightarrow> Some (c # ds))"

definition strip_0x :: "string \<Rightarrow> string" where
  "strip_0x s =
     (case s of a # x # r \<Rightarrow>
        if a = CHR ''0'' \<and> (x = CHR ''x'' \<or> x = CHR ''X'') then
          (case r of c # r' \<Rightarrow> if c = CHR ''_'' then r' else r | [] \<Rightarrow> [])
        else s
      | _ \<Rightarrow> s)"

definition int_16 :: "string \<Rightarrow> int option" where
  "int_16 s =
     (let t = strip s;
          neg = (t \<noteq> [] \<and> hd t = CHR ''-'');
          u = (if t \<noteq> [] \<and> (hd t = CHR ''-'' \<or> hd t = CHR ''+'') then tl t else t)
      in case hex_digits (strip_0x u) of
           None \<Rightarrow> None
         | Some ds \<Rightarrow> let n = int (from_digits 16 ds) in Some (if neg then - n else n))"

text \<open>\<open>int(s)\<close>: the same without a prefix.\<close>

definition int_10 :: "string \<Rightarrow> int option" where
  "int_10 s =
     (let t = strip s;
          neg = (t \<noteq> [] \<and> hd t = CHR ''-'');
          u = (if t \<noteq> [] \<and> (hd t = CHR ''-'' \<or> hd t = CHR ''+'') then tl t else t)
      in case hex_digits u of
           None \<Rightarrow> None
         | Some ds \<Rightarrow>
             if list_all is_dec ds
             then let n = int (from_digits 10 ds) in Some (if neg then - n else n) else None)"

text \<open>\<open>os.path.splitext(p)[0]\<close>: leading dots of the file name start no extension.\<close>

definition splitext_root :: "string \<Rightarrow> string" where
  "splitext_root p =
     (let r = rev p;
          rest = dropWhile (\<lambda>c. c \<noteq> CHR ''.'' \<and> c \<noteq> CHR ''/'') r
      in if rest \<noteq> [] \<and> hd rest = CHR ''.''
            \<and> (\<exists>c\<in>set (takeWhile (\<lambda>c. c \<noteq> CHR ''/'') (tl rest)). c \<noteq> CHR ''.'')
         then rev (tl rest) else p)"

section \<open>Dictionaries\<close>

type_synonym 'v dict = "(string \<times> 'v) list"

fun dict_set :: "string \<Rightarrow> 'v \<Rightarrow> 'v dict \<Rightarrow> 'v dict" where
  "dict_set k v [] = [(k, v)]"
| "dict_set k v ((k', v') # d) = (if k = k' then (k, v) # d else (k', v') # dict_set k v d)"

definition dict_get :: "'v dict \<Rightarrow> string \<Rightarrow> 'v res" where
  "dict_get d k = (case map_of d k of None \<Rightarrow> Inl KeyError | Some v \<Rightarrow> Inr v)"

lemma map_of_dict_set [simp]: "map_of (dict_set k v d) = (map_of d)(k \<mapsto> v)"
  by (induction k v d rule: dict_set.induct) auto

lemma distinct_dict_set [simp]:
  "distinct (map fst (dict_set k v d)) = distinct (map fst d)"
proof (induction k v d rule: dict_set.induct)
  case (2 k v k' v' d)
  have "set (map fst (dict_set k v d)) = insert k (set (map fst d))"
    by (induction k v d rule: dict_set.induct) auto
  with 2 show ?case by auto
qed simp

lemma fst_dict_set: "fst ` set (dict_set k v d) = insert k (fst ` set d)"
  by (induction k v d rule: dict_set.induct) auto

lemma dict_get_eq_Inr: "dict_get d k = Inr v \<longleftrightarrow> map_of d k = Some v"
  by (simp add: dict_get_def split: option.split)

text \<open>
  Looking names up in a dictionary one after another ends when no name is looked up twice:
  the number of keys not seen yet.
\<close>

definition unseen :: "'v dict \<Rightarrow> string list \<Rightarrow> nat" where
  "unseen d seen = length (filter (\<lambda>k. k \<notin> set seen) (map fst d))"

lemma unseen_decreases:
  assumes "k \<in> fst ` set d" and "k \<notin> set seen"
  shows "unseen d (k # seen) < unseen d seen"
proof -
  have "filter (\<lambda>x. x \<notin> set (k # seen)) (map fst d)
      = filter (\<lambda>x. x \<noteq> k) (filter (\<lambda>x. x \<notin> set seen) (map fst d))"
    by (auto intro: filter_cong)
  moreover have "k \<in> set (filter (\<lambda>x. x \<notin> set seen) (map fst d))"
    using assms by auto
  ultimately show ?thesis
    unfolding unseen_def
    by (simp only:) (rule length_filter_less [of k], simp_all)
qed

lemma map_of_unseen:
  "map_of d k = Some v \<Longrightarrow> k \<notin> set seen \<Longrightarrow> unseen d (k # seen) < unseen d seen"
  by (rule unseen_decreases) (auto dest!: map_of_SomeD intro: image_eqI [rotated])

end
