(* ===== verification/Equ_Files.thy ===== *)
theory Equ_Files
  imports Py_Text
begin

text \<open>
  The constants of \<open>include/memmap.inc\<close> as \<open>tools/split_kernel.py\<close> reads them:
  \<open>read_equs\<close> scans \<open>NAME equ VALUE\<close> lines, \<open>eval_equ\<close> follows names to a number.
  The recursion of \<open>eval_equ\<close> ends because a name is followed once.
\<close>

section \<open>eval_equ\<close>

definition literal :: "string \<Rightarrow> nat option" where
  "literal t =
     (if t \<noteq> [] \<and> hd t = CHR ''$'' \<and> tl t \<noteq> [] \<and> list_all is_hex (tl t)
      then Some (from_digits 16 (tl t))
      else if t \<noteq> [] \<and> list_all is_dec t then Some (from_digits 10 t)
      else None)"

function eval_equ :: "string \<Rightarrow> string dict \<Rightarrow> string list \<Rightarrow> nat res" where
  "eval_equ txt equs seen =
     (let t = strip txt in
      case literal t of
        Some n \<Rightarrow> Inr n
      | None \<Rightarrow> (case map_of equs t of
            Some u \<Rightarrow> if t \<notin> set seen then eval_equ u equs (t # seen) else Inl ValueError
          | None \<Rightarrow> Inl ValueError))"
  by pat_completeness auto
termination
  by (relation "measure (\<lambda>(txt, equs, seen). unseen equs seen)") (auto intro: map_of_unseen)

declare eval_equ.simps [simp del]

lemma eval_equ_literal:
  "literal (strip t) = Some n \<Longrightarrow> eval_equ t equs seen = Inr n"
  by (subst eval_equ.simps) simp

lemma eval_equ_name:
  "literal (strip t) = None \<Longrightarrow> eval_equ t equs seen =
     (case map_of equs (strip t) of
        Some u \<Rightarrow> if strip t \<notin> set seen then eval_equ u equs (strip t # seen) else Inl ValueError
      | None \<Rightarrow> Inl ValueError)"
  by (subst eval_equ.simps) (simp add: Let_def)

section \<open>read_equs\<close>

text \<open>The keyword, in any case of its letters.\<close>

definition is_equ :: "string \<Rightarrow> bool" where
  "is_equ s \<longleftrightarrow> (case s of
       [a, b, c] \<Rightarrow> (a = CHR ''e'' \<or> a = CHR ''E'') \<and> (b = CHR ''q'' \<or> b = CHR ''Q'')
          \<and> (c = CHR ''u'' \<or> c = CHR ''U'')
     | _ \<Rightarrow> False)"

definition begins :: "(char \<Rightarrow> bool) \<Rightarrow> string \<Rightarrow> bool" where
  "begins P s \<longleftrightarrow> s \<noteq> [] \<and> P (hd s)"

text \<open>
  The pattern \<open>\s*([A-Za-z_][A-Za-z0-9_]*)\s*:?\s+equ\s+(\S+)\<close> at the start of a line.
  Every repetition may be taken as long as possible: what follows it cannot start with a
  character the repetition matches, except \<open>\s*\<close> before \<open>\s+\<close> when there is no
  colon, which together match any non-empty run of blanks.
\<close>

definition equ_line :: "string \<Rightarrow> (string \<times> string) option" where
  "equ_line line =
     (let s = skip_ws (takeWhile (\<lambda>c. c \<noteq> CHR '';'') line);
          name = takeWhile is_ident_char s;
          r = dropWhile is_ident_char s;
          c = skip_ws r;
          r = (if begins (\<lambda>x. x = CHR '':'') c then tl c else r);
          k = skip_ws r;
          v = drop 3 k;
          val = takeWhile (\<lambda>x. \<not> is_space x) (skip_ws v)
      in if begins is_alpha s \<and> begins is_space r \<and> is_equ (take 3 k) \<and> begins is_space v
            \<and> val \<noteq> []
         then Some (name, val) else None)"

definition read_equs :: "string list \<Rightarrow> string dict" where
  "read_equs ls =
     foldl (\<lambda>d l. case equ_line l of None \<Rightarrow> d | Some (k, v) \<Rightarrow> dict_set k v d) [] ls"

section \<open>What eval_equ computes\<close>

text \<open>Following names from a text to a literal, for at most \<open>k\<close> steps.\<close>

fun follow :: "nat \<Rightarrow> string dict \<Rightarrow> string \<Rightarrow> nat option" where
  "follow 0 equs txt = None"
| "follow (Suc k) equs txt = (case literal (strip txt) of
     Some n \<Rightarrow> Some n
   | None \<Rightarrow> (case map_of equs (strip txt) of None \<Rightarrow> None | Some u \<Rightarrow> follow k equs u))"

lemma follow_strip:
  assumes "strip s = strip t"
  shows "follow k equs s = follow k equs t"
  by (cases k) (simp_all only: follow.simps assms)

lemma follow_mono: "follow k equs t = Some n \<Longrightarrow> k \<le> j \<Longrightarrow> follow j equs t = Some n"
proof (induction k arbitrary: t j)
  case (Suc k)
  then obtain i where i: "j = Suc i" "k \<le> i" by (cases j) auto
  show ?case
  proof (cases "literal (strip t)")
    case None
    then obtain u where "map_of equs (strip t) = Some u" "follow k equs u = Some n"
      using Suc.prems(1) by (auto split: option.splits)
    then show ?thesis using Suc.IH [of u i] i None by simp
  qed (use Suc.prems i in simp)
qed simp

lemma eval_equ_follow:
  "eval_equ t equs seen = Inr n \<Longrightarrow> \<exists>k. follow k equs t = Some n"
proof (induction t equs seen rule: eval_equ.induct)
  case (1 t equs seen)
  show ?case
  proof (cases "literal (strip t)")
    case (Some m)
    with 1(2) have "follow (Suc 0) equs t = Some n" by (simp add: eval_equ_literal)
    then show ?thesis ..
  next
    case None
    then obtain u where u: "map_of equs (strip t) = Some u" "strip t \<notin> set seen"
      and r: "eval_equ u equs (strip t # seen) = Inr n"
      using 1(2) by (auto simp: eval_equ_name [OF None] split: option.splits if_splits)
    from 1(1) [OF refl None u r] obtain k where "follow k equs u = Some n" ..
    then have "follow (Suc k) equs t = Some n" using None u by simp
    then show ?thesis ..
  qed
qed

lemma follow_eval_equ:
  assumes "follow k equs t = Some n" and "\<forall>j<k. follow j equs t = None"
    and "\<forall>s\<in>set seen. \<forall>t. strip t = s \<longrightarrow> follow k equs t = None"
  shows "eval_equ t equs seen = Inr n"
  using assms
proof (induction k arbitrary: t seen)
  case (Suc k)
  show ?case
  proof (cases "literal (strip t)")
    case (Some m)
    with Suc.prems(1) show ?thesis by (simp add: eval_equ_literal)
  next
    case None
    then obtain u where u: "map_of equs (strip t) = Some u" "follow k equs u = Some n"
      using Suc.prems(1) by (auto split: option.splits)
    have new: "strip t \<notin> set seen" using Suc.prems(1,3) by auto
    have "follow j equs u = None" if "j < k" for j
      using Suc.prems(2) [rule_format, of "Suc j"] that None u by simp
    moreover have "follow k equs t' = None" if "strip t' = s" "s \<in> set (strip t # seen)" for s t'
    proof (cases "s = strip t")
      case True
      with Suc.prems(2) show ?thesis using follow_strip [of t' t] that by simp
    next
      case False
      with that have "follow (Suc k) equs t' = None" using Suc.prems(3) by auto
      then show ?thesis using follow_mono [of k equs t' _ "Suc k"] by (cases "follow k equs t'") auto
    qed
    ultimately have "eval_equ u equs (strip t # seen) = Inr n"
      using Suc.IH [OF u(2)] by blast
    with u new show ?thesis by (simp add: eval_equ_name [OF None])
  qed
qed simp

text \<open>
  C15. \<open>eval_equ\<close> returns a number exactly when following the names from the text, one
  constant after the other, reaches that number in finitely many steps. On every other
  text, a cycle of constants included, it raises \<open>ValueError\<close>.
\<close>

theorem eval_equ_follows_names:
  "(eval_equ t equs [] = Inr n) = (\<exists>k. follow k equs t = Some n)
   \<and> (eval_equ t equs [] = Inl ValueError) = (\<forall>k. follow k equs t = None)"
proof -
  have value_error: "eval_equ t equs seen = Inl e \<Longrightarrow> e = ValueError" for t seen e
  proof (induction t equs seen rule: eval_equ.induct)
    case (1 t equs seen)
    from 1(2) show ?case
      by (cases "literal (strip t)")
        (auto simp: eval_equ_name eval_equ_literal split: option.splits if_splits
          dest: 1(1) [OF refl])
  qed
  have found: "eval_equ t equs [] = Inr m" if "follow k equs t = Some m" for k m
  proof -
    define j where "j = (LEAST j. follow j equs t \<noteq> None)"
    have "follow j equs t \<noteq> None" unfolding j_def by (rule LeastI [of _ k]) (simp add: that)
    moreover have "\<forall>i<j. follow i equs t = None" unfolding j_def using not_less_Least by blast
    ultimately obtain m' where m': "follow j equs t = Some m'" "eval_equ t equs [] = Inr m'"
      using follow_eval_equ [of j equs t _ "[]"] by auto
    have "m = m'"
      using follow_mono [OF m'(1), of "max j k"] follow_mono [OF that, of "max j k"] by simp
    with m'(2) show ?thesis by simp
  qed
  show ?thesis
  proof (cases "eval_equ t equs []")
    case (Inl e)
    then have none: "follow k equs t = None" for k
      using found [of k] by (cases "follow k equs t") auto
    then show ?thesis using Inl value_error [OF Inl] by simp
  next
    case (Inr m)
    obtain k where k: "follow k equs t = Some m" using eval_equ_follow [OF Inr] ..
    have "n = m" if "follow j equs t = Some n" for j
      using found [OF that] Inr by simp
    with Inr k show ?thesis by auto
  qed
qed

section \<open>What read_equs reads\<close>

definition equ_name :: "string \<Rightarrow> bool" where
  "equ_name k \<longleftrightarrow> begins is_alpha k \<and> list_all is_ident_char k"

definition equ_value :: "string \<Rightarrow> bool" where
  "equ_value v \<longleftrightarrow> v \<noteq> [] \<and> list_all (\<lambda>c. \<not> is_space c \<and> c \<noteq> CHR '';'') v"

text \<open>A source line that defines a constant, with its comment.\<close>

definition equ_source :: "(string \<times> string) \<times> string \<Rightarrow> string" where
  "equ_source x = (case x of ((k, v), comment) \<Rightarrow> k @ '': equ '' @ v @ '' ;'' @ comment)"

lemma code_char [simp]: "code (CHR '';'') = 59" "code (CHR '':'') = 58" "code (CHR '' '') = 32"
  "code (CHR ''e'') = 101" "code (CHR ''q'') = 113" "code (CHR ''u'') = 117"
  by (simp_all add: code_def)

lemma alpha_not_space: "is_alpha c \<Longrightarrow> \<not> is_space c"
  by (auto simp: is_alpha_def is_space_def Let_def)

lemma ident_not_semicolon: "is_ident_char c \<Longrightarrow> c \<noteq> CHR '';''"
  by (auto simp: is_ident_char_def is_alpha_def is_dec_def)

lemma takeWhile_all_then:
  "list_all P xs \<Longrightarrow> \<not> P y \<Longrightarrow> takeWhile P (xs @ y # ys) = xs \<and> dropWhile P (xs @ y # ys) = y # ys"
  by (induction xs) simp_all

lemma skip_ws_begins: "begins (\<lambda>c. \<not> is_space c) s \<Longrightarrow> skip_ws s = s"
  by (cases s) (auto simp: skip_ws_def begins_def)

lemma equ_line_source:
  assumes "equ_name k" and "equ_value v"
  shows "equ_line (equ_source ((k, v), c)) = Some (k, v)"
proof -
  let ?body = "k @ '': equ '' @ v @ '' ''"
  have k: "begins is_alpha k" "list_all is_ident_char k" using assms(1) by (simp_all add: equ_name_def)
  have v: "v \<noteq> []" "list_all (\<lambda>c. \<not> is_space c) v" "list_all (\<lambda>c. c \<noteq> CHR '';'') v"
    using assms(2) by (auto simp: equ_value_def list_all_iff)
  have "list_all (\<lambda>c. c \<noteq> CHR '';'') ?body"
    using k(2) v(3) ident_not_semicolon by (auto simp: list_all_iff)
  from takeWhile_all_then [OF this, of "CHR '';''" c]
  have 1: "takeWhile (\<lambda>c. c \<noteq> CHR '';'') (equ_source ((k, v), c)) = ?body"
    by (simp add: equ_source_def)
  have 2: "skip_ws ?body = ?body"
    using k(1) alpha_not_space by (intro skip_ws_begins) (auto simp: begins_def)
  have "\<not> is_ident_char (CHR '':'')"
    by (simp add: is_ident_char_def is_alpha_def is_dec_def)
  from takeWhile_all_then [OF k(2) this, of "'' equ '' @ v @ '' ''"]
  have 3: "takeWhile is_ident_char ?body = k" "dropWhile is_ident_char ?body = '': equ '' @ v @ '' ''"
    by simp_all
  have sp: "is_space (CHR '' '')" "\<not> is_space (CHR '':'')" "\<not> is_space (CHR ''e'')"
    by (simp_all add: is_space_def)
  have 4: "skip_ws ('': equ '' @ v @ '' '') = '': equ '' @ v @ '' ''"
    "skip_ws ('' equ '' @ v @ '' '') = ''equ '' @ v @ '' ''"
    by (simp_all add: skip_ws_def sp)
  have "begins (\<lambda>c. \<not> is_space c) (v @ '' '')"
    using v(1,2) by (cases v) (auto simp: begins_def)
  then have 5: "skip_ws ('' '' @ v @ '' '') = v @ '' ''"
    using skip_ws_begins [of "v @ '' ''"] by (simp add: skip_ws_def sp)
  have 6: "takeWhile (\<lambda>x. \<not> is_space x) (v @ '' '') = v"
    using takeWhile_all_then [OF v(2), of "CHR '' ''" "[]"] sp by simp
  have "begins is_alpha ?body" using k(1) by (auto simp: begins_def)
  with 4 5 6 v(1) show ?thesis
    unfolding equ_line_def Let_def 1 2 3
    by (simp add: begins_def sp is_equ_def)
qed

lemma read_equs_lines:
  assumes "list_all (\<lambda>l. equ_line l \<noteq> None) ls"
  shows "map_of (read_equs ls) = map_of (rev (map (the \<circ> equ_line) ls))"
  using assms
proof (induction ls rule: rev_induct)
  case (snoc l ls)
  then obtain k v where "equ_line l = Some (k, v)" by auto
  with snoc show ?case by (auto simp: read_equs_def)
qed (simp add: read_equs_def)

text \<open>
  C16. Reading back a file of constants, one definition per line with a comment behind it,
  gives every name the value of its last definition, and no other name a value.
\<close>

theorem read_equs_roundtrip:
  assumes "list_all (\<lambda>((k, v), c). equ_name k \<and> equ_value v) tbl"
  shows "map_of (read_equs (map equ_source tbl)) = map_of (rev (map fst tbl))"
proof -
  have line: "equ_line (equ_source x) = Some (fst x)" if x: "x \<in> set tbl" for x
  proof -
    obtain k v c where "x = ((k, v), c)" by (metis surj_pair)
    then show ?thesis using x assms by (auto simp: list_all_iff intro: equ_line_source)
  qed
  then have "map (the \<circ> equ_line) (map equ_source tbl) = map fst tbl" by simp
  moreover have "list_all (\<lambda>l. equ_line l \<noteq> None) (map equ_source tbl)"
    using line by (auto simp: list_all_iff)
  ultimately show ?thesis using read_equs_lines by metis
qed

theorem read_equs_roundtrip_witness:
  "map_of (read_equs (map equ_source [((''A'', ''1''), ''x''), ((''A'', ''$F''), [])]))
     = map_of [(''A'', ''$F''), (''A'', ''1'')]"
  using read_equs_roundtrip [of "[((''A'', ''1''), ''x''), ((''A'', ''$F''), [])]"]
  by (simp add: equ_name_def equ_value_def begins_def is_alpha_def is_ident_char_def is_space_def
      code_def)

end
