(* ===== verification/Intel_Hex.thy ===== *)
theory Intel_Hex
  imports Py_Text
begin

text \<open>
  The Intel HEX writer of \<open>tools/split_kernel.py\<close>, and the format it writes: a decoder
  of records, which checks the length and the checksum, and a loader that stores the data
  records of a file in memory until the end record. The round trip says that loading the
  text puts exactly the data at its address.
\<close>

section \<open>Writing\<close>

definition hex_char :: "nat \<Rightarrow> char" where
  "hex_char n = ''0123456789ABCDEF'' ! n"

text \<open>\<open>bytes.hex().upper()\<close>.\<close>

definition hex_byte :: "byte \<Rightarrow> string" where
  "hex_byte b = [hex_char (unat b div 16), hex_char (unat b mod 16)]"

definition hex_bytes :: "byte list \<Rightarrow> string" where
  "hex_bytes bs = concat (map hex_byte bs)"

text \<open>
  \<open>rec\<close>: \<open>bytes([len(payload), ...])\<close> refuses a length over 255; masking with
  \<open>0xFF\<close> is arithmetic on bytes.
\<close>

definition hex_record :: "nat \<Rightarrow> byte \<Rightarrow> byte list \<Rightarrow> string res" where
  "hex_record addr rtype payload =
     (if length payload < 256 then
        let body = [of_nat (length payload), of_nat (addr div 256), of_nat addr, rtype] @ payload
        in Inr (CHR '':'' # hex_bytes (body @ [- sum_list body]))
      else Inl ValueError)"

text \<open>\<open>range(0, n, step)\<close> for a positive step.\<close>

definition range_step :: "nat \<Rightarrow> nat \<Rightarrow> nat list" where
  "range_step n step = map (\<lambda>k. k * step) [0..<(n + step - 1) div step]"

fun seq_res :: "'a res list \<Rightarrow> 'a list res" where
  "seq_res [] = Inr []"
| "seq_res (m # ms) = bind_res m (\<lambda>x. bind_res (seq_res ms) (\<lambda>xs. Inr (x # xs)))"

definition newline :: char where
  "newline = CHR 0x0A"

definition intel_hex :: "byte list \<Rightarrow> nat \<Rightarrow> nat \<Rightarrow> string res" where
  "intel_hex bs base per_line =
     (if per_line = 0 then Inl ValueError
      else bind_res (seq_res (map (\<lambda>i. hex_record (base + i) 0 (take per_line (drop i bs)))
                       (range_step (length bs) per_line)))
        (\<lambda>ls. bind_res (hex_record 0 1 []) (\<lambda>e.
          Inr (concat (map (\<lambda>l. l @ [newline]) (ls @ [e]))))))"

section \<open>The format\<close>

fun unhex :: "string \<Rightarrow> byte list option" where
  "unhex [] = Some []"
| "unhex [c] = None"
| "unhex (c # d # s) =
     (if is_hex c \<and> is_hex d then
        case unhex s of None \<Rightarrow> None
          | Some bs \<Rightarrow> Some (of_nat (16 * digit_val c + digit_val d) # bs)
      else None)"

text \<open>A record's address, type and data, if its length and checksum are right.\<close>

definition read_record :: "string \<Rightarrow> (nat \<times> byte \<times> byte list) option" where
  "read_record s =
     (case s of [] \<Rightarrow> None | c # r \<Rightarrow>
        if c \<noteq> CHR '':'' then None else
        (case unhex r of
           Some (n # hi # lo # ty # p) \<Rightarrow>
             if length p = unat n + 1 \<and> sum_list (n # hi # lo # ty # p) = 0
             then Some (256 * unat hi + unat lo, ty, butlast p) else None
         | _ \<Rightarrow> None))"

type_synonym mem = "nat \<Rightarrow> byte option"

definition mem_store :: "mem \<Rightarrow> nat \<Rightarrow> byte list \<Rightarrow> mem" where
  "mem_store m a p = (\<lambda>x. if a \<le> x \<and> x < a + length p then Some (p ! (x - a)) else m x)"

fun load_records :: "string list \<Rightarrow> mem \<Rightarrow> mem option" where
  "load_records [] m = None"
| "load_records (l # ls) m = (case read_record l of
     None \<Rightarrow> None
   | Some (a, ty, p) \<Rightarrow>
       if ty = 0 then load_records ls (mem_store m a p)
       else if ty = 1 then Some m else None)"

fun split_lines :: "string \<Rightarrow> string list" where
  "split_lines [] = []"
| "split_lines (c # s) =
     (if c = newline then [] # split_lines s
      else case split_lines s of [] \<Rightarrow> [[c]] | l # ls \<Rightarrow> (c # l) # ls)"

definition hex_load :: "string \<Rightarrow> mem option" where
  "hex_load txt = load_records (split_lines txt) (\<lambda>_. None)"

section \<open>The round trip\<close>

lemma hex_char_all: "n < 16 \<Longrightarrow>
   is_hex (hex_char n) \<and> digit_val (hex_char n) = n \<and> hex_char n \<noteq> newline"
proof -
  have "\<forall>n<16. is_hex (hex_char n) \<and> digit_val (hex_char n) = n \<and> hex_char n \<noteq> newline"
    by (simp add: numeral_eq_Suc All_less_Suc hex_char_def is_hex_def is_dec_def digit_val_def
        code_def newline_def)
  then show "n < 16 \<Longrightarrow> ?thesis" by blast
qed

lemma unhex_hex_bytes: "unhex (hex_bytes bs) = Some bs"
proof (induction bs)
  case (Cons b bs)
  have "unat b div 16 < 16" "unat b mod 16 < 16"
    using unat_byte_less [of b] by (auto simp: less_mult_imp_div_less)
  then have "unhex (hex_byte b @ s) = (case unhex s of None \<Rightarrow> None | Some cs \<Rightarrow> Some (b # cs))" for s
    using hex_char_all by (simp add: hex_byte_def mult.commute cong: option.case_cong)
  with Cons show ?case by (simp add: hex_bytes_def)
qed (simp add: hex_bytes_def)

lemma record_no_newline: "newline \<notin> set (CHR '':'' # hex_bytes bs)"
proof -
  have "newline \<notin> set (hex_byte b)" for b
    using hex_char_all [of "unat b div 16"] hex_char_all [of "unat b mod 16"] unat_byte_less [of b]
    by (auto simp: hex_byte_def less_mult_imp_div_less)
  then show ?thesis by (auto simp: hex_bytes_def newline_def)
qed

lemma read_hex_record:
  assumes "hex_record addr ty p = Inr s"
  shows "read_record s = Some (addr mod 65536, ty, p)"
proof -
  have len: "length p < 256" using assms by (simp add: hex_record_def split: if_splits)
  define body where "body = [of_nat (length p), of_nat (addr div 256), of_nat addr, ty] @ p"
  have s: "s = CHR '':'' # hex_bytes (body @ [- sum_list body])"
    using assms len by (simp add: hex_record_def body_def Let_def)
  have "unat (of_nat (length p) :: byte) = length p"
    using len by (simp add: unat_of_nat)
  moreover have "256 * unat (of_nat (addr div 256) :: byte) + unat (of_nat addr :: byte)
      = addr mod 65536"
    by (simp add: unat_of_nat) (simp add: mod_mult2_eq [of addr 256 256, simplified])
  ultimately show ?thesis
    unfolding s read_record_def by (simp add: unhex_hex_bytes body_def algebra_simps)
qed

lemma split_lines_concat:
  "\<forall>l\<in>set ls. newline \<notin> set l \<Longrightarrow> split_lines (concat (map (\<lambda>l. l @ [newline]) ls)) = ls"
proof (induction ls)
  case (Cons l ls)
  have "newline \<notin> set l \<Longrightarrow> split_lines (l @ newline # s) = l # split_lines s" for s
    by (induction l) auto
  with Cons show ?case by simp
qed simp

definition record_text :: "nat \<Rightarrow> byte \<Rightarrow> byte list \<Rightarrow> string" where
  "record_text a ty p = (case hex_record a ty p of Inr s \<Rightarrow> s | Inl e \<Rightarrow> [])"

lemma record_text: "length p < 256 \<Longrightarrow> hex_record a ty p = Inr (record_text a ty p)"
  by (simp add: record_text_def hex_record_def Let_def)

lemma record_text_line: "length p < 256 \<Longrightarrow> newline \<notin> set (record_text a ty p)"
  by (simp only: record_text_def hex_record_def Let_def if_True sum.case record_no_newline simp_thms)

lemma seq_res_Inr: "\<forall>x\<in>set xs. f x = Inr (g x) \<Longrightarrow> seq_res (map f xs) = Inr (map g xs)"
  by (induction xs) simp_all

text \<open>The first \<open>k\<close> bytes of \<open>d\<close> in memory at \<open>base\<close>, and nothing else.\<close>

definition image_at :: "nat \<Rightarrow> byte list \<Rightarrow> nat \<Rightarrow> mem" where
  "image_at base d k =
     (\<lambda>x. if base \<le> x \<and> x < base + min k (length d) then Some (d ! (x - base)) else None)"

lemma image_at_store:
  assumes "k * p < length d"
  shows "mem_store (image_at base d (k * p)) (base + k * p) (take p (drop (k * p) d))
       = image_at base d (Suc k * p)"
  using assms by (auto simp: mem_store_def image_at_def min_def fun_eq_iff)

lemma load_image:
  assumes "base + length d \<le> 65536" and "0 < p" and "p < 256"
  shows "k \<le> K \<Longrightarrow> K = (length d + p - 1) div p \<Longrightarrow>
    load_records (map (\<lambda>k. record_text (base + k * p) 0 (take p (drop (k * p) d))) [k..<K]
        @ [record_text 0 1 []]) (image_at base d (k * p))
    = Some (image_at base d (K * p))"
proof (induction "K - k" arbitrary: k)
  case 0
  have "read_record (record_text 0 1 []) = Some (0, 1, [])"
    using read_hex_record [OF record_text, of "[]" 0 1] by simp
  with 0 show ?case by simp
next
  case (Suc n)
  then have k: "k < K" by simp
  then have "k * p + p \<le> K * p" by (metis Suc_leI add.commute mult_Suc mult_le_mono1)
  also have "\<dots> \<le> length d + p - 1" using Suc.prems(2) by simp
  finally have lt: "k * p < length d" using assms(2) by simp
  let ?rec = "\<lambda>k. record_text (base + k * p) 0 (take p (drop (k * p) d))"
  have "read_record (?rec k) = Some (base + k * p, 0, take p (drop (k * p) d))"
    using read_hex_record [OF record_text, of "take p (drop (k * p) d)" "base + k * p" 0] assms lt
    by simp
  moreover have "[k..<K] = k # [Suc k..<K]" using k by (rule upt_conv_Cons)
  moreover have "load_records (map ?rec [Suc k..<K] @ [record_text 0 1 []])
      (image_at base d (Suc k * p)) = Some (image_at base d (K * p))"
    using Suc by (intro Suc.hyps(1)) auto
  ultimately show ?case
    using image_at_store [OF lt, of base] by simp
qed

lemma intel_hex_roundtrip:
  assumes "0 < per_line" and "per_line < 256" and "base + length d \<le> 65536"
  shows "\<exists>txt. intel_hex d base per_line = Inr txt
     \<and> hex_load txt = Some (\<lambda>x. if base \<le> x \<and> x < base + length d then Some (d ! (x - base)) else None)"
proof -
  define K where "K = (length d + per_line - 1) div per_line"
  define ls where "ls = map (\<lambda>k. record_text (base + k * per_line) 0
      (take per_line (drop (k * per_line) d))) [0..<K]"
  have "seq_res (map (\<lambda>i. hex_record (base + i) 0 (take per_line (drop i d)))
      (range_step (length d) per_line)) = Inr ls"
    using seq_res_Inr [of "range_step (length d) per_line"
        "\<lambda>i. hex_record (base + i) 0 (take per_line (drop i d))"
        "\<lambda>i. record_text (base + i) 0 (take per_line (drop i d))"] assms(2)
    by (simp add: record_text range_step_def ls_def K_def comp_def)
  then have tx: "intel_hex d base per_line
      = Inr (concat (map (\<lambda>l. l @ [newline]) (ls @ [record_text 0 1 []])))"
    using assms(1) record_text [of "[]" 0 1] by (simp add: intel_hex_def)
  have "\<forall>l\<in>set (ls @ [record_text 0 1 []]). newline \<notin> set l"
    using assms(2) by (auto simp: ls_def record_text_line)
  moreover have "length d \<le> K * per_line"
  proof -
    have "length d + per_line - 1 < (K + 1) * per_line"
      unfolding K_def by (metis assms(1) div_mult_mod_eq add.commute add_mult_distrib
          mult_1 mod_less_divisor nat_add_left_cancel_less)
    then show ?thesis by simp
  qed
  then have "image_at base d (K * per_line)
      = (\<lambda>x. if base \<le> x \<and> x < base + length d then Some (d ! (x - base)) else None)"
    by (simp add: image_at_def min_absorb2)
  moreover have "image_at base d (0 * per_line) = (\<lambda>_. None)"
    by (auto simp: image_at_def fun_eq_iff)
  ultimately have "hex_load (concat (map (\<lambda>l. l @ [newline]) (ls @ [record_text 0 1 []])))
      = Some (\<lambda>x. if base \<le> x \<and> x < base + length d then Some (d ! (x - base)) else None)"
    using load_image [OF assms(3,1,2) _ K_def, of 0] split_lines_concat
    by (simp only: hex_load_def ls_def)
  with tx show ?thesis by blast
qed

text \<open>
  C17. Loading the Intel HEX text of an image puts exactly its bytes at its address, with
  every record's length and checksum right, as long as the image ends at or below $FFFF:
  the records carry 16-bit addresses.
\<close>

theorem intel_hex_loads:
  assumes "0 < per_line" and "per_line < 256" and "base + length d \<le> 65536"
  shows "\<exists>txt. intel_hex d base per_line = Inr txt
     \<and> hex_load txt = Some (\<lambda>x. if base \<le> x \<and> x < base + length d then Some (d ! (x - base)) else None)"
  by (rule intel_hex_roundtrip [OF assms])

theorem intel_hex_loads_witness:
  "\<exists>txt. intel_hex [1, 2, 3] 0xBD00 16 = Inr txt
     \<and> hex_load txt = Some (\<lambda>x. if 0xBD00 \<le> x \<and> x < 0xBD00 + length [1::byte, 2, 3]
          then Some ([1, 2, 3] ! (x - 0xBD00)) else None)"
  by (rule intel_hex_loads) simp_all

end
