(* ===== verification/Split_Kernel.thy ===== *)
theory Split_Kernel
  imports Equ_Files Intel_Hex
begin

text \<open>
  \<open>tools/split_kernel.py\<close> and \<open>tools/rom_info.py\<close>: the linked kernel is cut into its
  volatile and non-volatile halves, the header of \<open>krnboot\<close> is patched with their sector
  counts, and the installable image is assembled. The file system is a map from paths to
  contents; a program maps the one before it to the one after it and a result, because the
  halves are written before the boot file is checked. The linker is not part of the
  repository: the lines of the symbol file it writes, if any, are a parameter. An exit with
  a message is \<open>SystemExit\<close> with the reason in short.
\<close>

type_synonym fs = "string \<Rightarrow> byte list option"

definition read_file :: "fs \<Rightarrow> string \<Rightarrow> byte list res" where
  "read_file fs p = (case fs p of None \<Rightarrow> Inl OSError | Some b \<Rightarrow> Inr b)"

section \<open>Names, sectors, symbols\<close>

definition SECTOR_SIZE :: nat where
  "SECTOR_SIZE = 512"

definition sectors :: "nat \<Rightarrow> nat" where
  "sectors n = (n + SECTOR_SIZE - 1) div SECTOR_SIZE"

definition hex_name :: "string \<Rightarrow> string" where
  "hex_name p = splitext_root p @ ''.hex''"

definition read_symbols :: "string list \<Rightarrow> int dict" where
  "read_symbols ls =
     foldl (\<lambda>d l. let parts = split_ws l in
         if length parts \<ge> 2 then
           (case int_16 (last parts) of None \<Rightarrow> d | Some n \<Rightarrow> dict_set (hd parts) n d)
         else d) [] ls"

definition link_symbols :: "(string list \<Rightarrow> string list option) \<Rightarrow> string list \<Rightarrow> int dict res" where
  "link_symbols link02 objs = (case link02 objs of
       None \<Rightarrow> Inl (SystemExit ''no symbol file'')
     | Some ls \<Rightarrow> Inr (read_symbols ls))"

section \<open>The two halves\<close>

definition link_base :: int where
  "link_base = 0x0100"

text \<open>The cut of \<open>main\<close>, with its checks; the slices take Python's negative bounds.\<close>

definition split_images :: "int \<Rightarrow> int \<Rightarrow> int \<Rightarrow> byte list \<Rightarrow> (byte list \<times> byte list) res" where
  "split_images nvk_base nvk_top vol_end bs =
     (let nv_end = link_base + int (length bs) - 1 in
      if vol_end \<ge> nvk_base then Inl (SystemExit ''volatile region past NVK_BASE'')
      else if nv_end > nvk_top then Inl (SystemExit ''image past NVK_TOP'')
      else
        let vol = slice bs 0 (vol_end - link_base + 1);
            nv = slice bs (nvk_base - link_base) (int (length bs))
        in if take 3 nv \<noteq> lit ''NVK'' then Inl (SystemExit ''no NVK signature'')
           else Inr (vol, nv))"

definition KVOL_CNT_OFFSET :: nat where "KVOL_CNT_OFFSET = 4"
definition KNV_CNT_OFFSET :: nat where "KNV_CNT_OFFSET = 9"
definition KNV_LAST_OFFSET :: nat where "KNV_LAST_OFFSET = 11"
definition KRNBOOT_SECTORS :: nat where "KRNBOOT_SECTORS = 5"

lemmas header_offsets = KVOL_CNT_OFFSET_def KNV_CNT_OFFSET_def KNV_LAST_OFFSET_def
  KRNBOOT_SECTORS_def SECTOR_SIZE_def

text \<open>One round of the loop that patches the header: a big-endian count.\<close>

definition patch :: "nat \<Rightarrow> nat \<Rightarrow> byte list \<Rightarrow> byte list res" where
  "patch off n boot =
     (if n > 0xFFFF then Inl (SystemExit ''count over 65535'')
      else bind_res (upd boot off (of_nat (n div 256)))
             (\<lambda>boot. upd boot (off + 1) (of_nat n)))"

definition build_image :: "byte list \<Rightarrow> byte list \<Rightarrow> byte list \<Rightarrow> byte list res" where
  "build_image vol nv boot =
     (if take 3 boot \<noteq> lit ''KRN'' then Inl (SystemExit ''no KRN signature'')
      else if length boot \<noteq> KRNBOOT_SECTORS * SECTOR_SIZE
      then Inl (SystemExit ''krnboot size'')
      else
        let vol_sectors = sectors (length vol);
            nv_sectors = sectors (length nv);
            nv_last = int (length nv) - (int nv_sectors - 1) * int SECTOR_SIZE
        in if \<not> (1 \<le> nv_last \<and> nv_last \<le> int SECTOR_SIZE) then Inl AssertionError
           else
             bind_res (patch KVOL_CNT_OFFSET vol_sectors boot) (\<lambda>boot.
             bind_res (patch KNV_CNT_OFFSET nv_sectors boot) (\<lambda>boot.
             bind_res (patch KNV_LAST_OFFSET (nat nv_last) boot) (\<lambda>boot.
               Inr (boot @ vol @ replicate (vol_sectors * SECTOR_SIZE - length vol) 0 @ nv)))))"

section \<open>The program\<close>

text \<open>What \<open>main\<close> reads before it writes anything.\<close>

definition split_inputs :: "string list \<Rightarrow> (string list \<Rightarrow> string list option) \<Rightarrow> string list
    \<Rightarrow> string \<Rightarrow> fs \<Rightarrow> (nat \<times> nat \<times> int \<times> byte list) res" where
  "split_inputs memmap link02 objs kernel_bin fs =
     (let equs = read_equs memmap in
      bind_res (dict_get equs ''NVK_BASE'') (\<lambda>t.
      bind_res (eval_equ t equs []) (\<lambda>nvk_base.
      bind_res (dict_get equs ''NVK_TOP'') (\<lambda>t.
      bind_res (eval_equ t equs []) (\<lambda>nvk_top.
      bind_res (link_symbols link02 objs) (\<lambda>syms.
      bind_res (case map_of syms ''kvol_end'' of
            None \<Rightarrow> Inl (SystemExit ''kvol_end not in the symbol table'')
          | Some v \<Rightarrow> Inr v) (\<lambda>vol_end.
      bind_res (read_file fs kernel_bin) (\<lambda>bs.
        Inr (nvk_base, nvk_top, vol_end, bs)))))))))"

definition split_main :: "string list \<Rightarrow> string list \<Rightarrow> (string list \<Rightarrow> string list option)
    \<Rightarrow> fs \<Rightarrow> fs \<times> unit res" where
  "split_main argv memmap link02 fs =
     (if length argv < 7 then (fs, Inl (SystemExit ''usage''))
      else
        let kernel_bin = argv ! 1; vol_out = argv ! 2; nv_out = argv ! 3; krnboot_bin = argv ! 4;
            full_out = argv ! 5; objs = drop 6 argv
        in case split_inputs memmap link02 objs kernel_bin fs of
          Inl e \<Rightarrow> (fs, Inl e)
        | Inr (nvk_base, nvk_top, vol_end, bs) \<Rightarrow>
            (case split_images (int nvk_base) (int nvk_top) vol_end bs of
              Inl e \<Rightarrow> (fs, Inl e)
            | Inr (vol, nv) \<Rightarrow>
                let fs = fs(vol_out \<mapsto> vol, nv_out \<mapsto> nv) in
                (case intel_hex nv nvk_base 16 of
                  Inl e \<Rightarrow> (fs, Inl e)
                | Inr hex \<Rightarrow>
                    let fs = fs(hex_name nv_out \<mapsto> lit hex) in
                    (case bind_res (read_file fs krnboot_bin) (build_image vol nv) of
                      Inl e \<Rightarrow> (fs, Inl e)
                    | Inr full \<Rightarrow> (fs(full_out \<mapsto> full), Inr ())))))"

section \<open>The ROM report\<close>

record rom_report =
  burn_at :: int
  rom_end :: int
  rom_bytes :: nat
  rom_sectors :: nat
  headroom :: int
  sig_version :: byte
  rom_hex :: string

definition rom_main :: "string list \<Rightarrow> string list \<Rightarrow> fs \<Rightarrow> rom_report res" where
  "rom_main argv memmap fs =
     (if length argv \<noteq> 2 then Inl (SystemExit ''usage'')
      else
        let rom_path = argv ! 1; equs = read_equs memmap in
        bind_res (dict_get equs ''NVK_BASE'') (\<lambda>t.
        bind_res (eval_equ t equs []) (\<lambda>nvk_base.
        bind_res (dict_get equs ''NVK_TOP'') (\<lambda>t.
        bind_res (eval_equ t equs []) (\<lambda>nvk_top.
        bind_res (dict_get equs ''NVK_SIG_LEN'') (\<lambda>t.
        bind_res (eval_equ t equs []) (\<lambda>sig_len.
          case fs rom_path of
            None \<Rightarrow> Inl (SystemExit ''not found'')
          | Some rom \<Rightarrow>
              if take 3 rom \<noteq> lit ''NVK'' then Inl (SystemExit ''no NVK signature'')
              else
                let end = int nvk_base + int (length rom) - 1 in
                if end > int nvk_top then Inl (SystemExit ''image past NVK_TOP'')
                else bind_res (py_index rom (int sig_len - 1)) (\<lambda>v.
                  Inr \<lparr>burn_at = int nvk_base, rom_end = end, rom_bytes = length rom,
                       rom_sectors = sectors (length rom), headroom = int nvk_top - end,
                       sig_version = v, rom_hex = hex_name rom_path\<rparr>))))))))"

section \<open>The halves\<close>

text \<open>
  C18. When the checks pass, the linked file is exactly the volatile image, the gap, and the
  non-volatile image: no byte is lost or written twice, the volatile image is the memory
  from $0100 to \<open>kvol_end\<close>, the other starts with the signature at \<open>NVK_BASE\<close> and ends
  at or below \<open>NVK_TOP\<close>.
\<close>

theorem split_images_partition:
  assumes "split_images nvk_base nvk_top vol_end bs = Inr (vol, nv)" and "link_base \<le> vol_end"
  shows "\<exists>gap. bs = vol @ gap @ nv \<and> int (length vol) = vol_end - link_base + 1
     \<and> int (length gap) = nvk_base - vol_end - 1 \<and> take 3 nv = lit ''NVK''
     \<and> nvk_base + int (length nv) - 1 \<le> nvk_top"
proof -
  define a where "a = nat (vol_end - link_base + 1)"
  define b where "b = nat (nvk_base - link_base)"
  have order: "vol_end < nvk_base" "link_base + int (length bs) - 1 \<le> nvk_top"
    and sig: "take 3 nv = lit ''NVK''"
    and vol: "vol = slice bs 0 (vol_end - link_base + 1)"
    and nv: "nv = slice bs (nvk_base - link_base) (int (length bs))"
    using assms(1) by (auto simp: split_images_def Let_def split: if_splits)
  have int: "vol_end - link_base + 1 = int a" "nvk_base - link_base = int b"
    using assms(2) order(1) by (simp_all add: a_def b_def)
  have nv': "nv = drop b bs" unfolding nv int by (simp only: slice_nonneg) simp
  have vol': "vol = take a bs" unfolding vol int by (rule slice_from_start)
  have "nv \<noteq> []" using sig by (auto simp: lit_def)
  then have b: "b < length bs" using nv' by simp
  have ab: "a \<le> b" using order(1) int by linarith
  have "take a bs @ drop a (take b bs) = take b bs"
    using append_take_drop_id [of a "take b bs"] ab by (simp add: min_absorb1)
  then have "bs = vol @ drop a (take b bs) @ nv"
    using append_take_drop_id [of b bs] by (simp add: vol' nv' flip: append_assoc)
  moreover have "length vol = a" using vol' ab b by simp
  moreover have "length nv = length bs - b" using nv' by simp
  ultimately show ?thesis
    using order sig int ab b by (intro exI [of _ "drop a (take b bs)"]) auto
qed

theorem split_images_partition_witness:
  "\<exists>gap. [1, 2, 0, 0, 78, 86, 75] = [1, 2] @ gap @ [78, 86, 75 :: byte]
     \<and> int (length [1, 2 :: byte]) = 0x0101 - link_base + 1
     \<and> int (length gap) = 0x0104 - 0x0101 - 1 \<and> take 3 [78, 86, 75] = lit ''NVK''
     \<and> 0x0104 + int (length [78, 86, 75 :: byte]) - 1 \<le> 0x0106"
  by (rule split_images_partition)
    (simp_all add: split_images_def link_base_def slice_def slice_bound_def lit_def)

section \<open>The header\<close>

lemma sectors_bounds:
  "n \<le> sectors n * 512" "0 < n \<Longrightarrow> sectors n * 512 < n + 512"
  unfolding sectors_def SECTOR_SIZE_def by linarith+

lemma sectors_pos: "0 < n \<Longrightarrow> 0 < sectors n"
  using sectors_bounds(1) [of n] by (cases "sectors n") auto

text \<open>A count as the boot code reads it from the header.\<close>

definition be16 :: "byte list \<Rightarrow> nat \<Rightarrow> nat" where
  "be16 bs i = 256 * unat (bs ! i) + unat (bs ! (i + 1))"

lemma be16_bytes:
  assumes "n \<le> 0xFFFF"
  shows "256 * unat (of_nat (n div 256) :: byte) + unat (of_nat n :: byte) = n"
proof -
  have "n div 256 < 256" using assms by (simp add: div_less_iff_less_mult)
  then show ?thesis by (simp add: unat_of_nat)
qed

lemma patch_Inr:
  "n \<le> 0xFFFF \<Longrightarrow> off + 1 < length boot \<Longrightarrow>
   patch off n boot = Inr (boot[off := of_nat (n div 256), off + 1 := of_nat n])"
  by (simp add: patch_def)

text \<open>
  What the boot code finds in an image: the volatile sectors behind its own five, and as
  many bytes of the non-volatile image as the counts say.
\<close>

definition boot_images :: "byte list \<Rightarrow> byte list \<times> byte list" where
  "boot_images full =
     (let vs = be16 full KVOL_CNT_OFFSET; ns = be16 full KNV_CNT_OFFSET;
          used = be16 full KNV_LAST_OFFSET;
          area = drop (KRNBOOT_SECTORS * SECTOR_SIZE) full
      in (take (vs * SECTOR_SIZE) area,
          take ((ns - 1) * SECTOR_SIZE + used) (drop (vs * SECTOR_SIZE) area)))"

definition patched :: "byte list \<Rightarrow> nat \<Rightarrow> nat \<Rightarrow> nat \<Rightarrow> byte list" where
  "patched boot vs ns used =
     boot[4 := of_nat (vs div 256), 5 := of_nat vs, 9 := of_nat (ns div 256), 10 := of_nat ns,
          11 := of_nat (used div 256), 12 := of_nat used]"

lemma length_patched [simp]: "length (patched boot vs ns used) = length boot"
  by (simp add: patched_def)

lemma be16_append: "i + 1 < length a \<Longrightarrow> be16 (a @ b) i = be16 a i"
  by (simp add: be16_def nth_append)

lemma be16_patched:
  assumes "12 < length boot" and "vs \<le> 0xFFFF" and "ns \<le> 0xFFFF" and "used \<le> 0xFFFF"
  shows "be16 (patched boot vs ns used) 4 = vs" "be16 (patched boot vs ns used) 9 = ns"
    "be16 (patched boot vs ns used) 11 = used"
  using assms be16_bytes by (simp_all add: be16_def patched_def)

lemma build_image_Inr:
  assumes "take 3 boot = lit ''KRN''" and "length boot = 2560" and "nv \<noteq> []"
    and "sectors (length vol) \<le> 0xFFFF" and "sectors (length nv) \<le> 0xFFFF"
  shows "build_image vol nv boot =
    Inr (patched boot (sectors (length vol)) (sectors (length nv))
           (length nv - (sectors (length nv) - 1) * 512)
         @ vol @ replicate (sectors (length vol) * 512 - length vol) 0 @ nv)"
proof -
  let ?ns = "sectors (length nv)"
  define used where "used = length nv - (?ns - 1) * 512"
  have len: "0 < length nv" using assms(3) by simp
  have ns: "0 < ?ns" "(?ns - 1) * 512 < length nv" "length nv \<le> (?ns - 1) * 512 + 512"
    using sectors_pos [OF len] sectors_bounds [of "length nv"] len by (cases ?ns; simp)+
  then have last: "int (length nv) - (int ?ns - 1) * 512 = int used"
    by (simp add: used_def of_nat_diff algebra_simps)
  have used: "1 \<le> used" "used \<le> 512" using ns by (auto simp: used_def)
  show ?thesis
    unfolding used_def [symmetric] using assms used last
    by (simp add: build_image_def header_offsets Let_def patch_Inr patched_def)
qed

lemma image_boots:
  assumes "take 3 boot = lit ''KRN''" and "length boot = 2560" and "nv \<noteq> []"
    and "sectors (length vol) \<le> 0xFFFF" and "sectors (length nv) \<le> 0xFFFF"
  shows "\<exists>full. build_image vol nv boot = Inr full
     \<and> boot_images full = (vol @ replicate (sectors (length vol) * 512 - length vol) 0, nv)
     \<and> take 2560 full = boot[4 := full ! 4, 5 := full ! 5, 9 := full ! 9, 10 := full ! 10,
          11 := full ! 11, 12 := full ! 12]"
proof -
  let ?vs = "sectors (length vol)" and ?ns = "sectors (length nv)"
  define used where "used = length nv - (?ns - 1) * 512"
  let ?boot = "patched boot ?vs ?ns used"
  let ?full = "?boot @ vol @ replicate (?vs * 512 - length vol) 0 @ nv"
  have "used \<le> 0xFFFF" and size: "(?ns - 1) * 512 + used = length nv"
    using sectors_bounds [of "length nv"] assms(3) sectors_pos [of "length nv"]
    by (cases ?ns; simp add: used_def)+
  then have "be16 ?full 4 = ?vs" "be16 ?full 9 = ?ns" "be16 ?full 11 = used"
    using assms be16_patched [of boot ?vs ?ns used] by (simp_all add: be16_append)
  then have "boot_images ?full = (vol @ replicate (?vs * 512 - length vol) 0, nv)"
    using assms(2) size sectors_bounds(1) [of "length vol"]
    by (simp add: boot_images_def header_offsets Let_def)
  moreover have "take 2560 ?full = boot[4 := ?full ! 4, 5 := ?full ! 5, 9 := ?full ! 9,
      10 := ?full ! 10, 11 := ?full ! 11, 12 := ?full ! 12]"
    using assms(2) by (simp add: nth_append patched_def)
  ultimately show ?thesis
    using build_image_Inr [OF assms] by (auto simp: used_def)
qed

text \<open>
  C19. The installable image boots: with a boot file of the right size and signature, a
  non-empty non-volatile image and counts that fit 16 bits, the build succeeds, and the
  counts in the patched header lead the boot code to exactly the volatile image, padded to
  whole sectors, and exactly the bytes of the non-volatile image. Of the boot file only the
  six header bytes change.
\<close>

theorem build_image_boots:
  assumes "take 3 boot = lit ''KRN''" and "length boot = 2560" and "nv \<noteq> []"
    and "sectors (length vol) \<le> 0xFFFF" and "sectors (length nv) \<le> 0xFFFF"
  shows "\<exists>full. build_image vol nv boot = Inr full
     \<and> boot_images full = (vol @ replicate (sectors (length vol) * 512 - length vol) 0, nv)
     \<and> take 2560 full = boot[4 := full ! 4, 5 := full ! 5, 9 := full ! 9, 10 := full ! 10,
          11 := full ! 11, 12 := full ! 12]"
  by (rule image_boots [OF assms])

theorem build_image_boots_witness:
  "\<exists>full. build_image [1, 2] [78, 86, 75] (lit ''KRN'' @ replicate 2557 0) = Inr full
     \<and> boot_images full = ([1, 2] @ replicate (sectors 2 * 512 - 2) 0, [78, 86, 75])
     \<and> take 2560 full = (lit ''KRN'' @ replicate 2557 0)[4 := full ! 4, 5 := full ! 5,
          9 := full ! 9, 10 := full ! 10, 11 := full ! 11, 12 := full ! 12]"
  using build_image_boots [of "lit ''KRN'' @ replicate 2557 0" "[78, 86, 75]" "[1, 2]"]
  by (simp add: lit_def sectors_def SECTOR_SIZE_def)

section \<open>The program's files\<close>

text \<open>An address of the memory map, as both programs read it.\<close>

definition memmap_addr :: "string list \<Rightarrow> string \<Rightarrow> nat res" where
  "memmap_addr memmap name =
     bind_res (dict_get (read_equs memmap) name) (\<lambda>t. eval_equ t (read_equs memmap) [])"

lemma split_inputs_Inr:
  assumes "split_inputs memmap link02 objs kernel_bin fs = Inr (b, t, v, bs)"
  shows "memmap_addr memmap ''NVK_BASE'' = Inr b" and "memmap_addr memmap ''NVK_TOP'' = Inr t"
  using assms by (auto simp: split_inputs_def memmap_addr_def Let_def bind_res_eq_Inr)

lemma split_main_Inr:
  assumes "split_main argv memmap link02 fs = (fs', Inr ())"
  obtains b t v bs vol nv hex boot full where
    "split_inputs memmap link02 (drop 6 argv) (argv ! 1) fs = Inr (b, t, v, bs)"
    and "split_images (int b) (int t) v bs = Inr (vol, nv)"
    and "intel_hex nv b 16 = Inr hex"
    and "build_image vol nv boot = Inr full"
    and "fs' = fs(argv ! 2 \<mapsto> vol, argv ! 3 \<mapsto> nv, hex_name (argv ! 3) \<mapsto> lit hex, argv ! 5 \<mapsto> full)"
  using assms
  by (auto simp: split_main_def Let_def bind_res_eq_Inr split: if_splits sum.splits prod.splits)

lemma build_image_cases:
  assumes "build_image vol nv boot = Inr full"
  shows "take 3 boot = lit ''KRN''" and "length boot = 2560"
    and "sectors (length vol) \<le> 0xFFFF" and "sectors (length nv) \<le> 0xFFFF"
  using assms
  by (auto simp: build_image_def patch_def header_offsets Let_def bind_res_eq_Inr split: if_splits)

lemma split_images_Inr:
  assumes "split_images b t v bs = Inr (vol, nv)"
  shows "take 3 nv = lit ''NVK''" and "link_base \<le> b \<Longrightarrow> b + int (length nv) - 1 \<le> t"
proof -
  show sig: "take 3 nv = lit ''NVK''"
    using assms by (auto simp: split_images_def Let_def split: if_splits)
  assume "link_base \<le> b"
  then obtain n where n: "b - link_base = int n" by (metis zle_iff_zadd add_diff_cancel_left')
  have "nv = drop n bs"
    using assms slice_nonneg [of bs n "length bs"]
    by (simp add: split_images_def Let_def n split: if_splits)
  moreover have "nv \<noteq> []" using sig by (auto simp: lit_def)
  ultimately have "int (length nv) = int (length bs) - int n" by simp
  moreover have "link_base + int (length bs) - 1 \<le> t"
    using assms by (simp add: split_images_def Let_def split: if_splits)
  ultimately show "b + int (length nv) - 1 \<le> t" using n by linarith
qed

text \<open>
  C20. When the program succeeds, the three images it writes belong together: the counts
  in the full image lead the boot code to the volatile image and to exactly the bytes of the
  non-volatile file, and the hex file loads these bytes, and nothing else, at \<open>NVK_BASE\<close>.
\<close>

theorem split_main_images_agree:
  assumes "split_main argv memmap link02 fs = (fs', Inr ())"
    and "distinct [argv ! 2, argv ! 3, hex_name (argv ! 3), argv ! 5]"
    and "memmap_addr memmap ''NVK_BASE'' = Inr base" and "0x0100 \<le> base"
    and "memmap_addr memmap ''NVK_TOP'' = Inr tp" and "tp \<le> 0xFFFF"
  shows "\<exists>vol nv hex full. fs' (argv ! 2) = Some vol \<and> fs' (argv ! 3) = Some nv
     \<and> fs' (hex_name (argv ! 3)) = Some (lit hex) \<and> fs' (argv ! 5) = Some full
     \<and> take (length vol) (fst (boot_images full)) = vol \<and> snd (boot_images full) = nv
     \<and> hex_load hex = Some (\<lambda>x. if base \<le> x \<and> x < base + length nv then Some (nv ! (x - base)) else None)"
proof -
  obtain b t v bs vol nv hex boot full where
    ins: "split_inputs memmap link02 (drop 6 argv) (argv ! 1) fs = Inr (b, t, v, bs)"
    and im: "split_images (int b) (int t) v bs = Inr (vol, nv)"
    and hex: "intel_hex nv b 16 = Inr hex" and full: "build_image vol nv boot = Inr full"
    and fs': "fs' = fs(argv ! 2 \<mapsto> vol, argv ! 3 \<mapsto> nv, hex_name (argv ! 3) \<mapsto> lit hex, argv ! 5 \<mapsto> full)"
    using assms(1) by (rule split_main_Inr)
  have b: "b = base" "t = tp" using split_inputs_Inr [OF ins] assms(3,5) by simp_all
  have sig: "take 3 nv = lit ''NVK''" and "int base + int (length nv) - 1 \<le> int tp"
    using split_images_Inr [OF im] assms(4) by (simp_all add: b link_base_def)
  then have "base + length nv \<le> 65536" using assms(6) by linarith
  then have load: "hex_load hex
      = Some (\<lambda>x. if base \<le> x \<and> x < base + length nv then Some (nv ! (x - base)) else None)"
    using intel_hex_roundtrip [of 16 base nv] hex b by auto
  have "nv \<noteq> []" using sig by (auto simp: lit_def)
  then have "boot_images full = (vol @ replicate (sectors (length vol) * 512 - length vol) 0, nv)"
    using image_boots [OF build_image_cases(1,2) [OF full] _ build_image_cases(3,4) [OF full]] full
    by auto
  with load fs' assms(2) show ?thesis
    by (intro exI [of _ vol] exI [of _ nv] exI [of _ hex] exI [of _ full]) auto
qed

text \<open>A build that succeeds, for the witnesses.\<close>

definition demo_memmap :: "string list" where
  "demo_memmap = map equ_source [((''NVK_BASE'', ''$104''), []), ((''NVK_TOP'', ''$106''), []),
     ((''NVK_SIG_LEN'', ''3''), [])]"

definition demo_files :: fs where
  "demo_files = [''k'' \<mapsto> [1, 2, 0, 0, 78, 86, 75], ''b'' \<mapsto> lit ''KRN'' @ replicate 2557 0]"

definition demo_argv :: "string list" where
  "demo_argv = [''s'', ''k'', ''v'', ''n'', ''b'', ''f'', ''o'']"

definition demo_link :: "string list \<Rightarrow> string list option" where
  "demo_link objs = Some [''kvol_end 0101'']"

lemma demo_names:
  "equ_name ''NVK_BASE'' \<and> equ_value ''$104''" "equ_name ''NVK_TOP'' \<and> equ_value ''$106''"
  "equ_name ''NVK_SIG_LEN'' \<and> equ_value ''3''"
  by (simp_all add: equ_name_def equ_value_def begins_def is_alpha_def is_ident_char_def
      is_dec_def is_space_def code_def)

lemma demo_equs:
  "read_equs demo_memmap = [(''NVK_BASE'', ''$104''), (''NVK_TOP'', ''$106''), (''NVK_SIG_LEN'', ''3'')]"
  by (simp add: demo_memmap_def read_equs_def equ_line_source demo_names)

lemma split_ws_two:
  assumes "u \<noteq> []" and "list_all (\<lambda>c. \<not> is_space c) u" and "v \<noteq> []" and "list_all (\<lambda>c. \<not> is_space c) v"
  shows "split_ws (u @ '' '' @ v) = [u, v]"
proof -
  have sp: "is_space (CHR '' '')" by (simp add: is_space_def)
  have "split_ws v = [v]"
    using assms(3,4) skip_ws_begins [of v]
    by (subst split_ws.simps, cases v)
      (auto simp: begins_def takeWhile_eq_all_conv [THEN iffD2] dropWhile_eq_Nil_conv [THEN iffD2]
        list_all_iff split_ws.simps skip_ws_def)
  then have "split_ws ('' '' @ v) = [v]"
    by (subst split_ws.simps) (subst (asm) split_ws.simps, simp add: skip_ws_def sp)
  moreover have "skip_ws (u @ '' '' @ v) = u @ '' '' @ v"
    using assms(1,2) by (intro skip_ws_begins) (cases u, auto simp: begins_def)
  ultimately show ?thesis
    using takeWhile_all_then [OF assms(2), of "CHR '' ''" v] sp assms(1)
    by (subst split_ws.simps) simp
qed

lemma demo_syms: "read_symbols [''kvol_end 0101''] = [(''kvol_end'', 0x0101)]"
proof -
  have "split_ws (''kvol_end'' @ '' '' @ ''0101'') = [''kvol_end'', ''0101'']"
    by (rule split_ws_two) (simp_all add: is_space_def code_def)
  moreover have "int_16 ''0101'' = Some 0x0101"
    by (simp add: int_16_def strip_def is_space_def code_def strip_0x_def is_hex_def is_dec_def
        from_digits_def digit_val_def Let_def)
  ultimately show ?thesis by (simp add: read_symbols_def)
qed

lemma demo_values:
  "eval_equ ''$104'' e [] = Inr 0x104" "eval_equ ''$106'' e [] = Inr 0x106" "eval_equ ''3'' e [] = Inr 3"
proof -
  have "strip ''$104'' = ''$104''" "strip ''$106'' = ''$106''" "strip ''3'' = ''3''"
    by (simp_all add: strip_def is_space_def code_def)
  then show "eval_equ ''$104'' e [] = Inr 0x104" "eval_equ ''$106'' e [] = Inr 0x106"
    "eval_equ ''3'' e [] = Inr 3"
    by (simp_all add: eval_equ.simps literal_def is_hex_def is_dec_def code_def from_digits_def
        digit_val_def Let_def)
qed

lemma demo_addr:
  "memmap_addr demo_memmap ''NVK_BASE'' = Inr 0x104" "memmap_addr demo_memmap ''NVK_TOP'' = Inr 0x106"
  "memmap_addr demo_memmap ''NVK_SIG_LEN'' = Inr 3"
  by (simp_all add: memmap_addr_def demo_equs dict_get_def demo_values)

lemma demo_split: "\<exists>fs'. split_main demo_argv demo_memmap demo_link demo_files = (fs', Inr ())"
proof -
  have ins: "split_inputs demo_memmap demo_link [''o''] ''k'' demo_files
      = Inr (0x104, 0x106, 0x101, [1, 2, 0, 0, 78, 86, 75])"
    by (simp add: split_inputs_def Let_def demo_equs dict_get_def demo_values link_symbols_def
        demo_link_def demo_syms read_file_def demo_files_def)
  have im: "split_images 0x104 0x106 0x101 [1, 2, 0, 0, 78, 86, 75] = Inr ([1, 2], [78, 86, 75])"
    by (simp add: split_images_def link_base_def slice_def slice_bound_def lit_def)
  obtain hex where hex: "intel_hex [78, 86, 75] 0x104 16 = Inr hex"
    using intel_hex_roundtrip [of 16 "0x104" "[78, 86, 75]"] by auto
  obtain full where full: "build_image [1, 2] [78, 86, 75] (lit ''KRN'' @ replicate 2557 0) = Inr full"
    using image_boots [of "lit ''KRN'' @ replicate 2557 0" "[78, 86, 75]" "[1, 2]"]
    by (auto simp: lit_def sectors_def SECTOR_SIZE_def)
  have boot: "read_file (demo_files(''v'' \<mapsto> v, ''n'' \<mapsto> n, hex_name ''n'' \<mapsto> h)) ''b''
      = Inr (lit ''KRN'' @ replicate 2557 0)" for v n h
    by (simp add: read_file_def demo_files_def hex_name_def splitext_root_def)
  show ?thesis
    using ins im hex full boot
    by (simp add: split_main_def demo_argv_def Let_def)
qed

theorem split_main_images_agree_witness:
  "\<exists>fs' vol nv hex full. fs' ''v'' = Some vol \<and> fs' ''n'' = Some nv
     \<and> fs' ''n.hex'' = Some (lit hex) \<and> fs' ''f'' = Some full
     \<and> take (length vol) (fst (boot_images full)) = vol \<and> snd (boot_images full) = nv
     \<and> hex_load hex = Some (\<lambda>x. if 0x104 \<le> x \<and> x < 0x104 + length nv then Some (nv ! (x - 0x104)) else None)"
proof -
  obtain fs' where run: "split_main demo_argv demo_memmap demo_link demo_files = (fs', Inr ())"
    using demo_split by blast
  have name: "hex_name ''n'' = ''n.hex''" by (simp add: hex_name_def splitext_root_def)
  have "distinct [demo_argv ! 2, demo_argv ! 3, hex_name (demo_argv ! 3), demo_argv ! 5]"
    by (simp add: demo_argv_def name)
  from split_main_images_agree [OF run this demo_addr(1) _ demo_addr(2)]
  show ?thesis by (intro exI [of _ fs']) (simp add: demo_argv_def name)
qed

text \<open>
  C21. What \<open>rom_info\<close> reports of the non-volatile file of a successful build: the address
  \<open>NVK_BASE\<close>, its last address at most \<open>NVK_TOP\<close>, its length and sectors, the room left,
  and the name of the hex file the build wrote beside it. It refuses no file the build
  accepted, as long as the signature's length lies inside the file.
\<close>

theorem rom_info_accepts_the_build:
  assumes "split_main argv memmap link02 fs = (fs', Inr ())"
    and "distinct [argv ! 2, argv ! 3, hex_name (argv ! 3), argv ! 5]"
    and "memmap_addr memmap ''NVK_BASE'' = Inr base" and "0x0100 \<le> base"
    and "memmap_addr memmap ''NVK_TOP'' = Inr tp"
    and "memmap_addr memmap ''NVK_SIG_LEN'' = Inr n" and "0 < n"
    and "fs' (argv ! 3) = Some nv" and "n \<le> length nv"
  shows "rom_main [prog, argv ! 3] memmap fs' =
     Inr \<lparr>burn_at = int base, rom_end = int base + int (length nv) - 1, rom_bytes = length nv,
          rom_sectors = sectors (length nv), headroom = int tp - (int base + int (length nv) - 1),
          sig_version = nv ! (n - 1), rom_hex = hex_name (argv ! 3)\<rparr>
     \<and> int base + int (length nv) - 1 \<le> int tp"
proof -
  obtain b t v bs vol nv' hex boot full where
    ins: "split_inputs memmap link02 (drop 6 argv) (argv ! 1) fs = Inr (b, t, v, bs)"
    and im: "split_images (int b) (int t) v bs = Inr (vol, nv')"
    and fs': "fs' = fs(argv ! 2 \<mapsto> vol, argv ! 3 \<mapsto> nv', hex_name (argv ! 3) \<mapsto> lit hex, argv ! 5 \<mapsto> full)"
    using assms(1) by (rule split_main_Inr)
  have b: "b = base" "t = tp" using split_inputs_Inr [OF ins] assms(3,5) by simp_all
  have nv: "nv' = nv" using fs' assms(2,8) by auto
  have "take 3 nv = lit ''NVK''" and le: "int base + int (length nv) - 1 \<le> int tp"
    using split_images_Inr [OF im] assms(4) by (simp_all add: b nv link_base_def)
  moreover have "py_index nv (int n - 1) = Inr (nv ! (n - 1))"
    using assms(7,9) by (auto simp: py_index_def nat_diff_distrib)
  ultimately show ?thesis
    using assms(3,5,6,8)
    by (auto simp: rom_main_def memmap_addr_def Let_def bind_res_eq_Inr)
qed

theorem rom_info_accepts_the_build_witness:
  "\<exists>fs' nv r. fs' ''n'' = Some nv \<and> rom_main [''r'', ''n''] demo_memmap fs' = Inr r
     \<and> burn_at r = 0x104 \<and> rom_bytes r = length nv"
proof -
  obtain fs' where run: "split_main demo_argv demo_memmap demo_link demo_files = (fs', Inr ())"
    using demo_split by blast
  obtain b t v bs vol nv hex boot full where
    ins: "split_inputs demo_memmap demo_link (drop 6 demo_argv) (demo_argv ! 1) demo_files = Inr (b, t, v, bs)"
    and im: "split_images (int b) (int t) v bs = Inr (vol, nv)"
    and fs': "fs' = demo_files(demo_argv ! 2 \<mapsto> vol, demo_argv ! 3 \<mapsto> nv,
      hex_name (demo_argv ! 3) \<mapsto> lit hex, demo_argv ! 5 \<mapsto> full)"
    using run by (rule split_main_Inr)
  have name: "hex_name ''n'' = ''n.hex''" by (simp add: hex_name_def splitext_root_def)
  have dist: "distinct [demo_argv ! 2, demo_argv ! 3, hex_name (demo_argv ! 3), demo_argv ! 5]"
    by (simp add: demo_argv_def name)
  have nv: "fs' (demo_argv ! 3) = Some nv" using fs' by (simp add: demo_argv_def name)
  have "length (take 3 nv) = 3" using split_images_Inr(1) [OF im] by (simp add: lit_def)
  then have "3 \<le> length nv" by simp
  from rom_info_accepts_the_build
    [OF run dist demo_addr(1) _ demo_addr(2,3) _ nv this, where prog = "''r''"]
  show ?thesis using nv by (intro exI [of _ fs'] exI [of _ nv]) (simp add: demo_argv_def)
qed

end
