(* ===== verification/Kernel_Margin.thy ===== *)
theory Kernel_Margin
  imports Equ_Files "HOL-Library.Char_ord" "HOL-Library.List_Lexorder"
begin

text \<open>
  \<open>tools/check_kernel_margin.py\<close>: constants and buffer declarations are read from the
  sources by two regular expressions, sizes are evaluated, the linker's report is parsed,
  and four checks decide the exit status. Outside the repository, and parameters here: the
  files (a path's lines, or none), the directory listing of \<open>include\<close>, and the linker
  (the lines it prints, or none when it cannot run). Messages are not modelled; the exit
  statuses are 0, 1 and 2, and an exception that ends the program is \<open>Inl\<close>.
\<close>

section \<open>The two patterns\<close>

text \<open>A word character of a regular expression, in Latin-1.\<close>

definition is_word :: "char \<Rightarrow> bool" where
  "is_word c \<longleftrightarrow> is_ident_char c \<or> (let n = code c in n \<in> {170, 178, 179, 181, 185, 186, 188, 189, 190}
     \<or> 192 \<le> n \<and> n \<le> 255 \<and> n \<noteq> 215 \<and> n \<noteq> 247)"

definition eol :: char where
  "eol = CHR 0x0A"

text \<open>\<open>\s*(;.*)?$\<close> matches the rest of the line.\<close>

definition tail_ok :: "string \<Rightarrow> bool" where
  "tail_ok s =
     (let y = skip_ws s in
      y = [] \<or> hd y = CHR '';'' \<and> dropWhile (\<lambda>c. c \<noteq> eol) y \<in> {[], [eol]})"

text \<open>\<open>(.+?)\<close>: the shortest non-empty text that leaves such a rest.\<close>

fun lazy_value :: "string \<Rightarrow> string option" where
  "lazy_value [] = None"
| "lazy_value (c # s) =
     (if c = eol then None else if tail_ok s then Some [c] else map_option ((#) c) (lazy_value s))"

fun first_some :: "('a \<Rightarrow> 'b option) \<Rightarrow> 'a list \<Rightarrow> 'b option" where
  "first_some f [] = None"
| "first_some f (x # xs) = (case f x of Some y \<Rightarrow> Some y | None \<Rightarrow> first_some f xs)"

text \<open>
  A greedy run of at least \<open>k\<close> blanks before the value: the longest first, then shorter
  ones. The value is stripped.
\<close>

definition value_after :: "nat \<Rightarrow> string \<Rightarrow> string option" where
  "value_after k s =
     map_option strip (first_some (\<lambda>j. lazy_value (drop j s))
       (rev [k..<length (takeWhile is_space s) + 1]))"

text \<open>
  \<open>EQU_RE\<close>. The name is as long as possible, because nothing after it in the pattern
  matches a character of a name; so the word boundary before \<open>equ\<close> holds.
\<close>

definition equ_decl :: "string \<Rightarrow> (string \<times> string) option" where
  "equ_decl line =
     (let s = skip_ws line;
          name = takeWhile is_ident_char s;
          c = skip_ws (dropWhile is_ident_char s);
          k = skip_ws (if begins (\<lambda>x. x = CHR '':'') c then tl c else c);
          v = drop 3 k
      in if begins is_alpha s \<and> take 3 k = ''equ'' \<and> \<not> begins is_word v
         then map_option (Pair name) (value_after 0 v) else None)"

text \<open>\<open>DS_RE\<close>.\<close>

definition ds_decl :: "string \<Rightarrow> (string \<times> string) option" where
  "ds_decl line =
     (let s = skip_ws line;
          name = takeWhile is_ident_char s;
          c = skip_ws (dropWhile is_ident_char s);
          k = skip_ws (tl c)
      in if begins is_alpha s \<and> begins (\<lambda>x. x = CHR '':'') c \<and> take 2 k = ''ds''
         then map_option (Pair name) (value_after 1 (drop 2 k)) else None)"

type_synonym reader = "string \<Rightarrow> string list option"

definition read_lines :: "reader \<Rightarrow> string \<Rightarrow> string list res" where
  "read_lines rd p = (case rd p of None \<Rightarrow> Inl OSError | Some ls \<Rightarrow> Inr ls)"

definition add_equ :: "string dict \<Rightarrow> string \<Rightarrow> string dict" where
  "add_equ d line = (case equ_decl line of None \<Rightarrow> d | Some (k, v) \<Rightarrow> dict_set k v d)"

definition collect_equs :: "reader \<Rightarrow> string list \<Rightarrow> string dict" where
  "collect_equs rd paths =
     foldl (\<lambda>d p. case rd p of None \<Rightarrow> d | Some ls \<Rightarrow> foldl add_equ d ls) [] paths"

fun collect_ds_buffers :: "reader \<Rightarrow> string list \<Rightarrow> (string \<times> string) list res" where
  "collect_ds_buffers rd [] = Inr []"
| "collect_ds_buffers rd (p # ps) =
     bind_res (read_lines rd p) (\<lambda>ls.
     bind_res (collect_ds_buffers rd ps) (\<lambda>bs. Inr (List.map_filter ds_decl ls @ bs)))"

section \<open>Expressions\<close>

text \<open>\<open>TOKEN_RE.findall\<close>: a character no alternative matches is skipped.\<close>

function tokens :: "string \<Rightarrow> string list" where
  "tokens [] = []"
| "tokens (c # s) =
     (if c = CHR ''$'' \<and> begins is_hex s
      then (c # takeWhile is_hex s) # tokens (dropWhile is_hex s)
      else if c = CHR 0x27 \<and> 2 \<le> length s \<and> s ! 0 \<noteq> eol \<and> s ! 1 = CHR 0x27
      then [c, s ! 0, s ! 1] # tokens (drop 2 s)
      else if is_dec c then (c # takeWhile is_dec s) # tokens (dropWhile is_dec s)
      else if is_alpha c then (c # takeWhile is_ident_char s) # tokens (dropWhile is_ident_char s)
      else if c = CHR ''*'' \<or> c = CHR ''+'' \<or> c = CHR ''-'' then [c] # tokens s
      else tokens s)"
  by pat_completeness auto
termination
  by (relation "measure length") (auto simp: le_imp_less_Suc length_dropWhile_le)

text \<open>The value of a literal token; a name has none.\<close>

definition token_lit :: "string \<Rightarrow> int option" where
  "token_lit tok =
     (if begins (\<lambda>c. c = CHR ''$'') tok then Some (int (from_digits 16 (tl tok)))
      else if begins (\<lambda>c. c = CHR 0x27) tok \<and> last tok = CHR 0x27 \<and> length tok = 3
      then Some (int (code (tok ! 1)))
      else if begins is_dec tok then Some (int (from_digits 10 tok))
      else None)"

text \<open>
  \<open>eval_expr\<close>, its local \<open>value_of\<close>, and the loop over the remaining tokens, which
  evaluates the right operand before it looks at the operator.
\<close>

function eval_expr :: "string \<Rightarrow> string dict \<Rightarrow> string list \<Rightarrow> int res"
  and value_of :: "string \<Rightarrow> string dict \<Rightarrow> string list \<Rightarrow> int res"
  and eval_rest :: "int \<Rightarrow> string list \<Rightarrow> string dict \<Rightarrow> string list \<Rightarrow> int res" where
  "eval_expr txt equs seen = (case tokens txt of
       [] \<Rightarrow> Inl ValueError
     | t # ts \<Rightarrow> bind_res (value_of t equs seen) (\<lambda>v. eval_rest v ts equs seen))"
| "value_of tok equs seen = (case token_lit tok of
       Some n \<Rightarrow> Inr n
     | None \<Rightarrow>
         if tok \<in> set seen then Inl ValueError
         else (case map_of equs tok of
             None \<Rightarrow> Inl ValueError
           | Some u \<Rightarrow> eval_expr u equs (tok # seen)))"
| "eval_rest acc [] equs seen = Inr acc"
| "eval_rest acc [op] equs seen = Inl IndexError"
| "eval_rest acc (op # t # ts) equs seen =
     bind_res (value_of t equs seen) (\<lambda>rhs.
       if op = ''*'' then eval_rest (acc * rhs) ts equs seen
       else if op = ''+'' then eval_rest (acc + rhs) ts equs seen
       else if op = ''-'' then eval_rest (acc - rhs) ts equs seen
       else Inl ValueError)"
  by pat_completeness auto
termination
proof (relation "(\<lambda>x. case x of Inl (txt, equs, seen) \<Rightarrow> unseen equs seen
      | Inr (Inl (tok, equs, seen)) \<Rightarrow> unseen equs seen
      | Inr (Inr (acc, ts, equs, seen)) \<Rightarrow> unseen equs seen) <*mlex*>
    measure (\<lambda>x. case x of Inl (txt, equs, seen) \<Rightarrow> length (tokens txt) + 2
      | Inr (Inl (tok, equs, seen)) \<Rightarrow> 0
      | Inr (Inr (acc, ts, equs, seen)) \<Rightarrow> length ts + 1)", goal_cases)
  case 1
  show ?case by (auto intro: wf_mlex)
qed (auto simp: mlex_prod_def intro: map_of_unseen)

declare eval_expr.simps [simp del] value_of.simps [simp del] eval_rest.simps [simp del]

section \<open>The relay region\<close>

text \<open>\<open>\bPROG_BASE\b\<close>; \<open>w\<close> says whether the character before is a word character.\<close>

fun mentions :: "string \<Rightarrow> bool \<Rightarrow> string \<Rightarrow> bool" where
  "mentions name w [] = False"
| "mentions name w (c # s) =
     ((\<not> w \<and> take (length name) (c # s) = name \<and> \<not> begins is_word (drop (length name) (c # s)))
      \<or> mentions name (is_word c) s)"

fun relay_floor :: "string dict \<Rightarrow> string dict \<Rightarrow> (int \<times> string) option
    \<Rightarrow> (int \<times> string) option res" where
  "relay_floor equs [] fl = Inr fl"
| "relay_floor equs ((name, raw) # d) fl =
     (if name = ''PROG_BASE'' \<or> \<not> mentions ''PROG_BASE'' False raw then relay_floor equs d fl
      else case eval_expr raw equs [] of
        Inl e \<Rightarrow> if e = ValueError then relay_floor equs d fl else Inl e
      | Inr addr \<Rightarrow> relay_floor equs d
          (case fl of None \<Rightarrow> Some (addr, name)
           | Some (a, n) \<Rightarrow> if addr < a then Some (addr, name) else Some (a, n)))"

definition collect_prog_base_relative_floor :: "string dict \<Rightarrow> (int \<times> string) option res" where
  "collect_prog_base_relative_floor equs = relay_floor equs equs None"

section \<open>The linker's report\<close>

text \<open>\<open>KEY\s*:\s*([0-9A-Fa-f]+)\<close> at the start of a line.\<close>

definition address_line :: "string \<Rightarrow> string \<Rightarrow> nat option" where
  "address_line key line =
     (let c = skip_ws (drop (length key) line); v = takeWhile is_hex (skip_ws (tl c))
      in if take (length key) line = key \<and> begins (\<lambda>x. x = CHR '':'') c \<and> v \<noteq> []
         then Some (from_digits 16 v) else None)"

text \<open>\<open>(\S+)\s+([0-9A-Fa-f]{4})\s*$\<close> at the start of a line.\<close>

definition symbol_line :: "string \<Rightarrow> (string \<times> nat) option" where
  "symbol_line line =
     (let name = takeWhile (\<lambda>c. \<not> is_space c) line;
          r = dropWhile (\<lambda>c. \<not> is_space c) line;
          v = skip_ws r
      in if name \<noteq> [] \<and> begins is_space r \<and> length (take 4 v) = 4 \<and> list_all is_hex (take 4 v)
            \<and> skip_ws (drop 4 v) = []
         then Some (name, from_digits 16 (take 4 v)) else None)"

type_synonym report = "nat option \<times> nat option \<times> nat dict"

definition report_line :: "report \<Rightarrow> string \<Rightarrow> report" where
  "report_line r line = (case r of (lo, hi, syms) \<Rightarrow>
     (case address_line ''Lowest address'' line of
        Some n \<Rightarrow> (Some n, hi, syms)
      | None \<Rightarrow> (case address_line ''Highest address'' line of
          Some n \<Rightarrow> (lo, Some n, syms)
        | None \<Rightarrow> (case symbol_line line of
            Some (k, v) \<Rightarrow> (lo, hi, dict_set k v syms)
          | None \<Rightarrow> (lo, hi, syms)))))"

text \<open>\<open>None\<close> is the exit with status 2.\<close>

definition link_and_get_symbols :: "string list option \<Rightarrow> (nat \<times> nat \<times> nat dict) option" where
  "link_and_get_symbols outp = (case outp of
       None \<Rightarrow> None
     | Some ls \<Rightarrow> (case foldl report_line (None, None, []) ls of
           (Some lo, Some hi, syms) \<Rightarrow> Some (lo, hi, syms)
         | _ \<Rightarrow> None))"

section \<open>The checks\<close>

record layout =
  threshold :: int
  equs :: "string dict"
  buffers :: "(string \<times> string) list"
  highest :: int
  syms :: "nat dict"
  nvk_base :: int
  nvk_top :: int
  vol_top :: int

text \<open>The end of the region an address lives in.\<close>

definition region_top :: "layout \<Rightarrow> int \<Rightarrow> int" where
  "region_top l addr = (if addr \<ge> nvk_base l then highest l else vol_top l)"

text \<open>Check (1) for one buffer: whether it fails; a buffer without address or size is skipped.\<close>

definition buffer_fails :: "layout \<Rightarrow> string \<times> string \<Rightarrow> bool res" where
  "buffer_fails l b = (case b of (name, size_text) \<Rightarrow>
     (case map_of (syms l) name of
        None \<Rightarrow> Inr False
      | Some a \<Rightarrow> (case eval_expr size_text (equs l) [] of
            Inl e \<Rightarrow> if e = ValueError then Inr False else Inl e
          | Inr sz \<Rightarrow>
              let start = int a; end = start + sz - 1; top = region_top l start;
                  margin = top - end
              in if start < nvk_base l then Inr (end > top) else Inr (margin < threshold l))))"

fun buffers_fail :: "layout \<Rightarrow> (string \<times> string) list \<Rightarrow> bool res" where
  "buffers_fail l [] = Inr False"
| "buffers_fail l (b # bs) =
     bind_res (buffer_fails l b) (\<lambda>f. bind_res (buffers_fail l bs) (\<lambda>g. Inr (f \<or> g)))"

text \<open>Check (2): the volatile region ends far enough below the relay structures.\<close>

definition floor_fails :: "layout \<Rightarrow> bool res" where
  "floor_fails l = bind_res (collect_prog_base_relative_floor (equs l)) (\<lambda>fl. Inr (case fl of
       None \<Rightarrow> True
     | Some (addr, _) \<Rightarrow> addr - vol_top l < threshold l))"

text \<open>Check (3): no file control block crosses a page.\<close>

definition fcb_length :: "layout \<Rightarrow> int res" where
  "fcb_length l = (case map_of (equs l) ''FCB_LEN'' of
       None \<Rightarrow> Inr 32 | Some t \<Rightarrow> eval_expr t (equs l) [])"

definition fcb_storage :: "layout \<Rightarrow> int \<Rightarrow> string list" where
  "fcb_storage l n = map fst (filter (\<lambda>(_, t). eval_expr t (equs l) [] = Inr n) (buffers l))"

definition straddlers :: "layout \<Rightarrow> int \<Rightarrow> (string \<times> nat) list" where
  "straddlers l n =
     filter (\<lambda>(name, addr). name \<in> set (fcb_storage l n) \<and> int (addr AND 0xFF) > 256 - n) (syms l)"

text \<open>Check (4): the image ends below the ceiling of its region.\<close>

definition image_fails :: "layout \<Rightarrow> bool" where
  [simp]: "image_fails l \<longleftrightarrow> nvk_top l - highest l < 0"

text \<open>The exit status 1 (true) or 0.\<close>

definition layout_fails :: "layout \<Rightarrow> bool res" where
  "layout_fails l =
     bind_res (buffers_fail l (buffers l)) (\<lambda>f1.
     bind_res (floor_fails l) (\<lambda>f2.
     bind_res (fcb_length l) (\<lambda>n.
       Inr (f1 \<or> f2 \<or> straddlers l n \<noteq> [] \<or> image_fails l))))"

section \<open>The program\<close>

definition DEFAULT_THRESHOLD :: int where
  "DEFAULT_THRESHOLD = 16"

definition DEFAULT_KOBJ_ASM :: "string list" where
  "DEFAULT_KOBJ_ASM =
     [''kernel/kernel.asm'', ''kernel/kernel_data.asm'', ''kernel/fat_data.asm'',
      ''kernel/dir_data.asm'', ''kernel/path_data.asm'', ''kernel/rtc_data.asm'',
      ''kernel/file_data.asm'', ''kernel/loader_data.asm'', ''kernel/batch_data.asm'',
      ''kernel/redir_data.asm'', ''lib/modload_data.asm'', ''kernel/kvolend.asm'',
      ''kernel/nvhdr.asm'', ''kernel/kinit.asm'', ''kernel/fat.asm'',
      ''kernel/dir.asm'', ''kernel/path.asm'', ''kernel/rtc.asm'',
      ''kernel/file.asm'', ''kernel/loader.asm'', ''kernel/batch.asm'',
      ''kernel/redir.asm'', ''lib/modload.asm'', ''lib/icall.asm'']"

definition index_of :: "'a \<Rightarrow> 'a list \<Rightarrow> nat" where
  "index_of x xs = length (takeWhile (\<lambda>y. y \<noteq> x) xs)"

text \<open>\<open>--threshold N\<close>, taken out of the arguments.\<close>

definition parse_args :: "string list \<Rightarrow> (int \<times> string list) res" where
  "parse_args args =
     (if ''--threshold'' \<in> set args then
        let i = index_of ''--threshold'' args in
        bind_res (idx args (i + 1)) (\<lambda>s. case int_10 s of
            None \<Rightarrow> Inl ValueError
          | Some n \<Rightarrow> Inr (n, take i args @ drop (i + 2) args))
      else Inr (DEFAULT_THRESHOLD, args))"

definition ends_with :: "string \<Rightarrow> string \<Rightarrow> bool" where
  "ends_with s x \<longleftrightarrow> length x \<le> length s \<and> drop (length s - length x) s = x"

definition include_files :: "string list \<Rightarrow> string list" where
  "include_files names =
     map (\<lambda>n. ''include/'' @ n) (filter (\<lambda>n. ends_with n ''.inc'' \<or> ends_with n ''.def'') (sort names))"

definition margin_main :: "string list \<Rightarrow> reader \<Rightarrow> string list \<Rightarrow> (string list \<Rightarrow> string list option)
    \<Rightarrow> nat res" where
  "margin_main args rd listing link02 =
     bind_res (parse_args args) (\<lambda>(thr, args).
       let asm_paths = (if args \<noteq> [] then args else DEFAULT_KOBJ_ASM);
           prg_paths = map (\<lambda>p. splitext_root p @ ''.prg'') asm_paths
       in if \<exists>p\<in>set prg_paths. rd p = None then Inr 2
          else
            let eqs = collect_equs rd (include_files listing @ asm_paths) in
            bind_res (collect_ds_buffers rd asm_paths) (\<lambda>bufs.
              case link_and_get_symbols (link02 prg_paths) of
                None \<Rightarrow> Inr 2
              | Some (lo, hi, sy) \<Rightarrow>
                  (case (map_of eqs ''NVK_BASE'', map_of eqs ''NVK_TOP'') of
                     (Some tb, Some tt) \<Rightarrow>
                       bind_res (eval_expr tb eqs []) (\<lambda>nb.
                       bind_res (eval_expr tt eqs []) (\<lambda>nt.
                         case map_of sy ''kvol_end'' of
                           None \<Rightarrow> Inr 2
                         | Some v \<Rightarrow>
                             bind_res (layout_fails \<lparr>threshold = thr, equs = eqs, buffers = bufs,
                                 highest = int hi, syms = sy, nvk_base = nb, nvk_top = nt,
                                 vol_top = int v\<rparr>)
                               (\<lambda>failed. Inr (if failed then 1 else 0))))
                   | _ \<Rightarrow> Inr 2)))"

section \<open>What exit status 0 means\<close>

text \<open>The values of the constants whose text mentions \<open>PROG_BASE\<close>, other than its own.\<close>

definition relay_values :: "string dict \<Rightarrow> string dict \<Rightarrow> int list" where
  "relay_values eqs d = List.map_filter (\<lambda>(name, raw).
     if name \<noteq> ''PROG_BASE'' \<and> mentions ''PROG_BASE'' False raw
     then (case eval_expr raw eqs [] of Inr x \<Rightarrow> Some x | Inl e \<Rightarrow> None) else None) d"

lemma relay_values_simps [simp]:
  "relay_values eqs [] = []"
  "relay_values eqs ((name, raw) # d) =
     (if name \<noteq> ''PROG_BASE'' \<and> mentions ''PROG_BASE'' False raw
      then (case eval_expr raw eqs [] of Inr x \<Rightarrow> x # relay_values eqs d | Inl e \<Rightarrow> relay_values eqs d)
      else relay_values eqs d)"
  by (simp_all add: relay_values_def List.map_filter_def split: sum.split)

lemma relay_floor_least:
  assumes "relay_floor eqs d fl = Inr r"
  shows "(r = None \<longleftrightarrow> fl = None \<and> relay_values eqs d = [])
    \<and> (\<forall>a n. r = Some (a, n) \<longrightarrow>
         a \<in> set (relay_values eqs d) \<union> fst ` set_option fl
         \<and> (\<forall>x\<in>set (relay_values eqs d) \<union> fst ` set_option fl. a \<le> x))"
  using assms
proof (induction eqs d fl rule: relay_floor.induct)
  case (2 eqs name raw d fl)
  show ?case
  proof (cases "name \<noteq> ''PROG_BASE'' \<and> mentions ''PROG_BASE'' False raw")
    case False
    with 2 show ?thesis by (auto simp: 2(1))
  next
    case True
    show ?thesis
    proof (cases "eval_expr raw eqs []")
      case (Inl e)
      with True 2(4) have "e = ValueError" by (auto split: if_splits)
      with 2(2) [of e] 2(4) True Inl show ?thesis by simp
    next
      case (Inr x)
      let ?fl = "case fl of None \<Rightarrow> Some (x, name)
        | Some (a, n) \<Rightarrow> if x < a then Some (x, name) else Some (a, n)"
      have "relay_floor eqs d ?fl = Inr r" using 2(4) True Inr by simp
      from 2(3) [OF _ Inr this] True have
        "(r = None \<longleftrightarrow> ?fl = None \<and> relay_values eqs d = [])
         \<and> (\<forall>a n. r = Some (a, n) \<longrightarrow> a \<in> set (relay_values eqs d) \<union> fst ` set_option ?fl
             \<and> (\<forall>y\<in>set (relay_values eqs d) \<union> fst ` set_option ?fl. a \<le> y))" by blast
      then show ?thesis
        using True Inr by (cases fl) (auto split: if_splits)
    qed
  qed
qed auto

lemma buffers_fail_Inr:
  assumes "buffers_fail l bs = Inr f"
  shows "f \<longleftrightarrow> (\<exists>b\<in>set bs. buffer_fails l b = Inr True)"
  using assms
proof (induction bs arbitrary: f)
  case (Cons b bs)
  then obtain x y where "buffer_fails l b = Inr x" "buffers_fail l bs = Inr y" "f = (x \<or> y)"
    by auto
  with Cons.IH [of y] show ?case by auto
qed simp

text \<open>The last byte of a buffer whose address and size are known keeps its distance.\<close>

definition buffer_safe :: "layout \<Rightarrow> int \<Rightarrow> int \<Rightarrow> bool" where
  "buffer_safe l start n \<longleftrightarrow>
     (if start < nvk_base l then start + n - 1 \<le> vol_top l
      else start + n - 1 + threshold l \<le> highest l)"

definition layout_safe :: "layout \<Rightarrow> int \<Rightarrow> bool" where
  "layout_safe l fcb \<longleftrightarrow>
     (\<forall>name t a n. (name, t) \<in> set (buffers l) \<and> map_of (syms l) name = Some a
        \<and> eval_expr t (equs l) [] = Inr n \<longrightarrow> buffer_safe l (int a) n)
     \<and> relay_values (equs l) (equs l) \<noteq> []
     \<and> (\<forall>x\<in>set (relay_values (equs l) (equs l)). vol_top l + threshold l \<le> x)
     \<and> (\<forall>name a. (name, a) \<in> set (syms l) \<and> name \<in> set (fcb_storage l fcb) \<longrightarrow>
          int (a mod 256) + fcb \<le> 256)
     \<and> highest l \<le> nvk_top l"

lemma buffer_fails_True:
  "buffer_fails l (name, t) = Inr True \<longleftrightarrow>
     (\<exists>a n. map_of (syms l) name = Some a \<and> eval_expr t (equs l) [] = Inr n \<and> \<not> buffer_safe l (int a) n)"
  by (auto simp: buffer_fails_def buffer_safe_def region_top_def Let_def split: option.split sum.split)

lemma low_byte: "(n::nat) AND 0xFF = n mod 256"
  by (simp add: and_nat_masks take_bit_eq_mod)

lemma floor_fails_Inr:
  assumes "floor_fails l = Inr f"
  shows "\<not> f \<longleftrightarrow> relay_values (equs l) (equs l) \<noteq> []
    \<and> (\<forall>x\<in>set (relay_values (equs l) (equs l)). vol_top l + threshold l \<le> x)"
proof -
  obtain r where r: "relay_floor (equs l) (equs l) None = Inr r"
    and f: "f = (case r of None \<Rightarrow> True | Some (addr, _) \<Rightarrow> addr - vol_top l < threshold l)"
    using assms by (auto simp: floor_fails_def collect_prog_base_relative_floor_def)
  note least = relay_floor_least [OF r]
  show ?thesis
  proof (cases r)
    case None
    with least f show ?thesis by simp
  next
    case (Some p)
    obtain a n where p: "p = (a, n)" by fastforce
    have "a \<in> set (relay_values (equs l) (equs l))" "\<forall>x\<in>set (relay_values (equs l) (equs l)). a \<le> x"
      using least Some p by auto
    then show ?thesis using f Some p by fastforce
  qed
qed

text \<open>
  C22. When no exception ends the program, its status tells exactly whether the layout is
  safe: every buffer with a known address and size ends inside its region (with the
  threshold as slack in the ROM region), there are constants placed relative to
  \<open>PROG_BASE\<close> and all of them lie at least the threshold above the volatile region, no
  file control block crosses a page, and the image ends at or below \<open>NVK_TOP\<close>.
\<close>

theorem margin_status_is_layout_safety:
  assumes "layout_fails l = Inr f" and "fcb_length l = Inr fcb"
  shows "f \<longleftrightarrow> \<not> layout_safe l fcb"
proof -
  obtain f1 f2 where f1: "buffers_fail l (buffers l) = Inr f1" and f2: "floor_fails l = Inr f2"
    and f: "f \<longleftrightarrow> f1 \<or> f2 \<or> straddlers l fcb \<noteq> [] \<or> nvk_top l - highest l < 0"
    using assms by (auto simp: layout_fails_def)
  have "f1 \<longleftrightarrow> (\<exists>name t a n. (name, t) \<in> set (buffers l) \<and> map_of (syms l) name = Some a
      \<and> eval_expr t (equs l) [] = Inr n \<and> \<not> buffer_safe l (int a) n)"
    unfolding buffers_fail_Inr [OF f1] by (auto simp: buffer_fails_True Bex_def)
  moreover have "straddlers l fcb \<noteq> [] \<longleftrightarrow>
      (\<exists>name a. (name, a) \<in> set (syms l) \<and> name \<in> set (fcb_storage l fcb)
        \<and> \<not> int (a mod 256) + fcb \<le> 256)"
  proof -
    have "256 - fcb < int x \<longleftrightarrow> \<not> int x + fcb \<le> 256" for x by linarith
    then show ?thesis by (simp only: straddlers_def filter_empty_conv low_byte) auto
  qed
  moreover note floor_fails_Inr [OF f2]
  ultimately show ?thesis
    unfolding f layout_safe_def by (simp only: not_less de_Morgan_conj de_Morgan_disj) auto
qed

text \<open>
  C23. What check (3) is for: when the program exits with 0, adding a field's offset to the
  low byte of a file control block's address, without a carry into the high byte, gives the
  field's address.
\<close>

theorem fcb_fields_need_no_carry:
  assumes "layout_fails l = Inr False" and "fcb_length l = Inr fcb"
    and "(name, a) \<in> set (syms l)" and "name \<in> set (fcb_storage l fcb)" and "int off < fcb"
  shows "256 * (a div 256) + (a mod 256 + off) mod 256 = a + off"
proof -
  have "straddlers l fcb = []"
    using assms(1,2) by (auto simp: layout_fails_def)
  then have "int (a mod 256) + fcb \<le> 256"
    using assms(3,4) by (auto simp: straddlers_def filter_empty_conv low_byte)
  then have "a mod 256 + off < 256" using assms(5) by linarith
  then show ?thesis by simp
qed

lemma demo_tokens:
  "tokens ''PROG_BASE-2'' = [''PROG_BASE'', ''-'', ''2'']" "tokens ''$4400'' = [''$4400'']"
  "tokens ''32'' = [''32'']"
  by (simp_all add: is_dec_def is_alpha_def is_ident_char_def is_hex_def code_def begins_def)

lemma demo_lits:
  "token_lit ''$4400'' = Some 0x4400" "token_lit ''32'' = Some 32" "token_lit ''2'' = Some 2"
  "token_lit ''PROG_BASE'' = None"
  by (simp_all add: token_lit_def is_dec_def code_def begins_def from_digits_def digit_val_def Let_def)

lemma eval_expr_tokens:
  "tokens t = x # xs \<Longrightarrow>
   eval_expr t e s = bind_res (value_of x e s) (\<lambda>v. eval_rest v xs e s)"
  by (subst eval_expr.simps) simp

lemma value_of_lit: "token_lit x = Some n \<Longrightarrow> value_of x e s = Inr n"
  by (subst value_of.simps) simp

lemma value_of_name:
  "token_lit x = None \<Longrightarrow> x \<notin> set s \<Longrightarrow> map_of e x = Some u \<Longrightarrow> value_of x e s = eval_expr u e (x # s)"
  by (subst value_of.simps) simp

lemmas eval_simps = eval_expr_tokens value_of_lit value_of_name eval_rest.simps

definition demo_consts :: "string dict" where
  "demo_consts = [(''R'', ''PROG_BASE-2''), (''PROG_BASE'', ''$4400'')]"

lemma demo_evals:
  "eval_expr ''$4400'' e seen = Inr 0x4400" "eval_expr ''32'' e seen = Inr 32"
  "eval_expr ''PROG_BASE-2'' demo_consts [] = Inr 0x43FE"
proof -
  show four: "eval_expr ''$4400'' e seen = Inr 0x4400" for e seen
    by (simp only: eval_expr_tokens [OF demo_tokens(2)] value_of_lit [OF demo_lits(1)]
        eval_rest.simps bind_res_simps)
  show "eval_expr ''32'' e seen = Inr 32"
    by (simp only: eval_expr_tokens [OF demo_tokens(3)] value_of_lit [OF demo_lits(2)]
        eval_rest.simps bind_res_simps)
  have "value_of ''PROG_BASE'' demo_consts [] = Inr 0x4400"
    using value_of_name [OF demo_lits(4), of "[]" demo_consts "''$4400''"] four
    by (simp add: demo_consts_def)
  then show "eval_expr ''PROG_BASE-2'' demo_consts [] = Inr 0x43FE"
    unfolding eval_expr_tokens [OF demo_tokens(1)]
    by (simp add: eval_rest.simps value_of_lit [OF demo_lits(3)])
qed

text \<open>A layout that passes, for the witnesses.\<close>

definition demo_layout :: layout where
  "demo_layout = \<lparr>threshold = 16, equs = demo_consts,
     buffers = [(''f'', ''32'')], highest = 0xC000, syms = [(''f'', 0x1020)],
     nvk_base = 0xBD00, nvk_top = 0xEFFF, vol_top = 0x2000\<rparr>"

lemma demo_floor: "collect_prog_base_relative_floor demo_consts = Inr (Some (0x43FE, ''R''))"
proof -
  have "mentions ''PROG_BASE'' False ''PROG_BASE-2''"
    by (simp add: is_word_def is_dec_def is_alpha_def is_ident_char_def code_def begins_def)
  then have "relay_floor demo_consts [(''R'', ''PROG_BASE-2''), (''PROG_BASE'', ''$4400'')] None
      = Inr (Some (0x43FE, ''R''))"
    by (simp only: relay_floor.simps) (simp add: demo_evals del: mentions.simps)
  then show ?thesis
    unfolding collect_prog_base_relative_floor_def by (simp add: demo_consts_def)
qed

lemma demo_layout_passes: "layout_fails demo_layout = Inr False" "fcb_length demo_layout = Inr 32"
  "(''f'', 0x1020) \<in> set (syms demo_layout)" "''f'' \<in> set (fcb_storage demo_layout 32)"
proof -
  have l: "equs demo_layout = demo_consts" "buffers demo_layout = [(''f'', ''32'')]"
    "syms demo_layout = [(''f'', 0x1020)]" "threshold demo_layout = 16" "highest demo_layout = 0xC000"
    "nvk_base demo_layout = 0xBD00" "nvk_top demo_layout = 0xEFFF" "vol_top demo_layout = 0x2000"
    by (simp_all add: demo_layout_def demo_consts_def)
  show fcb: "fcb_length demo_layout = Inr 32"
    unfolding fcb_length_def l by (simp add: demo_consts_def)
  show "layout_fails demo_layout = Inr False"
    by (simp add: layout_fails_def l fcb buffer_fails_def region_top_def floor_fails_def demo_floor
        straddlers_def demo_evals low_byte Let_def)
  show "(''f'', 0x1020) \<in> set (syms demo_layout)" by (simp add: l)
  show "''f'' \<in> set (fcb_storage demo_layout 32)" by (simp add: fcb_storage_def l demo_evals)
qed

theorem margin_status_is_layout_safety_witness: "layout_safe demo_layout 32"
  using margin_status_is_layout_safety [OF demo_layout_passes(1,2)] by simp

theorem fcb_fields_need_no_carry_witness:
  "256 * (0x1020 div 256) + (0x1020 mod 256 + 31) mod 256 = 0x1020 + (31 :: nat)"
  by (rule fcb_fields_need_no_carry [OF demo_layout_passes(1-4)]) simp

section \<open>Expressions\<close>

subsection \<open>Against eval_equ\<close>

lemma space_classes:
  "is_space c \<Longrightarrow> \<not> is_hex c" "is_space c \<Longrightarrow> \<not> is_dec c" "is_space c \<Longrightarrow> \<not> is_ident_char c"
  by (auto simp: is_space_def is_hex_def is_dec_def is_ident_char_def is_alpha_def Let_def)

lemma tokens_space: "is_space c \<Longrightarrow> tokens (c # s) = tokens s"
proof -
  assume c: "is_space c"
  have "\<not> is_space (CHR ''$'')" "\<not> is_space (CHR 0x27)" "\<not> is_space (CHR ''*'')"
    "\<not> is_space (CHR ''+'')" "\<not> is_space (CHR ''-'')"
    by (simp_all add: is_space_def code_def)
  with c have "c \<noteq> CHR ''$''" "c \<noteq> CHR 0x27" "c \<noteq> CHR ''*''" "c \<noteq> CHR ''+''" "c \<noteq> CHR ''-''"
    by blast+
  moreover have "\<not> is_dec c" "\<not> is_alpha c"
    using space_classes [OF c] by (simp_all add: is_ident_char_def)
  ultimately show "tokens (c # s) = tokens s" by simp
qed

lemma tokens_blank: "list_all is_space s \<Longrightarrow> tokens s = []"
  by (induction s) (simp_all add: tokens_space del: tokens.simps(2))

lemma tokens_lead: "list_all is_space u \<Longrightarrow> tokens (u @ s) = tokens s"
  by (induction u) (simp_all add: tokens_space del: tokens.simps(2))

lemma strip_parts:
  obtains u v where "t = u @ strip t @ v" and "list_all is_space u" and "list_all is_space v"
proof -
  let ?d = "dropWhile is_space t"
  have "?d = strip t @ rev (takeWhile is_space (rev ?d))"
    unfolding strip_def by (metis rev_append rev_rev_ident takeWhile_dropWhile_id)
  then have "t = takeWhile is_space t @ strip t @ rev (takeWhile is_space (rev ?d))"
    by (metis takeWhile_dropWhile_id)
  moreover have "list_all is_space (takeWhile is_space t)"
    "list_all is_space (rev (takeWhile is_space (rev ?d)))"
    by (auto simp: list_all_iff dest: set_takeWhileD)
  ultimately show thesis by (rule that)
qed

text \<open>What may follow a token: nothing, or a blank.\<close>

definition stops :: "string \<Rightarrow> bool" where
  "stops v \<longleftrightarrow> v = [] \<or> is_space (hd v)"

lemma takeWhile_stops:
  assumes "list_all P s" and "stops v" and "\<And>c. is_space c \<Longrightarrow> \<not> P c"
  shows "takeWhile P (s @ v) = s" and "dropWhile P (s @ v) = v"
proof -
  have "takeWhile P v = []" "dropWhile P v = v"
    using assms(2,3) by (cases v; auto simp: stops_def)+
  with assms(1) show "takeWhile P (s @ v) = s" "dropWhile P (s @ v) = v"
    by (induction s) simp_all
qed

lemma tokens_literal:
  assumes "literal t = Some n" and "stops v"
  shows "tokens (t @ v) = t # tokens v" and "token_lit t = Some (int n)"
proof -
  have "tokens (t @ v) = t # tokens v \<and> token_lit t = Some (int n)"
  proof (cases "begins (\<lambda>c. c = CHR ''$'') t \<and> tl t \<noteq> [] \<and> list_all is_hex (tl t)")
    case True
    then obtain h r where t: "t = CHR ''$'' # h # r" "list_all is_hex (h # r)"
      by (cases t; cases "tl t") (auto simp: begins_def)
    then have "tokens (t @ v) = t # tokens v"
      using takeWhile_stops [OF t(2) assms(2) space_classes(1)] by (simp add: begins_def)
    moreover have "n = from_digits 16 (tl t)"
      using assms(1) t by (simp add: literal_def)
    ultimately show ?thesis using t by (simp add: token_lit_def begins_def)
  next
    case False
    then have dec: "t \<noteq> []" "list_all is_dec t" and n: "n = from_digits 10 t"
      using assms(1) by (auto simp: literal_def begins_def split: if_splits)
    then obtain c r where t: "t = c # r" by (cases t) auto
    then have c: "is_dec c" "c \<noteq> CHR ''$''" "c \<noteq> CHR 0x27" and r: "list_all is_dec r"
      using dec by (auto simp: is_dec_def code_def)
    then have "tokens (t @ v) = t # tokens v"
      using t takeWhile_stops [OF r assms(2) space_classes(2)] by simp
    then show ?thesis using t c n by (simp add: token_lit_def begins_def)
  qed
  then show "tokens (t @ v) = t # tokens v" and "token_lit t = Some (int n)" by simp_all
qed

lemma tokens_name:
  assumes "equ_name t" and "stops v"
  shows "tokens (t @ v) = t # tokens v" and "token_lit t = None"
proof -
  obtain c r where t: "t = c # r" "is_alpha c" and r: "list_all is_ident_char r"
    using assms(1) by (cases t) (auto simp: equ_name_def begins_def)
  have c: "\<not> is_dec c" "c \<noteq> CHR ''$''" "c \<noteq> CHR 0x27"
    using t(2) by (auto simp: is_dec_def is_alpha_def code_def)
  then show "tokens (t @ v) = t # tokens v"
    using t takeWhile_stops [OF r assms(2) space_classes(3)] by simp
  show "token_lit t = None" using t c by (simp add: token_lit_def begins_def)
qed

lemma blank_stops: "list_all is_space v \<Longrightarrow> stops v"
  by (cases v) (auto simp: stops_def)

text \<open>
  C24. Both build tools read \<open>include/memmap.inc\<close>, with evaluators of their own. Over
  constants with identifiers for names they agree: what \<open>eval_equ\<close> evaluates,
  \<open>eval_expr\<close> evaluates to the same number.
\<close>

theorem eval_expr_extends_eval_equ:
  assumes "list_all (\<lambda>(k, u). equ_name k) eqs" and "eval_equ t eqs seen = Inr n"
  shows "eval_expr t eqs seen = Inr (int n)"
  using assms
proof (induction t eqs seen rule: eval_equ.induct)
  case (1 t eqs seen)
  obtain u v where t: "t = u @ strip t @ v" and u: "list_all is_space u" and v: "list_all is_space v"
    by (rule strip_parts)
  have tok: "tokens t = tokens (strip t @ v)" by (subst t) (rule tokens_lead [OF u])
  show ?case
  proof (cases "literal (strip t)")
    case (Some m)
    then have "m = n" using 1(3) by (simp add: eval_equ_literal)
    then show ?thesis
      using tokens_literal [OF Some blank_stops [OF v]] tokens_blank [OF v] tok
      by (simp add: eval_simps)
  next
    case None
    then obtain w where w: "map_of eqs (strip t) = Some w" "strip t \<notin> set seen"
      and r: "eval_equ w eqs (strip t # seen) = Inr n"
      using 1(3) by (auto simp: eval_equ_name [OF None] split: option.splits if_splits)
    have "equ_name (strip t)"
      using w(1) 1(2) by (auto simp: list_all_iff dest!: map_of_SomeD)
    then have "tokens t = [strip t]" "token_lit (strip t) = None"
      using tokens_name [OF _ blank_stops [OF v]] tokens_blank [OF v] tok by auto
    then show ?thesis
      using 1(1) [OF refl None w 1(2) r] w by (simp add: eval_simps)
  qed
qed

theorem eval_expr_extends_eval_equ_witness:
  "eval_expr ''A'' [(''A'', ''3'')] [] = Inr (int 3)"
proof (rule eval_expr_extends_eval_equ)
  have "strip ''A'' = ''A''" by (simp add: strip_def is_space_def code_def)
  moreover have "literal ''A'' = None" by (simp add: literal_def is_dec_def code_def)
  ultimately show "eval_equ ''A'' [(''A'', ''3'')] [] = Inr 3"
    by (simp add: eval_equ_name eval_equ_literal literal_def is_dec_def code_def strip_def
        is_space_def from_digits_def digit_val_def)
qed (simp add: equ_name_def begins_def is_alpha_def is_ident_char_def code_def)

subsection \<open>Operators\<close>

definition apply_op :: "char \<Rightarrow> int \<Rightarrow> int \<Rightarrow> int" where
  "apply_op c a b = (if c = CHR ''*'' then a * b else if c = CHR ''+'' then a + b else a - b)"

definition is_op :: "char \<Rightarrow> bool" where
  "is_op c \<longleftrightarrow> c = CHR ''*'' \<or> c = CHR ''+'' \<or> c = CHR ''-''"

text \<open>An operator and its right operand, and such a sequence as text.\<close>

definition op_text :: "(char \<times> string) list \<Rightarrow> string" where
  "op_text es = concat (map (\<lambda>(c, t). '' '' @ [c] @ '' '' @ t) es)"

definition op_value :: "int \<Rightarrow> (char \<times> string) list \<Rightarrow> int" where
  "op_value n es = foldl (\<lambda>a (c, t). apply_op c a (int (the (literal t)))) n es"

lemma op_text_stops: "stops (op_text es)"
  by (cases es) (auto simp: op_text_def stops_def is_space_def code_def)

lemma tokens_op:
  assumes "is_op c"
  shows "tokens ('' '' @ [c] @ '' '' @ s) = [c] # tokens s"
proof -
  have sp: "is_space (CHR '' '')" by (simp add: is_space_def code_def)
  have "\<not> is_dec c" "\<not> is_alpha c" "c \<noteq> CHR ''$''" "c \<noteq> CHR 0x27"
    using assms by (auto simp: is_op_def is_dec_def is_alpha_def code_def)
  then show ?thesis
    using assms tokens_space [OF sp] by (simp add: is_op_def del: tokens.simps(2))
      (subst tokens.simps(2), simp add: tokens_space [OF sp] del: tokens.simps(2))
qed

lemma eval_rest_ops:
  assumes "list_all (\<lambda>(c, t). is_op c \<and> literal t \<noteq> None) es"
  shows "eval_rest a (tokens (op_text es)) eqs seen = Inr (op_value a es)"
  using assms
proof (induction es arbitrary: a)
  case (Cons e es)
  obtain c t n where e: "e = (c, t)" "is_op c" "literal t = Some n"
    using Cons.prems by (cases e) auto
  have "tokens (op_text (e # es)) = [c] # t # tokens (op_text es)"
    using tokens_op [OF e(2), of "t @ op_text es"] tokens_literal(1) [OF e(3) op_text_stops]
    by (simp add: op_text_def e(1))
  then show ?case
    using Cons e tokens_literal(2) [OF e(3) op_text_stops [of es]]
    by (auto simp: eval_rest.simps value_of_lit op_value_def apply_op_def is_op_def)
qed (simp add: op_text_def op_value_def eval_rest.simps)

text \<open>
  C25. An expression of literals and operators is evaluated from left to right: \<open>*\<close> binds
  no tighter than \<open>+\<close> and \<open>-\<close>, as in the assembler.
\<close>

theorem expressions_left_to_right:
  assumes "literal t = Some n" and "list_all (\<lambda>(c, t). is_op c \<and> literal t \<noteq> None) es"
  shows "eval_expr (t @ op_text es) eqs seen = Inr (op_value (int n) es)"
  using tokens_literal [OF assms(1) op_text_stops [of es]] eval_rest_ops [OF assms(2)]
  by (simp add: eval_expr_tokens value_of_lit)

theorem expressions_left_to_right_witness:
  "eval_expr ''2 + 3 * 4'' [] [] = Inr 20"
proof -
  have lits: "literal ''2'' = Some 2" "literal ''3'' = Some 3" "literal ''4'' = Some 4"
    by (simp_all add: literal_def is_dec_def code_def from_digits_def digit_val_def)
  then show ?thesis
    using expressions_left_to_right [of "''2''" 2 "[(CHR ''+'', ''3''), (CHR ''*'', ''4'')]" "[]" "[]"]
    by (simp add: op_text_def op_value_def apply_op_def is_op_def)
qed

text \<open>
  The evaluator skips every character no token starts with, parentheses included, although
  its documentation says that it raises on what it does not recognise.
\<close>

lemma parentheses_are_skipped: "eval_expr ''2*(3+4)'' eqs seen = Inr 10"
proof -
  have "tokens ''2*(3+4)'' = [''2'', ''*'', ''3'', ''+'', ''4'']"
    by (simp add: is_dec_def is_alpha_def code_def)
  moreover have "token_lit ''2'' = Some 2" "token_lit ''3'' = Some 3" "token_lit ''4'' = Some 4"
    by (simp_all add: token_lit_def is_dec_def code_def begins_def from_digits_def digit_val_def)
  ultimately show ?thesis by (simp add: eval_simps)
qed

lemma dangling_operator_escapes: "eval_expr ''5 +'' eqs seen = Inl IndexError"
proof -
  have "tokens ''5 +'' = [''5'', ''+'']"
    by (simp add: is_dec_def is_alpha_def code_def)
  moreover have "token_lit ''5'' = Some 5"
    by (simp add: token_lit_def is_dec_def code_def begins_def from_digits_def digit_val_def)
  ultimately show ?thesis by (simp add: eval_simps)
qed

end
