(* ===== verification/Cpu_1802.thy ===== *)
theory Cpu_1802
  imports Py_Text
begin

text \<open>
  The 1802 simulator of \<open>tools/fat12-proto/sim12.py\<close>: the class \<open>CPU\<close> with its memory,
  registers and flags as Python integers, one definition per method, the instruction
  dispatch in the order of the source, and the loop \<open>run\<close> with its hooks. Registers and
  the accumulator are integers, because Python does not wrap them by itself: the code masks
  them where it wants to. Messages of exceptions are kept without their numbers.
\<close>

section \<open>The state and its accessors\<close>

record cpu =
  mem :: "byte list"
  regs :: "int list"
  acc :: int
  carry :: int
  xsel :: nat
  psel :: nat
  steps :: nat

definition reg :: "cpu \<Rightarrow> nat \<Rightarrow> int" where
  "reg c n = regs c ! n"

definition set_reg :: "nat \<Rightarrow> int \<Rightarrow> cpu \<Rightarrow> cpu" where
  "set_reg n v c = c\<lparr>regs := (regs c)[n := v]\<rparr>"

text \<open>\<open>CPU()\<close>: the image is put at 0x100 by a slice assignment.\<close>

definition put_slice :: "'a list \<Rightarrow> nat \<Rightarrow> nat \<Rightarrow> 'a list \<Rightarrow> 'a list" where
  "put_slice xs a b ys = take a xs @ ys @ drop (max a b) xs"

definition cpu_init :: "byte list \<Rightarrow> cpu" where
  "cpu_init img =
     \<lparr>mem = put_slice (replicate 65536 0) 0x100 (0x100 + length img) img,
      regs = replicate 16 0, acc = 0, carry = 0, xsel = 2, psel = 3, steps = 0\<rparr>"

definition cpu_rd :: "cpu \<Rightarrow> int \<Rightarrow> int res" where
  "cpu_rd c a = bind_res (idx (mem c) (nat (a AND 0xFFFF))) (\<lambda>b. Inr (uint b))"

definition cpu_wr :: "cpu \<Rightarrow> int \<Rightarrow> int \<Rightarrow> cpu res" where
  "cpu_wr c a v =
     bind_res (upd (mem c) (nat (a AND 0xFFFF)) (of_int (v AND 0xFF))) (\<lambda>m. Inr (c\<lparr>mem := m\<rparr>))"

definition fetch :: "cpu \<Rightarrow> (int \<times> cpu) res" where
  "fetch c =
     bind_res (py_index (mem c) (reg c (psel c))) (\<lambda>v.
     Inr (uint v, set_reg (psel c) ((reg c (psel c) + 1) AND 0xFFFF) c))"

definition push16 :: "int \<Rightarrow> cpu \<Rightarrow> cpu res" where
  "push16 v c =
     bind_res (cpu_wr c (reg c 2) (v AND 0xFF)) (\<lambda>c.
     let c = set_reg 2 (reg c 2 - 1) c in
     bind_res (cpu_wr c (reg c 2) (drop_bit 8 v)) (\<lambda>c.
     Inr (set_reg 2 (reg c 2 - 1) c)))"

definition pop16 :: "cpu \<Rightarrow> (int \<times> cpu) res" where
  "pop16 c =
     (let c = set_reg 2 (reg c 2 + 1) c in
      bind_res (cpu_rd c (reg c 2)) (\<lambda>hi.
      let c = set_reg 2 (reg c 2 + 1) c in
      bind_res (cpu_rd c (reg c 2)) (\<lambda>lo.
      Inr (push_bit 8 hi OR lo, c))))"

section \<open>One instruction\<close>

text \<open>The table of branch conditions; \<open>None\<close> for a number it does not have.\<close>

definition branch_cond :: "nat \<Rightarrow> cpu \<Rightarrow> bool option" where
  "branch_cond n c =
     (if n = 0 then Some True
      else if n = 2 then Some (acc c = 0)
      else if n = 3 then Some (carry c = 1)
      else if n = 10 then Some (acc c \<noteq> 0)
      else if n = 11 then Some (carry c = 0)
      else None)"

text \<open>\<open>M()\<close>, and the operand of an instruction with a memory and an immediate form.\<close>

definition at_x :: "cpu \<Rightarrow> int res" where
  "at_x c = cpu_rd c (reg c (xsel c))"

definition operand :: "bool \<Rightarrow> cpu \<Rightarrow> (int \<times> cpu) res" where
  "operand imm c = (if imm then fetch c else bind_res (at_x c) (\<lambda>v. Inr (v, c)))"

definition set_acc :: "int \<Rightarrow> cpu \<Rightarrow> cpu" where
  "set_acc v c = c\<lparr>acc := v\<rparr>"

definition set_flags :: "int \<Rightarrow> int \<Rightarrow> cpu \<Rightarrow> cpu" where
  "set_flags v f c = c\<lparr>acc := v, carry := f\<rparr>"

definition step_x :: "int \<Rightarrow> cpu \<Rightarrow> cpu" where
  "step_x k c = set_reg (xsel c) ((reg c (xsel c) + k) AND 0xFFFF) c"

text \<open>The branches of the dispatch, in the order of the source; \<open>pc\<close> is the opcode's address.\<close>

definition execute :: "nat \<Rightarrow> int \<Rightarrow> cpu \<Rightarrow> cpu res" where
  "execute op pc c =
     (let i = op div 16; n = op mod 16 in
      if i = 0 then
        if n = 0 then Inl (RuntimeError ''IDL'')
        else bind_res (cpu_rd c (reg c n)) (\<lambda>v. Inr (set_acc v c))
      else if i = 1 then Inr (set_reg n ((reg c n + 1) AND 0xFFFF) c)
      else if i = 2 then Inr (set_reg n ((reg c n - 1) AND 0xFFFF) c)
      else if i = 3 then
        bind_res (fetch c) (\<lambda>(t, c).
        let a = ((pc + 1) AND 0xFF00) OR t in
        case branch_cond n c of
          None \<Rightarrow> Inl (RuntimeError ''short op'')
        | Some taken \<Rightarrow> Inr (if taken then set_reg 3 a c else c))
      else if i = 4 then
        bind_res (cpu_rd c (reg c n)) (\<lambda>v.
        Inr (set_reg n ((reg c n + 1) AND 0xFFFF) (set_acc v c)))
      else if i = 5 then cpu_wr c (reg c n) (acc c)
      else if op = 0x60 then Inr (step_x 1 c)
      else if op = 0x72 then bind_res (at_x c) (\<lambda>v. Inr (step_x 1 (set_acc v c)))
      else if op = 0x73 then
        bind_res (cpu_wr c (reg c (xsel c)) (acc c)) (\<lambda>c. Inr (step_x (- 1) c))
      else if op = 0x74 \<or> op = 0x7C then
        bind_res (operand (op = 0x7C) c) (\<lambda>(v, c).
        let s = acc c + v + carry c in Inr (set_flags (s AND 0xFF) (drop_bit 8 s) c))
      else if op = 0x77 \<or> op = 0x7F then
        bind_res (operand (op = 0x7F) c) (\<lambda>(v, c).
        let s = acc c - v - (1 - carry c) in
        Inr (set_flags (s AND 0xFF) (if s \<ge> 0 then 1 else 0) c))
      else if op = 0x76 then
        Inr (set_flags (drop_bit 1 (acc c) OR push_bit 7 (carry c)) (acc c AND 1) c)
      else if op = 0x7E then
        Inr (set_flags ((push_bit 1 (acc c) OR carry c) AND 0xFF) (drop_bit 7 (acc c)) c)
      else if i = 8 then Inr (set_acc (reg c n AND 0xFF) c)
      else if i = 9 then Inr (set_acc (drop_bit 8 (reg c n)) c)
      else if i = 10 then Inr (set_reg n ((reg c n AND 0xFF00) OR acc c) c)
      else if i = 11 then Inr (set_reg n ((reg c n AND 0xFF) OR push_bit 8 (acc c)) c)
      else if i = 12 then
        bind_res (fetch c) (\<lambda>(hi, c).
        bind_res (fetch c) (\<lambda>(lo, c).
        let a = push_bit 8 hi OR lo in
        case branch_cond n c of
          None \<Rightarrow> Inl (RuntimeError ''long op'')
        | Some taken \<Rightarrow> Inr (if taken then set_reg 3 a c else c)))
      else if op = 0xD4 then
        bind_res (fetch c) (\<lambda>(hi, c).
        bind_res (fetch c) (\<lambda>(lo, c).
        bind_res (push16 (reg c 6) c) (\<lambda>c.
        let c = set_reg 6 (reg c 3) c in Inr (set_reg 3 (push_bit 8 hi OR lo) c))))
      else if op = 0xD5 then
        bind_res (pop16 (set_reg 3 (reg c 6) c)) (\<lambda>(v, c). Inr (set_reg 6 v c))
      else if op = 0xF0 then bind_res (at_x c) (\<lambda>v. Inr (set_acc v c))
      else if op = 0xF1 then bind_res (at_x c) (\<lambda>v. Inr (set_acc (acc c OR v) c))
      else if op = 0xF2 then bind_res (at_x c) (\<lambda>v. Inr (set_acc (acc c AND v) c))
      else if op = 0xF3 then bind_res (at_x c) (\<lambda>v. Inr (set_acc (acc c XOR v) c))
      else if op = 0xF4 \<or> op = 0xFC then
        bind_res (operand (op = 0xFC) c) (\<lambda>(v, c).
        let s = acc c + v in Inr (set_flags (s AND 0xFF) (drop_bit 8 s) c))
      else if op = 0xF7 \<or> op = 0xFF then
        bind_res (operand (op = 0xFF) c) (\<lambda>(v, c).
        let s = acc c - v in Inr (set_flags (s AND 0xFF) (if s \<ge> 0 then 1 else 0) c))
      else if op = 0xF6 then Inr (set_flags (drop_bit 1 (acc c)) (acc c AND 1) c)
      else if op = 0xFE then Inr (set_flags (push_bit 1 (acc c) AND 0xFF) (drop_bit 7 (acc c)) c)
      else if op = 0xF8 then bind_res (fetch c) (\<lambda>(v, c). Inr (set_acc v c))
      else if op = 0xF9 then bind_res (fetch c) (\<lambda>(v, c). Inr (set_acc (acc c OR v) c))
      else if op = 0xFA then bind_res (fetch c) (\<lambda>(v, c). Inr (set_acc (acc c AND v) c))
      else if op = 0xFB then bind_res (fetch c) (\<lambda>(v, c). Inr (set_acc (acc c XOR v) c))
      else Inl (RuntimeError ''op''))"

text \<open>The body of the loop when the program counter is neither the sentinel nor a hook.\<close>

definition cpu_step :: "cpu \<Rightarrow> cpu res" where
  "cpu_step c =
     (let pc = reg c 3; c = c\<lparr>steps := steps c + 1\<rparr> in
      if steps c > 200000 then Inl (RuntimeError ''runaway'')
      else bind_res (fetch c) (\<lambda>(op, c). execute (nat op) pc c))"

section \<open>The loop and its hooks\<close>

text \<open>
  A hook stands for a routine of the program; it works on the processor and on the model
  disk \<open>'w\<close>. \<open>Stopped\<close> is the exception \<open>Stop\<close> of simb7.py, with the state it leaves behind:
  the only exception a caller survives.
\<close>

datatype 'w outcome =
    Returned cpu 'w
  | Raised py_error
  | Stopped cpu 'w

type_synonym 'w hook = "cpu \<Rightarrow> 'w \<Rightarrow> 'w outcome"
type_synonym 'w hooks = "int \<Rightarrow> 'w hook option"

definition SENT :: int where
  "SENT = 0xFFF0"

text \<open>The return after a hook.\<close>

definition hook_rtn :: "cpu \<Rightarrow> cpu res" where
  "hook_rtn c =
     bind_res (pop16 (set_reg 3 (reg c 6) c)) (\<lambda>(v, c). Inr (set_reg 6 v c))"

partial_function (option) run :: "'w hooks \<Rightarrow> cpu \<Rightarrow> 'w \<Rightarrow> 'w outcome option" where
  "run hooks c w =
     (if reg c 3 = SENT then Some (Returned c w)
      else case hooks (reg c 3) of
        Some h \<Rightarrow> (case h c w of
            Returned c1 w1 \<Rightarrow> (case hook_rtn c1 of
                Inl e \<Rightarrow> Some (Raised e)
              | Inr c2 \<Rightarrow> run hooks c2 w1)
          | Raised e \<Rightarrow> Some (Raised e)
          | Stopped c1 w1 \<Rightarrow> Some (Stopped c1 w1))
      | None \<Rightarrow> (case cpu_step c of
            Inl e \<Rightarrow> Some (Raised e)
          | Inr c1 \<Rightarrow> run hooks c1 w))"

end
