(* ===== verification/Cpu_Isa.thy ===== *)
theory Cpu_Isa
  imports Cpu_1802
begin

text \<open>
  The instruction set the simulator is meant to implement, on machine words: an
  instruction is decoded to a datatype and executed on 16-bit registers, 8-bit memory and
  accumulator and a flag. Calls and returns are single instructions, as SCRT provides them;
  the stack pointer is register 2 and the program counter register 3. The simulator's
  integers refine it: \<open>abs_cpu\<close> reads a simulator state as a machine state.
\<close>

section \<open>The machine\<close>

record machine =
  m_mem :: "16 word \<Rightarrow> 8 word"
  m_reg :: "16 word list"
  m_acc :: "8 word"
  m_df :: bool

datatype branch = Always | IfZero | IfCarry | IfNotZero | IfNotCarry
datatype alu = Load | Disj | Conj | Xor | Add | AddCarry | Sub | SubBorrow
datatype source = Memory | Immediate

datatype instr =
    Ldn nat | Inc nat | Dec nat | Lda nat | Str nat | Glo nat | Ghi nat | Plo nat | Phi nat
  | Short branch | Long branch
  | Irx | Ldxa | Stxd
  | Alu alu source
  | Shr | Shrc | Shl | Shlc
  | Call | Return

definition to_branch :: "nat \<Rightarrow> branch option" where
  "to_branch n = map_of
     [(0, Always), (2, IfZero), (3, IfCarry), (10, IfNotZero), (11, IfNotCarry)] n"

definition decode_single :: "nat \<Rightarrow> instr option" where
  "decode_single op = map_of
     [(0x60, Irx), (0x72, Ldxa), (0x73, Stxd),
      (0x74, Alu AddCarry Memory), (0x7C, Alu AddCarry Immediate),
      (0x77, Alu SubBorrow Memory), (0x7F, Alu SubBorrow Immediate),
      (0x76, Shrc), (0x7E, Shlc), (0xD4, Call), (0xD5, Return),
      (0xF0, Alu Load Memory), (0xF1, Alu Disj Memory), (0xF2, Alu Conj Memory),
      (0xF3, Alu Xor Memory), (0xF4, Alu Add Memory), (0xF7, Alu Sub Memory),
      (0xF8, Alu Load Immediate), (0xF9, Alu Disj Immediate), (0xFA, Alu Conj Immediate),
      (0xFB, Alu Xor Immediate), (0xFC, Alu Add Immediate), (0xFF, Alu Sub Immediate),
      (0xF6, Shr), (0xFE, Shl)] op"

definition decode :: "nat \<Rightarrow> instr option" where
  "decode op =
     (let n = op mod 16 in
      case map_of [(1, Inc n), (2, Dec n), (4, Lda n), (5, Str n),
           (8, Glo n), (9, Ghi n), (10, Plo n), (11, Phi n)] (op div 16) of
        Some x \<Rightarrow> Some x
      | None \<Rightarrow>
          if op div 16 = 0 then (if n = 0 then None else Some (Ldn n))
          else if op div 16 = 3 then map_option Short (to_branch n)
          else if op div 16 = 12 then map_option Long (to_branch n)
          else decode_single op)"

definition taken :: "branch \<Rightarrow> machine \<Rightarrow> bool" where
  "taken b m = (case b of Always \<Rightarrow> True | IfZero \<Rightarrow> m_acc m = 0 | IfCarry \<Rightarrow> m_df m
     | IfNotZero \<Rightarrow> m_acc m \<noteq> 0 | IfNotCarry \<Rightarrow> \<not> m_df m)"

definition m_set :: "nat \<Rightarrow> 16 word \<Rightarrow> machine \<Rightarrow> machine" where
  "m_set n v m = m\<lparr>m_reg := (m_reg m)[n := v]\<rparr>"

definition m_put :: "16 word \<Rightarrow> 8 word \<Rightarrow> machine \<Rightarrow> machine" where
  "m_put a v m = m\<lparr>m_mem := (m_mem m)(a := v)\<rparr>"

definition m_flags :: "8 word \<Rightarrow> bool \<Rightarrow> machine \<Rightarrow> machine" where
  "m_flags v f m = m\<lparr>m_acc := v, m_df := f\<rparr>"

text \<open>The byte a register points to, and the next byte of the program.\<close>

definition m_at :: "machine \<Rightarrow> nat \<Rightarrow> 8 word" where
  "m_at m n = m_mem m (m_reg m ! n)"

definition m_inc :: "nat \<Rightarrow> machine \<Rightarrow> machine" where
  "m_inc n m = m_set n (m_reg m ! n + 1) m"

definition m_dec :: "nat \<Rightarrow> machine \<Rightarrow> machine" where
  "m_dec n m = m_set n (m_reg m ! n - 1) m"

definition m_next :: "machine \<Rightarrow> 8 word \<times> machine" where
  "m_next m = (m_at m 3, m_inc 3 m)"

definition m_next2 :: "machine \<Rightarrow> 16 word \<times> machine" where
  "m_next2 m = (let (hi, m1) = m_next m; (lo, m2) = m_next m1 in (word_cat hi lo, m2))"

definition m_operand :: "source \<Rightarrow> machine \<Rightarrow> 8 word \<times> machine" where
  "m_operand s m = (case s of Memory \<Rightarrow> (m_at m 2, m) | Immediate \<Rightarrow> m_next m)"

text \<open>The adder: the result, and whether there is a carry, or no borrow.\<close>

definition alu_result :: "alu \<Rightarrow> 8 word \<Rightarrow> 8 word \<Rightarrow> bool \<Rightarrow> 8 word \<times> bool" where
  "alu_result a x v f = (case a of
       Load \<Rightarrow> (v, f) | Disj \<Rightarrow> (x OR v, f) | Conj \<Rightarrow> (x AND v, f) | Xor \<Rightarrow> (x XOR v, f)
     | Add \<Rightarrow> (x + v, 256 \<le> unat x + unat v)
     | AddCarry \<Rightarrow> (x + v + of_bool f, 256 \<le> unat x + unat v + of_bool f)
     | Sub \<Rightarrow> (x - v, unat v \<le> unat x)
     | SubBorrow \<Rightarrow> (x - v - of_bool (\<not> f), unat v + of_bool (\<not> f) \<le> unat x))"

definition exec_instr :: "instr \<Rightarrow> machine \<Rightarrow> machine" where
  "exec_instr i m = (case i of
       Ldn n \<Rightarrow> m\<lparr>m_acc := m_at m n\<rparr>
     | Inc n \<Rightarrow> m_inc n m
     | Dec n \<Rightarrow> m_dec n m
     | Lda n \<Rightarrow> m_inc n (m\<lparr>m_acc := m_at m n\<rparr>)
     | Str n \<Rightarrow> m_put (m_reg m ! n) (m_acc m) m
     | Glo n \<Rightarrow> m\<lparr>m_acc := ucast (m_reg m ! n)\<rparr>
     | Ghi n \<Rightarrow> m\<lparr>m_acc := ucast (drop_bit 8 (m_reg m ! n))\<rparr>
     | Plo n \<Rightarrow> m_set n ((m_reg m ! n AND 0xFF00) OR ucast (m_acc m)) m
     | Phi n \<Rightarrow> m_set n ((m_reg m ! n AND 0x00FF) OR push_bit 8 (ucast (m_acc m))) m
     | Short b \<Rightarrow> (let page = m_reg m ! 3 AND 0xFF00; (t, m1) = m_next m in
         if taken b m1 then m_set 3 (page OR ucast t) m1 else m1)
     | Long b \<Rightarrow> (let (a, m1) = m_next2 m in if taken b m1 then m_set 3 a m1 else m1)
     | Irx \<Rightarrow> m_inc 2 m
     | Ldxa \<Rightarrow> m_inc 2 (m\<lparr>m_acc := m_at m 2\<rparr>)
     | Stxd \<Rightarrow> m_dec 2 (m_put (m_reg m ! 2) (m_acc m) m)
     | Alu a s \<Rightarrow> (let (v, m1) = m_operand s m; (x, f) = alu_result a (m_acc m) v (m_df m)
         in m_flags x f m1)
     | Shr \<Rightarrow> m_flags (drop_bit 1 (m_acc m)) (bit (m_acc m) 0) m
     | Shrc \<Rightarrow> m_flags (drop_bit 1 (m_acc m) OR push_bit 7 (of_bool (m_df m))) (bit (m_acc m) 0) m
     | Shl \<Rightarrow> m_flags (push_bit 1 (m_acc m)) (bit (m_acc m) 7) m
     | Shlc \<Rightarrow> m_flags (push_bit 1 (m_acc m) OR of_bool (m_df m)) (bit (m_acc m) 7) m
     | Call \<Rightarrow> (let (a, m1) = m_next2 m;
           m2 = m_dec 2 (m_put (m_reg m1 ! 2) (ucast (m_reg m1 ! 6)) m1);
           m3 = m_dec 2 (m_put (m_reg m2 ! 2) (ucast (drop_bit 8 (m_reg m1 ! 6))) m2)
         in m_set 3 a (m_set 6 (m_reg m3 ! 3) m3))
     | Return \<Rightarrow> (let m1 = m_inc 2 (m_set 3 (m_reg m ! 6) m); m2 = m_inc 2 m1
         in m_set 6 (word_cat (m_at m1 2) (m_at m2 2)) m2))"

definition isa_step :: "machine \<Rightarrow> machine option" where
  "isa_step m =
     (let (op, m1) = m_next m in map_option (\<lambda>i. exec_instr i m1) (decode (unat op)))"

section \<open>The simulator's states as machine states\<close>

definition abs_cpu :: "cpu \<Rightarrow> machine" where
  "abs_cpu c = \<lparr>m_mem = (\<lambda>a. mem c ! unat a), m_reg = map of_int (regs c),
     m_acc = of_int (acc c), m_df = (carry c = 1)\<rparr>"

definition word16 :: "int \<Rightarrow> bool" where
  "word16 v \<longleftrightarrow> 0 \<le> v \<and> v < 0x10000"

definition shape :: "cpu \<Rightarrow> bool" where
  "shape c \<longleftrightarrow> length (mem c) = 65536 \<and> length (regs c) = 16 \<and> xsel c = 2 \<and> psel c = 3"

text \<open>All but the stack pointer is in range.\<close>

definition wf_but_sp :: "cpu \<Rightarrow> bool" where
  "wf_but_sp c \<longleftrightarrow> shape c \<and> (\<forall>n<16. n \<noteq> 2 \<longrightarrow> word16 (reg c n))
     \<and> 0 \<le> acc c \<and> acc c < 256 \<and> (carry c = 0 \<or> carry c = 1)"

definition wf_cpu :: "cpu \<Rightarrow> bool" where
  "wf_cpu c \<longleftrightarrow> wf_but_sp c \<and> word16 (reg c 2)"

named_theorems cpu_abs \<open>the accessors of the simulator on the machine's side\<close>

definition poke :: "int \<Rightarrow> int \<Rightarrow> cpu \<Rightarrow> cpu" where
  "poke a v c = c\<lparr>mem := (mem c)[nat (a AND 0xFFFF) := of_int (v AND 0xFF)]\<rparr>"

lemma int_masks: "(x::int) AND 0xFFFF = take_bit 16 x" "x AND 0xFF = take_bit 8 x" "x AND 1 = take_bit 1 x"
  by (simp_all add: take_bit_eq_mask mask_eq_exp_minus_1)

lemma nat_masked_less: "nat (a AND 0xFFFF) < 65536"
  using take_bit_int_less_exp [of 16 a] by (simp add: int_masks nat_less_iff)

lemma unat_of_int_mask: "unat (of_int a :: 16 word) = nat (a AND 0xFFFF)"
  by (simp add: int_masks unsigned_of_int)

lemma cpu_rd_abs [cpu_abs]: "shape c \<Longrightarrow> cpu_rd c a = Inr (uint (m_mem (abs_cpu c) (of_int a)))"
  using nat_masked_less [of a]
  by (simp add: cpu_rd_def shape_def abs_cpu_def unat_of_int_mask)

lemma cpu_wr_abs [cpu_abs]: "shape c \<Longrightarrow> cpu_wr c a v = Inr (poke a v c)"
  using nat_masked_less [of a]
  by (simp add: cpu_wr_def shape_def poke_def)

lemma shape_simps [cpu_abs]:
  "shape c \<Longrightarrow> shape (poke a v c)" "shape c \<Longrightarrow> shape (set_reg n v c)"
  "shape c \<Longrightarrow> shape (set_acc v c)" "shape c \<Longrightarrow> shape (set_flags v f c)"
  by (simp_all add: shape_def poke_def set_reg_def set_acc_def set_flags_def)

lemma of_int_and_FF: "(of_int (v AND 0xFF) :: 8 word) = of_int v"
  by (rule bit_word_eqI) (simp add: int_masks bit_simps)

lemma unat_eq_nat_mask: "unat (x :: 16 word) = nat (a AND 0xFFFF) \<longleftrightarrow> x = of_int a"
  by (metis unat_of_int_mask unsigned_word_eqI)

lemma abs_simps [cpu_abs]:
  "shape c \<Longrightarrow> abs_cpu (poke a v c) = m_put (of_int a) (of_int v) (abs_cpu c)"
  "abs_cpu (set_reg n v c) = m_set n (of_int v) (abs_cpu c)"
  "abs_cpu (set_acc v c) = (abs_cpu c)\<lparr>m_acc := of_int v\<rparr>"
  "abs_cpu (set_flags v f c) = m_flags (of_int v) (f = 1) (abs_cpu c)"
  "abs_cpu (c\<lparr>steps := s\<rparr>) = abs_cpu c"
  using nat_masked_less [of a]
  by (auto simp: abs_cpu_def poke_def set_reg_def set_acc_def set_flags_def m_put_def m_set_def
      m_flags_def map_update shape_def of_int_and_FF nth_list_update fun_eq_iff unat_of_int_mask
      dest: sym [of "nat (a AND 0xFFFF)"] simp: unat_eq_nat_mask)

lemma abs_reg [cpu_abs]: "shape c \<Longrightarrow> n < 16 \<Longrightarrow> m_reg (abs_cpu c) ! n = of_int (reg c n)"
  by (simp add: abs_cpu_def reg_def shape_def)

lemma reg_simps [cpu_abs]:
  "shape c \<Longrightarrow> n < 16 \<Longrightarrow> reg (set_reg k v c) n = (if n = k then v else reg c n)"
  "reg (poke a v c) n = reg c n" "reg (set_acc v c) n = reg c n" "reg (set_flags v f c) n = reg c n"
  by (auto simp: reg_def set_reg_def poke_def set_acc_def set_flags_def shape_def nth_list_update)

lemma fetch_abs [cpu_abs]:
  assumes "shape c" and "word16 (reg c 3)"
  shows "fetch c = Inr (uint (m_mem (abs_cpu c) (of_int (reg c 3))),
           set_reg 3 ((reg c 3 + 1) AND 0xFFFF) c)"
proof -
  have "nat (reg c 3 AND 0xFFFF) = nat (reg c 3)"
    using assms(2) by (simp add: int_masks take_bit_int_eq_self word16_def)
  then show ?thesis
    using assms by (simp add: fetch_def shape_def py_index_def abs_cpu_def unat_of_int_mask word16_def)
qed

section \<open>The arithmetic of the instructions\<close>

text \<open>The masked integers of the simulator are the words' own operations.\<close>

named_theorems cpu_words \<open>the simulator's masked integers as words\<close>

lemma of_int_and_FFFF [cpu_words]: "(of_int (v AND 0xFFFF) :: 16 word) = of_int v"
  by (rule bit_word_eqI) (simp add: int_masks bit_simps)

declare of_int_and_FF [cpu_words]

lemma high_byte [cpu_words]:
  "(of_int (drop_bit 8 v) :: 8 word) = ucast (drop_bit 8 (of_int v :: 16 word))"
  by (rule bit_word_eqI) (auto simp: bit_simps)

lemma low_byte_word: "(of_int v :: 8 word) = ucast (of_int v :: 16 word)"
  by (rule bit_word_eqI) (auto simp: bit_simps)

lemma pair_sum: "push_bit 8 (uint h) OR uint (l :: 8 word) = 256 * uint (h :: 8 word) + uint l"
proof -
  have "push_bit 8 (uint h) + uint l = push_bit 8 (uint h) OR uint l"
    by (rule disjunctive_add_eq_or, rule bit_eqI) (auto simp: bit_simps)
  then show ?thesis by (simp add: push_bit_eq_mult mult.commute)
qed

lemma pair_word [cpu_words]:
  "(of_int (push_bit 8 (uint h) OR uint l) :: 16 word) = word_cat (h :: 8 word) (l :: 8 word)"
  by (rule bit_word_eqI) (auto simp: bit_simps bit_word_cat_iff of_int_or_eq push_bit_of_int [symmetric])

lemma bit_FF00: "bit (0xFF00 :: int) n \<longleftrightarrow> 8 \<le> n \<and> n < 16"
proof -
  have "(0xFF00 :: int) = push_bit 8 (mask 8)"
    by (simp add: mask_eq_exp_minus_1 push_bit_eq_mult)
  then show ?thesis by (simp only: bit_push_bit_iff bit_mask_iff) auto
qed

lemma FF00_word: "(0xFF00 :: 16 word) = of_int 0xFF00" by simp

lemma page_word [cpu_words]:
  "(of_int ((v AND 0xFF00) OR uint t) :: 16 word) = (of_int v AND 0xFF00) OR ucast (t :: 8 word)"
  by (simp add: of_int_or_eq of_int_and_eq)

lemma plo_word [cpu_words]:
  assumes "0 \<le> d" and "d < 256"
  shows "(of_int ((v AND 0xFF00) OR d) :: 16 word) = (of_int v AND 0xFF00) OR ucast (of_int d :: 8 word)"
proof -
  have "uint (of_int d :: 8 word) = d" using assms by (simp add: uint_word_of_int_eq take_bit_int_eq_self)
  with page_word [of v "of_int d"] show ?thesis by simp
qed

lemma phi_word [cpu_words]:
  assumes "0 \<le> d" and "d < 256"
  shows "(of_int ((v AND 0xFF) OR push_bit 8 d) :: 16 word)
    = (of_int v AND 0x00FF) OR push_bit 8 (ucast (of_int d :: 8 word))"
proof -
  have "uint (of_int d :: 8 word) = d" using assms by (simp add: uint_word_of_int_eq take_bit_int_eq_self)
  then have "(of_int d :: 16 word) = ucast (of_int d :: 8 word)" by (metis of_int_uint)
  then show ?thesis by (simp add: of_int_or_eq of_int_and_eq flip: push_bit_of_int)
qed

section \<open>The simulator refines the instruction set\<close>

text \<open>The two sides of a step: both fail, or both arrive at the same machine state.\<close>

definition agrees :: "machine option \<Rightarrow> cpu res \<Rightarrow> bool" where
  "agrees m r = (case r of
       Inl e \<Rightarrow> m = None \<and> (\<exists>s. e = RuntimeError s)
     | Inr c \<Rightarrow> m = Some (abs_cpu c) \<and> wf_but_sp c)"

lemma agrees_Inr: "agrees (Some m) (Inr c) \<longleftrightarrow> abs_cpu c = m \<and> wf_but_sp c"
  by (auto simp: agrees_def)

lemma agrees_Inl: "agrees None (Inl (RuntimeError s))"
  by (simp add: agrees_def)

lemma wf_shape [cpu_abs]: "wf_but_sp c \<Longrightarrow> shape c" "wf_cpu c \<Longrightarrow> shape c"
  by (auto simp: wf_but_sp_def wf_cpu_def)

lemma word16_masked: "word16 (a AND 0xFFFF)"
  using take_bit_int_less_exp [of 16 a] by (simp add: word16_def int_masks)

lemma sel_simps [cpu_abs]:
  "acc (set_reg n v c) = acc c" "carry (set_reg n v c) = carry c"
  "acc (poke a v c) = acc c" "carry (poke a v c) = carry c"
  "acc (set_acc v c) = v" "carry (set_acc v c) = carry c"
  "acc (set_flags v f c) = v" "carry (set_flags v f c) = f"
  by (simp_all add: set_reg_def poke_def set_acc_def set_flags_def)

lemma wf_reg: "wf_cpu c \<Longrightarrow> n < 16 \<Longrightarrow> word16 (reg c n)"
  by (auto simp: wf_cpu_def wf_but_sp_def)

lemma wf_pc: "wf_but_sp c \<Longrightarrow> word16 (reg c 3)"
  by (auto simp: wf_but_sp_def)

lemma wf_set_reg:
  "wf_but_sp c \<Longrightarrow> n = 2 \<or> word16 v \<Longrightarrow> wf_but_sp (set_reg n v c)"
  by (auto simp: wf_but_sp_def cpu_abs)

lemma wf_set_acc: "wf_but_sp c \<Longrightarrow> 0 \<le> v \<Longrightarrow> v < 256 \<Longrightarrow> wf_but_sp (set_acc v c)"
  by (auto simp: wf_but_sp_def cpu_abs)

lemma wf_set_flags:
  "wf_but_sp c \<Longrightarrow> 0 \<le> v \<Longrightarrow> v < 256 \<Longrightarrow> f = 0 \<or> f = 1 \<Longrightarrow> wf_but_sp (set_flags v f c)"
  by (auto simp: wf_but_sp_def cpu_abs)

lemma wf_poke: "wf_but_sp c \<Longrightarrow> wf_but_sp (poke a v c)"
  by (auto simp: wf_but_sp_def cpu_abs)

text \<open>What the state knows of its program counter while an instruction executes.\<close>

definition fetched :: "int \<Rightarrow> cpu \<Rightarrow> bool" where
  "fetched pc c \<longleftrightarrow> wf_cpu c \<and> reg c 3 = (pc + 1) AND 0xFFFF"

lemma byte_range: "0 \<le> uint (b :: 8 word)" "uint (b :: 8 word) < 256"
  using unsigned_less [of b, where ?'a = int] by simp_all

lemma wf_but: "wf_cpu c \<Longrightarrow> wf_but_sp c"
  by (simp add: wf_cpu_def)

lemma flag_shift:
  assumes "0 \<le> s" and "s < 512"
  shows "drop_bit 8 s = 0 \<or> drop_bit 8 s = (1::int)" "drop_bit 8 s = 1 \<longleftrightarrow> 256 \<le> s"
  using assms by (auto simp: drop_bit_eq_div)

lemma masked_byte: "0 \<le> (s::int) AND 0xFF" "(s::int) AND 0xFF < 256"
  using take_bit_int_less_exp [of 8 s] by (simp_all add: int_masks)

lemmas keeps_wf = wf_set_reg wf_set_acc wf_set_flags wf_poke byte_range masked_byte word16_masked

lemma abs_flags [cpu_abs]: "m_acc (abs_cpu c) = of_int (acc c)" "m_df (abs_cpu c) \<longleftrightarrow> carry c = 1"
  by (simp_all add: abs_cpu_def)

lemma high_range: "word16 v \<Longrightarrow> 0 \<le> v" "word16 v \<Longrightarrow> drop_bit 8 v < 256"
  by (auto simp: word16_def drop_bit_eq_div)

lemma word16_bits: "word16 v \<longleftrightarrow> take_bit 16 v = v"
  by (simp add: word16_def take_bit_int_eq_self_iff)

lemma register_halves:
  assumes "0 \<le> d" and "d < 256"
  shows "word16 ((v AND 0xFF00) OR d)" "word16 ((v AND 0xFF) OR push_bit 8 d)"
proof -
  have "take_bit 16 d = d" "take_bit 8 d = d"
    using assms by (simp_all add: take_bit_int_eq_self)
  moreover have "take_bit 16 (v AND 0xFF00) = v AND 0xFF00" "take_bit 16 (v AND 0xFF) = v AND 0xFF"
    by (simp_all add: and.assoc flip: int_masks(1))
  ultimately show "word16 ((v AND 0xFF00) OR d)" "word16 ((v AND 0xFF) OR push_bit 8 d)"
    by (simp_all add: word16_bits take_bit_push_bit)
qed

lemma wf_flags: "wf_cpu c \<Longrightarrow> 0 \<le> acc c" "wf_cpu c \<Longrightarrow> acc c < 256" "wf_cpu c \<Longrightarrow> carry c = 0 \<or> carry c = 1"
  by (auto simp: wf_cpu_def wf_but_sp_def)

lemma opcode_digits: "n < 16 \<Longrightarrow> (16 * i + n) div 16 = i" "n < 16 \<Longrightarrow> (16 * i + n) mod 16 = (n::nat)"
  by simp_all

lemmas exec_defs = exec_instr_def m_at_def m_inc_def m_dec_def

definition same_step :: "nat \<Rightarrow> int \<Rightarrow> cpu \<Rightarrow> bool" where
  "same_step op pc c \<longleftrightarrow>
     agrees (map_option (\<lambda>i. exec_instr i (abs_cpu c)) (decode op)) (execute op pc c)"

lemmas wf_ranges = keeps_wf high_range register_halves

lemma same_register_step:
  assumes wf: "wf_cpu c" and n: "n < 16"
  shows "same_step (16 * 0 + n) pc c" "same_step (16 * 1 + n) pc c" "same_step (16 * 2 + n) pc c"
    "same_step (16 * 4 + n) pc c" "same_step (16 * 5 + n) pc c" "same_step (16 * 8 + n) pc c"
    "same_step (16 * 9 + n) pc c" "same_step (16 * 10 + n) pc c" "same_step (16 * 11 + n) pc c"
  using wf n wf_but [OF wf] wf_flags [OF wf] wf_reg [OF wf n]
  unfolding same_step_def execute_def decode_def opcode_digits [OF n] Let_def
  by (simp_all add: agrees_Inr agrees_Inl exec_defs cpu_abs cpu_words wf_ranges
      low_byte_word [of "reg c n AND 0xFF"] low_byte_word [of "reg c n"])

lemma branch_cond_abs:
  assumes "wf_but_sp c"
  shows "branch_cond n c = map_option (\<lambda>b. taken b (abs_cpu c)) (to_branch n)"
proof -
  have "(of_int (acc c) :: 8 word) = 0 \<longleftrightarrow> acc c = 0"
    using assms by (auto simp: wf_but_sp_def word_of_int_eq_0_iff zdvd_not_zless intro: ccontr)
  moreover have "carry c = 0 \<longleftrightarrow> carry c \<noteq> 1"
    using assms by (auto simp: wf_but_sp_def)
  ultimately show ?thesis
    by (simp add: branch_cond_def to_branch_def taken_def cpu_abs)
qed

lemma same_short_branch:
  assumes f: "fetched pc c" and n: "n < 16"
  shows "same_step (16 * 3 + n) pc c"
proof -
  have wf: "wf_cpu c" and pc: "reg c 3 = (pc + 1) AND 0xFFFF"
    using f by (simp_all add: fetched_def)
  let ?t = "m_mem (abs_cpu c) (of_int (reg c 3))"
  let ?c = "set_reg 3 ((reg c 3 + 1) AND 0xFFFF) c"
  have c: "wf_but_sp ?c" by (intro wf_set_reg wf_but wf) (simp add: word16_masked)
  have page: "of_int (pc + 1) = (of_int (reg c 3) :: 16 word)"
    unfolding pc of_int_and_FFFF ..
  have "word16 ((pc + 1 AND 0xFF00) OR uint ?t)"
    by (intro register_halves byte_range)
  moreover have "of_int ((pc + 1 AND 0xFF00) OR uint ?t) = ((of_int (reg c 3) :: 16 word) AND 0xFF00) OR ucast ?t"
    by (simp only: page_word page)
  ultimately show ?thesis
    using wf n c wf_reg [OF wf, of 3]
    unfolding same_step_def execute_def decode_def opcode_digits [OF n] Let_def
    by (cases "to_branch n")
      (auto simp: agrees_Inr agrees_Inl exec_defs m_next_def Let_def branch_cond_abs cpu_abs cpu_words wf_ranges)
qed

lemma m_sel [cpu_abs]:
  "m_mem (m_set n v m) = m_mem m" "m_acc (m_set n v m) = m_acc m" "m_df (m_set n v m) = m_df m"
  "m_reg (m_set n v m) = (m_reg m)[n := v]"
  "m_mem (m_put a b m) = (m_mem m)(a := b)" "m_acc (m_put a b m) = m_acc m"
  "m_df (m_put a b m) = m_df m" "m_reg (m_put a b m) = m_reg m"
  by (simp_all add: m_set_def m_put_def)

lemma set_again [cpu_abs]:
  "set_reg n v (set_reg n u c) = set_reg n v c" "m_set n x (m_set n y m) = m_set n x m"
  by (simp_all add: set_reg_def m_set_def)

lemma length_m_reg [cpu_abs]: "shape c \<Longrightarrow> length (m_reg (abs_cpu c)) = 16"
  by (simp add: abs_cpu_def shape_def)

lemma fetch2_abs:
  assumes "wf_but_sp c"
  defines "a \<equiv> of_int (reg c 3)" and "b \<equiv> of_int (reg c 3) + 1"
  shows "fetch c = Inr (uint (m_mem (abs_cpu c) a), set_reg 3 ((reg c 3 + 1) AND 0xFFFF) c)"
    and "fetch (set_reg 3 ((reg c 3 + 1) AND 0xFFFF) c) = Inr (uint (m_mem (abs_cpu c) b),
           set_reg 3 ((((reg c 3 + 1) AND 0xFFFF) + 1) AND 0xFFFF) c)"
proof -
  note s = wf_shape(1) [OF assms(1)]
  show "fetch c = Inr (uint (m_mem (abs_cpu c) a), set_reg 3 ((reg c 3 + 1) AND 0xFFFF) c)"
    unfolding a_def by (rule fetch_abs [OF s wf_pc [OF assms(1)]])
  have "word16 (reg (set_reg 3 ((reg c 3 + 1) AND 0xFFFF) c) 3)"
    using s by (simp add: cpu_abs word16_masked)
  from fetch_abs [OF shape_simps(2) [OF s] this]
  show "fetch (set_reg 3 ((reg c 3 + 1) AND 0xFFFF) c) = Inr (uint (m_mem (abs_cpu c) b),
           set_reg 3 ((((reg c 3 + 1) AND 0xFFFF) + 1) AND 0xFFFF) c)"
    using s by (simp add: b_def cpu_abs cpu_words)
qed

lemma next2_abs:
  assumes "wf_but_sp c"
  shows "m_next2 (abs_cpu c) =
    (word_cat (m_mem (abs_cpu c) (of_int (reg c 3))) (m_mem (abs_cpu c) (of_int (reg c 3) + 1)),
     abs_cpu (set_reg 3 ((((reg c 3 + 1) AND 0xFFFF) + 1) AND 0xFFFF) c))"
  using wf_shape(1) [OF assms]
  by (simp add: m_next2_def m_next_def m_at_def m_inc_def cpu_abs cpu_words)

lemma same_long_branch:
  assumes wf: "wf_cpu c" and n: "n < 16"
  shows "same_step (16 * 12 + n) pc c"
proof -
  let ?c = "set_reg 3 ((((reg c 3 + 1) AND 0xFFFF) + 1) AND 0xFFFF) c"
  have c: "wf_but_sp ?c" by (intro wf_set_reg wf_but wf) (simp add: word16_masked)
  have "word16 (push_bit 8 (uint h) OR uint l)" for h l :: byte
    using register_halves(2) [OF byte_range [of h], of "uint l"]
    by (simp add: int_masks take_bit_int_eq_self byte_range or.commute)
  then show ?thesis
    using n c fetch2_abs [OF wf_but [OF wf]] next2_abs [OF wf_but [OF wf]]
    unfolding same_step_def execute_def decode_def opcode_digits [OF n] Let_def
    by (cases "to_branch n")
      (auto simp: agrees_Inr agrees_Inl exec_instr_def branch_cond_abs abs_simps pair_word wf_set_reg)
qed

section \<open>Arithmetic instructions\<close>

lemma unat_acc: "0 \<le> a \<Longrightarrow> a < 256 \<Longrightarrow> unat (of_int a :: 8 word) = nat a"
  by (simp add: unsigned_of_int take_bit_int_eq_self)

lemma adder:
  fixes v :: "8 word"
  assumes "0 \<le> a" and "a < 256" and "k = 0 \<or> k = 1"
  defines "s \<equiv> a + uint v + k"
  shows "(of_int (s AND 0xFF) :: 8 word) = of_int a + v + of_bool (k = 1)"
    and "drop_bit 8 s = 0 \<or> drop_bit 8 s = 1"
    and "drop_bit 8 s = 1 \<longleftrightarrow> 256 \<le> unat (of_int a :: 8 word) + unat v + of_bool (k = 1)"
proof -
  have s: "0 \<le> s" "s < 512" using assms byte_range [of v] by auto
  show "(of_int (s AND 0xFF) :: 8 word) = of_int a + v + of_bool (k = 1)"
    using assms(3) by (auto simp: of_int_and_FF s_def)
  show "drop_bit 8 s = 0 \<or> drop_bit 8 s = 1" by (rule flag_shift [OF s])
  obtain m where m: "a = int m" using assms(1) by (rule nonneg_int_cases)
  have "s = int (m + unat v + of_bool (k = 1))"
    using assms(3) by (auto simp: s_def m)
  then show "drop_bit 8 s = 1 \<longleftrightarrow> 256 \<le> unat (of_int a :: 8 word) + unat v + of_bool (k = 1)"
    using flag_shift(2) [OF s] assms(1,2) by (simp only: unat_acc m nat_int) linarith
qed

lemma subtractor:
  fixes v :: "8 word"
  assumes "0 \<le> a" and "a < 256" and "k = 0 \<or> k = 1"
  defines "s \<equiv> a - uint v - (1 - k)"
  shows "(of_int (s AND 0xFF) :: 8 word) = of_int a - v - of_bool (k \<noteq> 1)"
    and "0 \<le> s \<longleftrightarrow> unat v + of_bool (k \<noteq> 1) \<le> unat (of_int a :: 8 word)"
proof -
  show "(of_int (s AND 0xFF) :: 8 word) = of_int a - v - of_bool (k \<noteq> 1)"
    using assms(3) by (auto simp: of_int_and_FF s_def)
  obtain m where m: "a = int m" using assms(1) by (rule nonneg_int_cases)
  have "s = int m - int (unat v + of_bool (k \<noteq> 1))"
    using assms(3) by (auto simp: s_def m)
  then show "0 \<le> s \<longleftrightarrow> unat v + of_bool (k \<noteq> 1) \<le> unat (of_int a :: 8 word)"
    using assms(1,2) by (simp only: unat_acc m nat_int) linarith
qed

lemma bitwise_byte:
  fixes v :: "8 word"
  assumes "0 \<le> a" and "a < 256"
  shows "0 \<le> a OR uint v" "a OR uint v < 256" "0 \<le> a AND uint v" "a AND uint v < 256"
    "0 \<le> a XOR uint v" "a XOR uint v < 256"
proof -
  have r: "0 \<le> take_bit 8 x \<and> take_bit 8 x < (256::int)" for x :: int
    using take_bit_int_less_exp [of 8 x] by simp
  have "a = take_bit 8 a" using assms by (simp add: take_bit_int_eq_self)
  moreover have "uint v = take_bit 8 (uint v)"
    using byte_range [of v] by (simp add: take_bit_int_eq_self)
  ultimately have "a OR uint v = take_bit 8 (a OR uint v)" "a AND uint v = take_bit 8 (a AND uint v)"
    "a XOR uint v = take_bit 8 (a XOR uint v)"
    by (metis take_bit_or, metis take_bit_and, metis take_bit_xor)
  then show "0 \<le> a OR uint v" "a OR uint v < 256" "0 \<le> a AND uint v" "a AND uint v < 256"
    "0 \<le> a XOR uint v" "a XOR uint v < 256"
    using r by metis+
qed

lemma operand_abs:
  assumes "wf_cpu c"
  obtains v c1 where "operand imm c = Inr (uint (v :: 8 word), c1)"
    and "m_operand (if imm then Immediate else Memory) (abs_cpu c) = (v, abs_cpu c1)"
    and "wf_but_sp c1" and "acc c1 = acc c" and "carry c1 = carry c"
proof (cases imm)
  case True
  have wf: "wf_but_sp c" using assms by (rule wf_but)
  let ?c = "set_reg 3 ((reg c 3 + 1) AND 0xFFFF) c"
  have "wf_but_sp ?c" by (intro wf_set_reg wf) (simp add: word16_masked)
  moreover have "operand imm c = Inr (uint (m_mem (abs_cpu c) (of_int (reg c 3))), ?c)"
    using True fetch_abs [OF wf_shape(1) [OF wf] wf_pc [OF wf]] by (simp add: operand_def)
  moreover have "m_operand (if imm then Immediate else Memory) (abs_cpu c)
      = (m_mem (abs_cpu c) (of_int (reg c 3)), abs_cpu ?c)"
    using True wf_shape(1) [OF wf]
    by (simp add: m_operand_def m_next_def m_at_def m_inc_def cpu_abs cpu_words)
  ultimately show ?thesis using that by (simp add: cpu_abs)
next
  case False
  have s: "shape c" using assms by (rule wf_shape)
  then have "xsel c = 2" by (simp add: shape_def)
  then show ?thesis
    using False that [of "m_mem (abs_cpu c) (of_int (reg c 2))" c] s wf_but [OF assms]
    by (simp add: operand_def at_x_def m_operand_def m_at_def cpu_abs)
qed

lemma at_x_operand:
  assumes "\<And>v. f v c = g v"
  shows "bind_res (operand False c) (\<lambda>(v, c). f v c) = bind_res (at_x c) g"
  using assms by (cases "at_x c") (simp_all add: operand_def)

lemma fetch_operand: "operand True c = fetch c"
  by (simp add: operand_def)

text \<open>The accumulator and the flag each arithmetic instruction of the simulator computes.\<close>

definition alu_int :: "alu \<Rightarrow> int \<Rightarrow> int \<Rightarrow> int \<Rightarrow> int \<times> int" where
  "alu_int a x v k = (case a of
       Load \<Rightarrow> (v, k) | Disj \<Rightarrow> (x OR v, k) | Conj \<Rightarrow> (x AND v, k) | Xor \<Rightarrow> (x XOR v, k)
     | Add \<Rightarrow> ((x + v) AND 0xFF, drop_bit 8 (x + v))
     | AddCarry \<Rightarrow> ((x + v + k) AND 0xFF, drop_bit 8 (x + v + k))
     | Sub \<Rightarrow> ((x - v) AND 0xFF, if x - v \<ge> 0 then 1 else 0)
     | SubBorrow \<Rightarrow> ((x - v - (1 - k)) AND 0xFF, if x - v - (1 - k) \<ge> 0 then 1 else 0))"

lemma alu_int_result:
  assumes "0 \<le> x" and "x < 256" and "k = 0 \<or> k = 1"
  shows "case alu_int a x (uint v) k of (y, f) \<Rightarrow>
    alu_result a (of_int x) v (k = 1) = (of_int y, f = 1) \<and> 0 \<le> y \<and> y < 256 \<and> (f = 0 \<or> f = 1)"
proof (cases a)
  case Add
  then show ?thesis
    using adder [OF assms(1,2), of 0 v] by (simp add: alu_int_def alu_result_def masked_byte)
next
  case Sub
  then show ?thesis
    using subtractor [OF assms(1,2), of 1 v] by (simp add: alu_int_def alu_result_def masked_byte)
next
  case AddCarry
  then show ?thesis
    using adder [OF assms, of v] by (simp add: alu_int_def alu_result_def masked_byte)
next
  case SubBorrow
  then show ?thesis
    using subtractor [OF assms, of v] by (simp add: alu_int_def alu_result_def masked_byte)
qed (use assms bitwise_byte [OF assms(1,2), of v] byte_range [of v] in
      \<open>simp_all add: alu_int_def alu_result_def of_int_or_eq of_int_and_eq of_int_xor_eq\<close>)

lemma exec_alu:
  assumes "wf_cpu c"
  shows "agrees (Some (exec_instr (Alu a s) (abs_cpu c)))
    (bind_res (operand (s = Immediate) c) (\<lambda>(v, c).
       case alu_int a (acc c) v (carry c) of (x, f) \<Rightarrow> Inr (set_flags x f c)))"
proof -
  obtain v c1 where o: "operand (s = Immediate) c = Inr (uint (v :: 8 word), c1)"
    "m_operand (if s = Immediate then Immediate else Memory) (abs_cpu c) = (v, abs_cpu c1)"
    and c1: "wf_but_sp c1" "acc c1 = acc c" "carry c1 = carry c"
    using assms by (rule operand_abs)
  have "(if s = Immediate then Immediate else Memory) = s" by (cases s) simp_all
  then show ?thesis
    using o c1 alu_int_result [OF wf_flags [OF assms], of a v]
    by (auto simp: exec_instr_def agrees_Inr cpu_abs split: prod.splits intro!: wf_set_flags)
qed

lemma set_acc_flags: "set_acc v c = set_flags v (carry c) c"
  by (simp add: set_acc_def set_flags_def)

lemma same_alu_step:
  assumes wf: "wf_cpu c"
    and d: "decode op = Some (Alu a s)"
    and e: "execute op pc c = bind_res (operand (s = Immediate) c) (\<lambda>(v, c1).
       case alu_int a (acc c1) v (carry c1) of (x, f) \<Rightarrow> Inr (set_flags x f c1))"
  shows "same_step op pc c"
proof -
  obtain v c1 where "operand (s = Immediate) c = Inr (uint (v :: 8 word), c1)"
    "acc c1 = acc c" "carry c1 = carry c"
    using wf by (rule operand_abs)
  then show ?thesis
    using exec_alu [OF wf, of a s] unfolding same_step_def d e by simp
qed

lemma execute_alu:
  assumes "decode_single op = Some (Alu a s)"
  shows "decode op = Some (Alu a s)"
    and "execute op pc c = bind_res (operand (s = Immediate) c) (\<lambda>(v, c1).
       case alu_int a (acc c1) v (carry c1) of (x, f) \<Rightarrow> Inr (set_flags x f c1))"
proof -
  note op = map_of_SomeD [OF assms [unfolded decode_single_def], simplified]
  then show "decode op = Some (Alu a s)"
    using assms by (elim disjE conjE) (simp_all add: decode_def)
  have "operand False c = bind_res (at_x c) (\<lambda>v. Inr (v, c))" "operand True c = fetch c"
    by (simp_all add: operand_def)
  with op show "execute op pc c = bind_res (operand (s = Immediate) c) (\<lambda>(v, c1).
       case alu_int a (acc c1) v (carry c1) of (x, f) \<Rightarrow> Inr (set_flags x f c1))"
    by (cases "at_x c"; elim disjE conjE)
      (simp_all add: execute_def alu_int_def Let_def set_acc_flags)
qed

lemma same_alu: "wf_cpu c \<Longrightarrow> decode_single op = Some (Alu a s) \<Longrightarrow> same_step op pc c"
  by (rule same_alu_step) (simp_all add: execute_alu)

section \<open>The other instructions\<close>

lemma acc_word:
  assumes "0 \<le> a" and "a < 256"
  obtains w :: "8 word" where "a = uint w"
  using assms by (intro that [of "of_int a"]) (simp add: uint_word_of_int_eq take_bit_int_eq_self)

lemma shifted_right:
  fixes w :: "8 word"
  shows "(of_int (drop_bit 1 (uint w)) :: 8 word) = drop_bit 1 w"
    and "uint w AND 1 = 0 \<or> uint w AND 1 = 1" and "uint w AND 1 = 1 \<longleftrightarrow> bit w 0"
    and "(of_int (drop_bit 1 (uint w) OR push_bit 7 k) :: 8 word) = drop_bit 1 w OR push_bit 7 (of_int k)"
    and "0 \<le> drop_bit 1 (uint w)" "drop_bit 1 (uint w) < 128"
proof -
  show "(of_int (drop_bit 1 (uint w)) :: 8 word) = drop_bit 1 w"
    by (rule bit_word_eqI) (auto simp: bit_simps)
  then show "(of_int (drop_bit 1 (uint w) OR push_bit 7 k) :: 8 word) = drop_bit 1 w OR push_bit 7 (of_int k)"
    by (simp add: of_int_or_eq push_bit_of_int)
  have odd: "bit w 0 \<longleftrightarrow> odd (uint w)"
    by (metis bit_0 bit_uint_iff len_gt_0)
  show "uint w AND 1 = 0 \<or> uint w AND 1 = 1" "uint w AND 1 = 1 \<longleftrightarrow> bit w 0"
    using odd by (auto simp: and_one_eq odd_iff_mod_2_eq_one)
  show "0 \<le> drop_bit 1 (uint w)" "drop_bit 1 (uint w) < 128"
    using byte_range [of w] by (simp_all add: drop_bit_eq_div)
qed

lemma shifted_left:
  fixes w :: "8 word"
  shows "(of_int (push_bit 1 (uint w) AND 0xFF) :: 8 word) = push_bit 1 w"
    and "(of_int ((push_bit 1 (uint w) OR k) AND 0xFF) :: 8 word) = push_bit 1 w OR of_int k"
    and "drop_bit 7 (uint w) = 0 \<or> drop_bit 7 (uint w) = 1" and "drop_bit 7 (uint w) = 1 \<longleftrightarrow> bit w 7"
proof -
  show "(of_int (push_bit 1 (uint w) AND 0xFF) :: 8 word) = push_bit 1 w"
    and "(of_int ((push_bit 1 (uint w) OR k) AND 0xFF) :: 8 word) = push_bit 1 w OR of_int k"
    by (simp_all add: of_int_and_FF of_int_or_eq flip: push_bit_of_int)
  have "drop_bit 7 (uint w) = uint w div 128" by (simp add: drop_bit_eq_div)
  moreover have "0 \<le> uint w div 128" "uint w div 128 < 2" using byte_range(2) [of w]
    by (simp_all add: pos_imp_zdiv_nonneg_iff)
  ultimately show "drop_bit 7 (uint w) = 0 \<or> drop_bit 7 (uint w) = 1" by linarith
  moreover have "bit w 7 \<longleftrightarrow> bit (uint w) 7" by (simp add: bit_uint_iff)
  then have "bit w 7 \<longleftrightarrow> odd (drop_bit 7 (uint w))" by (simp only: bit_iff_odd_drop_bit)
  ultimately show "drop_bit 7 (uint w) = 1 \<longleftrightarrow> bit w 7" by auto
qed

lemma ored_high: "0 \<le> x \<Longrightarrow> x < 128 \<Longrightarrow> k = 0 \<or> k = (1::int) \<Longrightarrow> x OR push_bit 7 k \<in> {0..<256}"
  by (auto simp: push_bit_eq_mult OR_upper [of x 8 128, simplified])

lemma same_shift:
  assumes wf: "wf_cpu c" and op: "op \<in> {0x76, 0x7E, 0xF6, 0xFE}"
  shows "same_step op pc c"
proof -
  obtain w :: "8 word" where w: "acc c = uint w"
    using wf_flags(1,2) [OF wf] by (rule acc_word)
  have k: "carry c = 0 \<or> carry c = 1" by (rule wf_flags [OF wf])
  then have ob: "of_bool (carry c = 1) = (of_int (carry c) :: 8 word)" by auto
  have r: "0 \<le> drop_bit 1 (uint w) OR push_bit 7 (carry c)" "drop_bit 1 (uint w) OR push_bit 7 (carry c) < 256"
    using ored_high [OF shifted_right(5,6) k, of w] by auto
  have lt: "drop_bit 1 (uint w) < 256" using shifted_right(6) [of w] by simp
  note wfs = wf_set_flags [OF wf_but [OF wf] r shifted_right(2)]
    wf_set_flags [OF wf_but [OF wf] shifted_right(5) lt shifted_right(2)]
    wf_set_flags [OF wf_but [OF wf] masked_byte shifted_left(3)]
  show ?thesis
    using op unfolding same_step_def
    by (elim insertE)
      (simp_all add: execute_def decode_def decode_single_def exec_instr_def agrees_Inr w ob cpu_abs
        shifted_right [simplified] shifted_left [simplified] wfs [simplified])
qed

lemma step_x_abs: "shape c \<Longrightarrow> step_x k c = set_reg 2 ((reg c 2 + k) AND 0xFFFF) c"
  by (simp add: step_x_def shape_def)

lemma at_x_abs: "shape c \<Longrightarrow> at_x c = Inr (uint (m_mem (abs_cpu c) (of_int (reg c 2))))"
  by (simp add: at_x_def shape_def cpu_abs)

lemma same_indexed:
  assumes wf: "wf_cpu c" and op: "op \<in> {0x60, 0x72, 0x73}"
  shows "same_step op pc c"
  using op wf_but [OF wf] wf_shape(2) [OF wf]
  unfolding same_step_def
  by (elim insertE)
    (simp_all add: execute_def decode_def decode_single_def exec_instr_def agrees_Inr step_x_abs at_x_abs
      m_at_def m_inc_def m_dec_def cpu_abs cpu_words keeps_wf shape_def [of c])
lemma pair_range: "word16 (push_bit 8 (uint h) OR uint (l :: 8 word))" for h :: "8 word"
  using register_halves(2) [OF byte_range [of h], of "uint l"]
  by (simp add: int_masks take_bit_int_eq_self byte_range or.commute)

lemma low_half: "(of_int (v AND 0xFF) :: 8 word) = ucast (of_int v :: 16 word)"
  unfolding of_int_and_FF by (rule low_byte_word)

lemma same_call:
  assumes wf: "wf_cpu c"
  shows "same_step 0xD4 pc c"
proof -
  let ?c = "set_reg 3 ((((reg c 3 + 1) AND 0xFFFF) + 1) AND 0xFFFF) c"
  have c: "wf_but_sp ?c" by (intro wf_set_reg wf_but wf) (simp add: word16_masked)
  note s = wf_shape(2) [OF wf]
  have r: "word16 (reg ?c 3)" "word16 (reg c 6)" "word16 (push_bit 8 (uint h) OR uint l)" for h l :: byte
    using s wf_reg [OF wf, of 6] by (simp_all add: cpu_abs word16_masked pair_range)
  show ?thesis
    using c s r fetch2_abs [OF wf_but [OF wf]] next2_abs [OF wf_but [OF wf]]
    unfolding same_step_def
    by (simp add: execute_def decode_def decode_single_def Let_def exec_instr_def agrees_Inr push16_def
        m_dec_def low_half high_byte pair_word cpu_abs wf_set_reg wf_poke)
qed

lemma same_return:
  assumes wf: "wf_cpu c"
  shows "same_step 0xD5 pc c"
  using wf_but [OF wf] wf_shape(2) [OF wf] wf_reg [OF wf, of 6]
  unfolding same_step_def
  by (simp add: execute_def decode_def decode_single_def Let_def exec_instr_def agrees_Inr pop16_def
      m_inc_def m_at_def pair_word pair_range cpu_abs wf_set_reg add.assoc)

lemma same_undefined:
  assumes "op div 16 \<in> {6, 7, 13, 14, 15}" and "decode_single op = None"
  shows "same_step op pc c"
proof -
  have "op \<notin> {0x60, 0x72, 0x73, 0x74, 0x7C, 0x77, 0x7F, 0x76, 0x7E, 0xD4, 0xD5, 0xF0, 0xF1, 0xF2,
      0xF3, 0xF4, 0xF7, 0xF8, 0xF9, 0xFA, 0xFB, 0xFC, 0xFF, 0xF6, 0xFE}"
    using assms(2) unfolding decode_single_def by (simp only: map_of_eq_None_iff) simp
  then have "execute op pc c = Inl (RuntimeError ''op'')"
    using assms(1) by (elim insertE emptyE) (simp_all add: execute_def Let_def)
  moreover have "decode op = None"
    using assms by (elim insertE emptyE) (simp_all add: decode_def)
  ultimately show ?thesis by (simp add: same_step_def agrees_Inl)
qed

lemma same_single:
  assumes f: "fetched pc c" and "op div 16 \<in> {6, 7, 13, 14, 15}"
  shows "same_step op pc c"
proof (cases "decode_single op")
  case None
  with assms show ?thesis by (simp only: same_undefined)
next
  case (Some i)
  have wf: "wf_cpu c" using f by (simp add: fetched_def)
  show ?thesis
  proof (cases "\<exists>a s. i = Alu a s")
    case True
    with Some wf show ?thesis by (auto intro: same_alu)
  next
    case False
    with map_of_SomeD [OF Some [unfolded decode_single_def], simplified]
    have "op \<in> {0x76, 0x7E, 0xF6, 0xFE} \<union> {0x60, 0x72, 0x73} \<union> {0xD4, 0xD5}" by auto
    then show ?thesis
      using same_shift [OF wf] same_indexed [OF wf] same_call [OF wf] same_return [OF wf] by blast
  qed
qed

lemma execute_agrees:
  assumes f: "fetched pc c" and "op < 256"
  shows "agrees (map_option (\<lambda>i. exec_instr i (abs_cpu c)) (decode op)) (execute op pc c)"
proof -
  have wf: "wf_cpu c" using f by (simp add: fetched_def)
  have n: "op mod 16 < 16" and op: "op = 16 * (op div 16) + op mod 16" by simp_all
  have "i < 16 \<Longrightarrow> i \<in> {0,1,2,3,4,5,8,9,10,11,12} \<union> {6,7,13,14,15}" for i :: nat
    by simp presburger
  moreover have "op div 16 < 16" using assms(2) by simp
  ultimately have "op div 16 \<in> {0,1,2,3,4,5,8,9,10,11,12} \<union> {6,7,13,14,15}" .
  then have "same_step op pc c"
  proof
    assume "op div 16 \<in> {6,7,13,14,15}"
    then show ?thesis by (rule same_single [OF f])
  next
    assume "op div 16 \<in> {0,1,2,3,4,5,8,9,10,11,12}"
    then have "same_step (16 * (op div 16) + op mod 16) pc c"
      by (elim insertE emptyE; simp only:)
        (intro same_register_step [OF wf n] same_short_branch [OF f n] same_long_branch [OF wf n])+
    then show ?thesis by simp
  qed
  then show ?thesis by (simp add: same_step_def)
qed

section \<open>What an instruction leaves alone\<close>

text \<open>A postcondition of a result, and its rules for the shapes the dispatch is made of.\<close>

definition post :: "('a \<Rightarrow> bool) \<Rightarrow> 'a res \<Rightarrow> bool" where
  "post P r \<longleftrightarrow> (\<forall>x. r = Inr x \<longrightarrow> P x)"

named_theorems post_rules \<open>one rule for each shape of the dispatch\<close>

lemma post_simps [simp]: "post P (Inl e)" "post P (Inr x) \<longleftrightarrow> P x"
  by (simp_all add: post_def)

lemma post_if [post_rules]: "(b \<Longrightarrow> post P r) \<Longrightarrow> (\<not> b \<Longrightarrow> post P s) \<Longrightarrow> post P (if b then r else s)"
  by simp

lemma post_bind [post_rules]: "(\<And>x. r = Inr x \<Longrightarrow> post P (f x)) \<Longrightarrow> post P (bind_res r f)"
  by (auto simp: post_def)

lemma post_option [post_rules]:
  "post P r \<Longrightarrow> (\<And>x. m = Some x \<Longrightarrow> post P (f x)) \<Longrightarrow> post P (case m of None \<Rightarrow> r | Some x \<Rightarrow> f x)"
  by (cases m) simp_all

lemma post_prod [post_rules]: "(\<And>a b. p = (a, b) \<Longrightarrow> post P (f a b)) \<Longrightarrow> post P (case p of (a, b) \<Rightarrow> f a b)"
  by (cases p) simp

lemma steps_simps [simp]:
  "steps (set_reg n v c) = steps c" "steps (set_acc v c) = steps c" "steps (set_flags v f c) = steps c"
  "steps (step_x k c) = steps c"
  by (simp_all add: set_reg_def set_acc_def set_flags_def step_x_def)

lemma steps_calls:
  "fetch c = Inr (v, c1) \<Longrightarrow> steps c1 = steps c" "cpu_wr c a x = Inr c1 \<Longrightarrow> steps c1 = steps c"
  "operand b c = Inr (v, c1) \<Longrightarrow> steps c1 = steps c" "pop16 c = Inr (v, c1) \<Longrightarrow> steps c1 = steps c"
  "push16 x c = Inr c1 \<Longrightarrow> steps c1 = steps c"
proof -
  show fetch: "fetch c = Inr (v, c1) \<Longrightarrow> steps c1 = steps c" and wr: "cpu_wr c a x = Inr c1 \<Longrightarrow> steps c1 = steps c"
    for c a x v c1 by (auto simp: fetch_def cpu_wr_def)
  show "operand b c = Inr (v, c1) \<Longrightarrow> steps c1 = steps c" "pop16 c = Inr (v, c1) \<Longrightarrow> steps c1 = steps c"
    by (auto simp: operand_def pop16_def Let_def dest: fetch split: if_splits)
  show "push16 x c = Inr c1 \<Longrightarrow> steps c1 = steps c"
    by (auto simp: push16_def Let_def dest!: wr)
qed

lemma execute_steps: "post (\<lambda>c1. steps c1 = steps c) (execute op pc c)"
  unfolding execute_def Let_def
  by (intro post_rules) (auto simp: post_def dest!: steps_calls)

text \<open>Only calls and returns move the stack pointer without masking it.\<close>

lemma operand_wf:
  assumes "operand b c = Inr (v, c1)" and "wf_cpu c"
  shows "wf_cpu c1" and "0 \<le> v \<and> v < 256"
proof -
  obtain w c2 where o: "operand b c = Inr (uint (w :: 8 word), c2)" and "wf_but_sp c2"
    using assms(2) by (rule operand_abs)
  moreover have "reg c2 2 = reg c 2"
    using o wf_shape(2) [OF assms(2)] fetch_abs [OF wf_shape(2) wf_reg [of c 3], OF assms(2,2)]
    by (auto simp: operand_def cpu_abs bind_res_eq_Inr split: if_splits)
  ultimately show "wf_cpu c1" "0 \<le> v \<and> v < 256"
    using assms byte_range [of w] wf_reg [OF assms(2), of 2] by (auto simp: wf_cpu_def)
qed

lemma fetch_wf: "fetch c = Inr (v, c1) \<Longrightarrow> wf_cpu c \<Longrightarrow> wf_cpu c1"
  by (metis fetch_operand operand_wf(1))

lemma wf_sp: "wf_cpu c \<Longrightarrow> word16 (reg c 2)"
  by (simp add: wf_cpu_def)

lemma poked_sp: "cpu_wr c a v = Inr c1 \<Longrightarrow> wf_cpu c \<Longrightarrow> reg c1 2 = reg c 2 \<and> shape c1"
  by (auto simp: cpu_abs)

lemma execute_sp:
  assumes wf: "wf_cpu c" and "op \<noteq> 0xD4" and "op \<noteq> 0xD5" 
  shows "post (\<lambda>c1. word16 (reg c1 2)) (execute op pc c)"
  using assms(2,3) unfolding execute_def Let_def
  by (intro post_rules)
    (use wf in \<open>auto simp: post_def cpu_abs step_x_abs wf_sp wf_reg register_halves wf_flags word16_masked
       dest: fetch_wf operand_wf(1) dest!: poked_sp\<close>)

section \<open>One step of the simulator\<close>

lemma steps_frame [cpu_abs]:
  "reg (c\<lparr>steps := k\<rparr>) n = reg c n" "shape (c\<lparr>steps := k\<rparr>) = shape c" "wf_cpu (c\<lparr>steps := k\<rparr>) = wf_cpu c"
  by (simp_all add: reg_def shape_def wf_cpu_def wf_but_sp_def)

lemma fetched_after:
  assumes "wf_cpu c"
  shows "fetched (reg c 3) (set_reg 3 ((reg c 3 + 1) AND 0xFFFF) (c\<lparr>steps := k\<rparr>))"
  using assms wf_set_reg [OF wf_but, of "c\<lparr>steps := k\<rparr>" 3] wf_shape(2) [OF assms]
  by (simp add: fetched_def wf_cpu_def [of "set_reg 3 v c" for v c] wf_sp cpu_abs word16_masked)

definition opcode :: "cpu \<Rightarrow> nat" where
  "opcode c = unat (m_mem (abs_cpu c) (of_int (reg c 3)))"

text \<open>Within its budget, a step is the execution of the opcode at the program counter.\<close>

lemma cpu_step_eq:
  assumes "wf_cpu c" and "steps c < 200000"
  shows "cpu_step c = execute (opcode c) (reg c 3)
    (set_reg 3 ((reg c 3 + 1) AND 0xFFFF) (c\<lparr>steps := steps c + 1\<rparr>))"
proof -
  have "fetch (c\<lparr>steps := k\<rparr>) = Inr (uint (m_mem (abs_cpu c) (of_int (reg c 3))),
      set_reg 3 ((reg c 3 + 1) AND 0xFFFF) (c\<lparr>steps := k\<rparr>))" for k
    using fetch_abs [of "c\<lparr>steps := k\<rparr>"] wf_shape(2) [OF assms(1)] wf_reg [OF assms(1), of 3]
    by (simp add: cpu_abs)
  then show ?thesis
    using assms(2) by (simp add: cpu_step_def opcode_def Let_def)
qed

lemma isa_step_eq:
  assumes "wf_cpu c"
  shows "isa_step (abs_cpu c) = map_option (\<lambda>i. exec_instr i
      (abs_cpu (set_reg 3 ((reg c 3 + 1) AND 0xFFFF) (c\<lparr>steps := k\<rparr>)))) (decode (opcode c))"
  using wf_shape(2) [OF assms]
  by (simp add: isa_step_def m_next_def m_at_def m_inc_def opcode_def cpu_abs cpu_words)

lemma cpu_step_agrees:
  assumes "wf_cpu c" and "steps c < 200000"
  shows "agrees (isa_step (abs_cpu c)) (cpu_step c)"
  using execute_agrees [OF fetched_after [OF assms(1)], of "opcode c" "steps c + 1"]
  unfolding cpu_step_eq [OF assms] isa_step_eq [OF assms(1), of "steps c + 1"]
  by (simp add: opcode_def)

lemma call_sp:
  assumes "wf_cpu c" and "execute 0xD4 pc c = Inr c1"
  shows "reg c1 2 = reg c 2 - 2"
  using assms(2) fetch2_abs [OF wf_but [OF assms(1)]] wf_shape(2) [OF assms(1)]
  by (auto simp: execute_def Let_def push16_def cpu_abs)

lemma return_sp:
  assumes "wf_cpu c" and "execute 0xD5 pc c = Inr c1"
  shows "reg c1 2 = reg c 2 + 2"
  using assms(2) wf_shape(2) [OF assms(1)]
  by (auto simp: execute_def Let_def pop16_def cpu_abs)

lemma cpu_step_sp:
  assumes "wf_cpu c" and "steps c < 200000" and "cpu_step c = Inr c1"
  shows "word16 (reg c1 2) \<or> opcode c = 0xD4 \<and> reg c1 2 = reg c 2 - 2
    \<or> opcode c = 0xD5 \<and> reg c1 2 = reg c 2 + 2"
proof -
  define c0 where "c0 = set_reg 3 ((reg c 3 + 1) AND 0xFFFF) (c\<lparr>steps := steps c + 1\<rparr>)"
  have wf: "wf_cpu c0" using fetched_after [OF assms(1)] by (simp add: fetched_def c0_def)
  have e: "execute (opcode c) (reg c 3) c0 = Inr c1"
    using assms(3) unfolding cpu_step_eq [OF assms(1,2)] c0_def .
  have r: "reg c0 2 = reg c 2" using wf_shape(2) [OF assms(1)] by (simp add: c0_def cpu_abs)
  consider "opcode c = 0xD4" | "opcode c = 0xD5" | "opcode c \<noteq> 0xD4" "opcode c \<noteq> 0xD5" by blast
  then show ?thesis
  proof cases
    case 1
    then show ?thesis using call_sp [OF wf e [unfolded 1]] r by simp
  next
    case 2
    then show ?thesis using return_sp [OF wf e [unfolded 2]] r by simp
  next
    case 3
    from execute_sp [OF wf this, of "reg c 3"] show ?thesis by (simp add: e)
  qed
qed

lemma cpu_step_steps:
  assumes "cpu_step c = Inr c1"
  shows "steps c < 200000" and "steps c1 = steps c + 1"
proof -
  obtain op c2 where "steps c < 200000" "fetch (c\<lparr>steps := steps c + 1\<rparr>) = Inr (op, c2)"
    "execute (nat op) (reg c 3) c2 = Inr c1"
    using assms by (auto simp: cpu_step_def Let_def split: if_splits)
  then show "steps c < 200000" "steps c1 = steps c + 1"
    using execute_steps [of c2 "nat op" "reg c 3"] steps_calls(1) by (fastforce simp: post_def)+
qed

text \<open>
  C26. On a state in range and within the instruction budget, one step of the simulator is
  one step of the instruction set on words: it arrives at the state the instruction set
  gives, and raises, always a \<open>RuntimeError\<close>, exactly on the opcodes that are not
  implemented.
\<close>

theorem cpu_step_refines_isa:
  assumes "wf_cpu c" and "steps c < 200000"
  shows "case cpu_step c of
      Inl e \<Rightarrow> isa_step (abs_cpu c) = None \<and> (\<exists>s. e = RuntimeError s)
    | Inr c1 \<Rightarrow> isa_step (abs_cpu c) = Some (abs_cpu c1)"
  using cpu_step_agrees [OF assms] by (auto simp: agrees_def split: sum.splits)

definition demo_cpu :: cpu where
  "demo_cpu = (cpu_init [0xF8, 0x05])\<lparr>regs := (replicate 16 0)[3 := 0x100]\<rparr>"

lemma demo_wf: "wf_cpu demo_cpu" "steps demo_cpu = 0"
  by (auto simp: demo_cpu_def cpu_init_def wf_cpu_def wf_but_sp_def shape_def reg_def word16_def
      put_slice_def nth_list_update)

theorem cpu_step_refines_isa_witness:
  "case cpu_step demo_cpu of
      Inl e \<Rightarrow> isa_step (abs_cpu demo_cpu) = None \<and> (\<exists>s. e = RuntimeError s)
    | Inr c1 \<Rightarrow> isa_step (abs_cpu demo_cpu) = Some (abs_cpu c1)"
  by (rule cpu_step_refines_isa) (simp_all add: demo_wf)

text \<open>
  C27. The types of the state: after a step memory and register file have their sizes, the
  accumulator is a byte and the flag a bit, and every register is a 16-bit number but for
  one case. A call or a return moves the stack pointer by two without masking it, so it
  leaves the range exactly when it wraps.
\<close>

theorem cpu_step_type:
  assumes "wf_cpu c" and "cpu_step c = Inr c1"
  shows "wf_but_sp c1 \<and> (wf_cpu c1
      \<or> opcode c = 0xD4 \<and> reg c1 2 = reg c 2 - 2 \<and> reg c 2 < 2
      \<or> opcode c = 0xD5 \<and> reg c1 2 = reg c 2 + 2 \<and> 0xFFFE \<le> reg c 2)"
proof -
  note k = cpu_step_steps [OF assms(2)]
  have wf: "wf_but_sp c1"
    using cpu_step_agrees [OF assms(1) k(1)] assms(2) by (simp add: agrees_def)
  then show ?thesis
    using cpu_step_sp [OF assms(1) k(1) assms(2)] wf_sp [OF assms(1)]
    by (auto simp: wf_cpu_def word16_def)
qed

lemma demo_mem: "mem demo_cpu ! 0x100 = 0xF8" "mem demo_cpu ! 0x101 = 0x05" "reg demo_cpu 3 = 0x100"
  by (simp_all add: demo_cpu_def cpu_init_def put_slice_def reg_def nth_append)

lemma demo_step: "cpu_step demo_cpu = Inr (set_acc 5 (set_reg 3 0x102 (demo_cpu\<lparr>steps := 1\<rparr>)))"
proof -
  note s = wf_shape(2) [OF demo_wf(1)]
  have "opcode demo_cpu = 0xF8"
    by (simp add: opcode_def abs_cpu_def demo_mem)
  moreover have "word16 0x100" "word16 0x101" "(0x101::int) AND 0xFFFF = 0x101" "(0x102::int) AND 0xFFFF = 0x102"
    by (simp_all add: word16_def)
  ultimately show ?thesis
    using s by (simp add: cpu_step_eq [OF demo_wf(1)] demo_wf demo_mem execute_def cpu_abs)
      (simp add: abs_cpu_def demo_mem)
qed

theorem cpu_step_type_witness:
  "wf_but_sp (set_acc 5 (set_reg 3 0x102 (demo_cpu\<lparr>steps := 1\<rparr>)))"
  using cpu_step_type [OF demo_wf(1) demo_step] by blast

text \<open>
  A return at the end of memory leaves a stack pointer of 17 bits, which the hardware would
  wrap.
\<close>

lemma return_overflows_sp:
  assumes "wf_cpu c" and "steps c < 200000" and "opcode c = 0xD5" and "reg c 2 = 0xFFFF"
  shows "\<exists>c1. cpu_step c = Inr c1 \<and> reg c1 2 = 0x10001"
proof -
  define c0 where "c0 = set_reg 3 ((reg c 3 + 1) AND 0xFFFF) (c\<lparr>steps := steps c + 1\<rparr>)"
  have wf: "wf_cpu c0" using fetched_after [OF assms(1)] by (simp add: fetched_def c0_def)
  have "\<exists>c1. execute 0xD5 (reg c 3) c0 = Inr c1"
    using wf_shape(2) [OF wf] by (simp add: execute_def Let_def pop16_def cpu_abs)
  then obtain c1 where e: "execute 0xD5 (reg c 3) c0 = Inr c1" ..
  have "reg c0 2 = reg c 2" using wf_shape(2) [OF assms(1)] by (simp add: c0_def cpu_abs)
  then show ?thesis
    using return_sp [OF wf e] e assms(4) cpu_step_eq [OF assms(1,2)] assms(3)
    by (simp add: c0_def)
qed

end
