(* ===== verification/Cpu_Run.thy ===== *)
theory Cpu_Run
  imports Cpu_Isa
begin

text \<open>
  The loop \<open>CPU.run\<close> of \<open>tools/fat12-proto/sim12.py\<close> as a transition system: a transition is
  an instruction, or a hook and the return after it. The lemmas relate the loop to
  reachability, follow a call through a hook and back, bound the loop by its instruction
  budget, and carry runs of the instruction set over to the simulator.
\<close>

section \<open>Transitions\<close>

inductive moves :: "'w hooks \<Rightarrow> cpu \<times> 'w \<Rightarrow> cpu \<times> 'w \<Rightarrow> bool" for hooks where
  instruction: "reg c 3 \<noteq> SENT \<Longrightarrow> hooks (reg c 3) = None \<Longrightarrow> cpu_step c = Inr c1 \<Longrightarrow>
    moves hooks (c, w) (c1, w)"
| hook: "reg c 3 \<noteq> SENT \<Longrightarrow> hooks (reg c 3) = Some h \<Longrightarrow> h c w = Returned c1 w1 \<Longrightarrow>
    hook_rtn c1 = Inr c2 \<Longrightarrow> moves hooks (c, w) (c2, w1)"

inductive_simps moves_pair: "moves hooks (c, w) s"

inductive_cases movesE: "moves hooks (c, w) s"

lemma run_moves: "moves hooks (c, w) (c1, w1) \<Longrightarrow> run hooks c w = run hooks c1 w1"
  by (elim movesE; subst run.simps; simp)

lemma run_sentinel: "reg c 3 = SENT \<Longrightarrow> run hooks c w = Some (Returned c w)"
  by (subst run.simps) simp

lemma moves_run:
  assumes "(moves hooks)\<^sup>*\<^sup>* s t"
  shows "run hooks (fst s) (snd s) = run hooks (fst t) (snd t)"
  using assms by (induction rule: rtranclp_induct) (auto dest: run_moves simp: split_beta)

lemma run_reaches:
  assumes "run hooks c w = Some r"
  shows "\<forall>c1 w1. r = Returned c1 w1 \<longrightarrow> (moves hooks)\<^sup>*\<^sup>* (c, w) (c1, w1) \<and> reg c1 3 = SENT"
proof (rule run.raw_induct [where P = "\<lambda>hooks c w r. \<forall>c1 w1. r = Returned c1 w1 \<longrightarrow>
    (moves hooks)\<^sup>*\<^sup>* (c, w) (c1, w1) \<and> reg c1 3 = SENT", OF _ assms], intro allI impI, goal_cases)
  case (1 loop hooks c w r c1 w1)
  have onward: "(moves hooks)\<^sup>*\<^sup>* (c, w) (c1, w1) \<and> reg c1 3 = SENT"
    if "moves hooks (c, w) (c2, w2)" and "loop hooks c2 w2 = Some r" for c2 w2
    using 1(1) [OF that(2)] 1(3) that(1) by (auto intro: converse_rtranclp_into_rtranclp)
  show ?case
    using 1(2,3) onward [OF moves.instruction] onward [OF moves.hook]
    by (auto split: if_splits option.splits outcome.splits sum.splits)
qed

section \<open>A hooked call\<close>

text \<open>The address in the two bytes after a call.\<close>

definition call_target :: "cpu \<Rightarrow> int" where
  "call_target c = 256 * uint (mem c ! nat ((reg c 3 + 1) AND 0xFFFF))
     + uint (mem c ! nat ((reg c 3 + 2) AND 0xFFFF))"

text \<open>The caller's state after the call, with everything else as the hook left it.\<close>

definition back_in :: "cpu \<Rightarrow> cpu \<Rightarrow> cpu" where
  "back_in c c2 = set_reg 6 (reg c 6) (set_reg 2 (reg c 2) (set_reg 3 ((reg c 3 + 3) AND 0xFFFF) c2))"

lemma masked_again: "(a AND 0xFFFF) + k AND 0xFFFF = (a + k) AND (0xFFFF :: int)"
  by (simp add: int_masks take_bit_eq_mod mod_simps)

lemma m_mem_abs: "m_mem (abs_cpu c) (of_int a) = mem c ! nat (a AND 0xFFFF)"
  by (simp add: abs_cpu_def unat_of_int_mask)

lemma word16_mask: "word16 a \<Longrightarrow> a AND 0xFFFF = a"
  by (simp add: int_masks take_bit_int_eq_self word16_def)

lemma call_step:
  assumes "wf_cpu c" and "steps c < 200000" and "mem c ! nat (reg c 3) = 0xD4" and "2 \<le> reg c 2"
  shows "\<exists>c1. cpu_step c = Inr c1 \<and> shape c1 \<and> reg c1 3 = call_target c
    \<and> reg c1 6 = (reg c 3 + 3) AND 0xFFFF \<and> reg c1 2 = reg c 2 - 2
    \<and> mem c1 ! nat (reg c 2) = of_int (reg c 6) \<and> mem c1 ! nat (reg c 2 - 1) = of_int (drop_bit 8 (reg c 6))"
proof -
  define c0 where "c0 = set_reg 3 ((reg c 3 + 1) AND 0xFFFF) (c\<lparr>steps := steps c + 1\<rparr>)"
  note s = wf_shape(2) [OF assms(1)]
  have wf: "wf_but_sp c0" using fetched_after [OF assms(1)] wf_but by (simp add: fetched_def c0_def)
  have s0: "shape c0" "reg c0 3 = (reg c 3 + 1) AND 0xFFFF" "reg c0 2 = reg c 2" "reg c0 6 = reg c 6" "mem c0 = mem c"
    using s by (simp_all add: c0_def shape_def reg_def set_reg_def)
  have "opcode c = 0xD4"
    using assms(3) wf_reg [OF assms(1), of 3] by (simp add: opcode_def m_mem_abs word16_mask)
  then have st: "cpu_step c = execute 0xD4 (reg c 3) c0" using cpu_step_eq [OF assms(1,2)] by (simp add: c0_def)
  have sp: "reg c 2 AND 0xFFFF = reg c 2" "(reg c 2 - 1) AND 0xFFFF = reg c 2 - 1"
    using assms(4) wf_sp [OF assms(1)] by (auto intro!: word16_mask simp: word16_def)
  have ne: "nat (reg c 2) \<noteq> nat (reg c 2 - 1)" using assms(4) by simp
  have len: "nat (reg c 2) < 65536" "nat (reg c 2 - 1) < 65536"
    using assms(4) wf_sp [OF assms(1)] by (auto simp: word16_def)
  have f: "fetch c0 = Inr (uint (mem c ! nat ((reg c 3 + 1) AND 0xFFFF)), set_reg 3 ((reg c 3 + 2) AND 0xFFFF) c0)"
    "fetch (set_reg 3 ((reg c 3 + 2) AND 0xFFFF) c0)
      = Inr (uint (mem c ! nat ((reg c 3 + 2) AND 0xFFFF)), set_reg 3 ((reg c 3 + 3) AND 0xFFFF) c0)"
    using fetch2_abs [OF wf] s0
      m_mem_abs [of c0 "reg c 3 + 1"] m_mem_abs [of c0 "reg c 3 + 2"]
    by (simp_all add: masked_again cpu_words add.assoc)
  have m: "mem (set_reg n v d) = mem d" "mem (poke a v d) = (mem d)[nat (a AND 0xFFFF) := of_int v]" for n v a d
    by (simp_all add: set_reg_def poke_def of_int_and_FF)
  show ?thesis
    unfolding st using s0 sp ne len wf_shape(2) [OF assms(1)]
    by (simp add: execute_def Let_def push16_def f cpu_abs call_target_def pair_sum m of_int_and_FF shape_def [of c])
qed

lemma hook_rtn_pops:
  assumes "shape c" and "reg c 2 = sp - 2" and "word16 (sp - 1)" and "word16 sp" and "word16 v"
    and "mem c ! nat sp = of_int v" and "mem c ! nat (sp - 1) = of_int (drop_bit 8 v)"
  shows "hook_rtn c = Inr (set_reg 6 v (set_reg 2 sp (set_reg 3 (reg c 6) c)))"
proof -
  have "0 \<le> v" "v < 256 * 256" using assms(5) by (simp_all add: word16_def)
  then have "0 \<le> v div 256" "v div 256 < 256"
    using zdiv_mono1 [of v 65535 256] by simp_all
  note high = this mod_pos_pos_trivial [OF this]
  have "push_bit 8 (uint (of_int (drop_bit 8 v) :: byte)) OR uint (of_int v :: byte) = v"
    unfolding pair_sum using high by (simp add: unsigned_of_int take_bit_eq_mod drop_bit_eq_div)
  then show ?thesis
    using assms m_mem_abs [of c "sp - 1"]
    by (simp add: hook_rtn_def pop16_def Let_def cpu_abs m_mem_abs word16_mask m_set_def)
qed

text \<open>
  C28. Calling a routine that has a hook comes back: the hook starts at the address in the
  call, with the return address in R6 and the stack two bytes lower, and when it keeps
  R2, R6 and the two bytes the call pushed, the loop goes on after the call, R2 and R6 as the
  caller had them and all else as the hook left it.
\<close>

theorem hooked_call_returns:
  assumes "wf_cpu c" and "steps c < 200000" and "mem c ! nat (reg c 3) = 0xD4" and "2 \<le> reg c 2"
    and "reg c 3 \<noteq> SENT" and "hooks (reg c 3) = None" and "cpu_step c = Inr c1"
    and "call_target c \<noteq> SENT" and "hooks (call_target c) = Some h" and "h c1 w = Returned c2 w2"
    and "shape c2" and "reg c2 2 = reg c1 2" and "reg c2 6 = reg c1 6"
    and "mem c2 ! nat (reg c 2) = mem c1 ! nat (reg c 2)"
    and "mem c2 ! nat (reg c 2 - 1) = mem c1 ! nat (reg c 2 - 1)"
  shows "reg c1 3 = call_target c \<and> reg c1 6 = (reg c 3 + 3) AND 0xFFFF \<and> reg c1 2 = reg c 2 - 2
     \<and> run hooks c w = run hooks (back_in c c2) w2"
proof -
  have c1: "reg c1 3 = call_target c" "reg c1 6 = (reg c 3 + 3) AND 0xFFFF" "reg c1 2 = reg c 2 - 2"
    "mem c1 ! nat (reg c 2) = of_int (reg c 6)" "mem c1 ! nat (reg c 2 - 1) = of_int (drop_bit 8 (reg c 6))"
    using call_step [OF assms(1-4)] assms(7) by simp_all
  have r: "word16 (reg c 2)" "word16 (reg c 2 - 1)" "word16 (reg c 6)"
    using wf_sp [OF assms(1)] wf_reg [OF assms(1), of 6] assms(4) by (auto simp: word16_def)
  have "hook_rtn c2 = Inr (back_in c c2)"
    using hook_rtn_pops [OF assms(11) _ r(2,1,3)] assms(12-15) c1 by (simp add: back_in_def)
  with assms(5-10) c1(1) have "moves hooks (c, w) (c1, w)" "moves hooks (c1, w) (back_in c c2, w2)"
    by (auto intro: moves.intros)
  then show ?thesis using c1(1-3) by (simp add: run_moves)
qed

text \<open>\<open>CALL 0x200\<close> at 0x100, where a hook stands for a routine that loads 5.\<close>

definition call_five :: cpu where
  "call_five = (cpu_init [0xD4, 0x02, 0x00, 0xD5])\<lparr>regs := (replicate 16 0)[2 := 0x7F00, 3 := 0x100, 6 := SENT]\<rparr>"

definition five_hooks :: "unit hooks" where
  "five_hooks a = (if a = 0x200 then Some (\<lambda>c. Returned (set_acc 5 c)) else None)"

lemma set_acc_frame: "mem (set_acc v c) = mem c" by (simp add: set_acc_def)

lemma call_five_facts:
  "wf_cpu call_five" "steps call_five = 0" "reg call_five 2 = 0x7F00" "reg call_five 3 = 0x100"
  "mem call_five ! 0x100 = 0xD4" "mem call_five ! 0x101 = 0x02" "mem call_five ! 0x102 = 0x00"
  by (auto simp: call_five_def cpu_init_def wf_cpu_def wf_but_sp_def shape_def reg_def word16_def
      put_slice_def nth_list_update nth_append SENT_def)

theorem hooked_call_returns_witness:
  "\<exists>c1. cpu_step call_five = Inr c1 \<and> reg c1 3 = 0x200 \<and> reg c1 6 = 0x103
     \<and> run five_hooks call_five () = run five_hooks (back_in call_five (set_acc 5 c1)) ()"
proof -
  note f = call_five_facts
  have t: "call_target call_five = 0x200" by (simp add: call_target_def f)
  have k: "steps call_five < 200000" "mem call_five ! nat (reg call_five 3) = 0xD4" "2 \<le> reg call_five 2"
    by (simp_all add: f)
  obtain c1 where c1: "cpu_step call_five = Inr c1" "shape c1" using call_step [OF f(1) k] by blast
  show ?thesis
    using hooked_call_returns [OF f(1) k _ _ c1(1), of five_hooks "\<lambda>c. Returned (set_acc 5 c)" "()" "set_acc 5 c1" "()"]
      c1 by (simp add: f t five_hooks_def SENT_def cpu_abs set_acc_frame)
qed

section \<open>The instruction budget\<close>

lemma run_ends_from: "200000 - steps c < n \<Longrightarrow> \<exists>r. run (\<lambda>_. None) c w = Some r"
proof (induction n arbitrary: c)
  case (Suc n)
  show ?case
  proof (cases "cpu_step c")
    case (Inl e)
    then show ?thesis by (subst run.simps) simp
  next
    case (Inr c1)
    then have "200000 - steps c1 < n"
      using Suc.prems cpu_step_steps [OF Inr] by simp
    from Suc.IH [OF this] show ?thesis
      using Inr by (subst run.simps) simp
  qed
qed simp

text \<open>
  C29. Without hooks the loop ends on every state: it comes to the sentinel or raises.
\<close>

theorem run_without_hooks_ends: "\<exists>r. run (\<lambda>_. None) c w = Some r"
  by (rule run_ends_from [of c "Suc (200000 - steps c)"]) simp

text \<open>
  The budget counts instructions only. A hook whose return leads back to a hook is never
  counted, so a program can keep the loop busy for ever.
\<close>

definition zeroed :: "cpu \<Rightarrow> bool" where
  "zeroed c \<longleftrightarrow> mem c = replicate 65536 0 \<and> length (regs c) = 16 \<and> reg c 3 = 0 \<and> reg c 6 = 0"

lemma hook_rtn_zeroed: "zeroed c \<Longrightarrow> \<exists>c2. hook_rtn c = Inr c2 \<and> zeroed c2"
proof -
  assume z: "zeroed c"
  have "\<exists>v. hook_rtn c = Inr (c\<lparr>regs := (regs c)[3 := 0, 2 := v, 6 := 0]\<rparr>)"
    using z nat_masked_less
    by (auto simp: hook_rtn_def pop16_def Let_def cpu_rd_def zeroed_def set_reg_def reg_def)
  then show ?thesis
    using z by (auto simp: zeroed_def reg_def nth_list_update)
qed

definition back_to_0 :: "'w hooks" where
  "back_to_0 a = (if a = 0 then Some Returned else None)"

lemma hooked_loop_diverges:
  fixes w :: 'w
  assumes "zeroed c"
  shows "run back_to_0 c w = None"
proof (rule ccontr)
  assume "run back_to_0 c w \<noteq> None"
  then obtain r where r: "run back_to_0 c w = Some r" by auto
  have "(back_to_0 :: 'w hooks) = back_to_0 \<longrightarrow> zeroed c \<longrightarrow> False"
  proof (rule run.raw_induct [where P = "\<lambda>hooks c w r. hooks = back_to_0 \<longrightarrow> zeroed c \<longrightarrow> False", OF _ r],
      intro impI, goal_cases)
    case (1 loop hooks c w r)
    then obtain c2 where "hook_rtn c = Inr c2" "zeroed c2" using hook_rtn_zeroed by blast
    then show ?case using 1 by (auto simp: zeroed_def SENT_def back_to_0_def)
  qed
  then show False using assms by simp
qed

section \<open>Programs of the instruction set\<close>

text \<open>
  \<open>n\<close> instructions of the machine on words, none of them at the sentinel and with the stack
  away from both ends of memory.
\<close>

definition running :: "machine \<Rightarrow> bool" where
  "running m \<longleftrightarrow> m_reg m ! 3 \<noteq> of_int SENT \<and> 2 \<le> unat (m_reg m ! 2) \<and> unat (m_reg m ! 2) < 0xFFFE"

fun isa_run :: "nat \<Rightarrow> machine \<Rightarrow> machine option" where
  "isa_run 0 m = Some m"
| "isa_run (Suc n) m = (if running m then Option.bind (isa_step m) (isa_run n) else None)"

lemma word16_unat: "word16 v \<Longrightarrow> int (unat (of_int v :: 16 word)) = v"
  by (simp add: unsigned_of_int word16_def take_bit_int_eq_self)

lemma running_reg:
  assumes "wf_cpu c" and "running (abs_cpu c)"
  shows "reg c 3 \<noteq> SENT" and "2 \<le> reg c 2" and "reg c 2 < 0xFFFE"
proof -
  note s = wf_shape(2) [OF assms(1)]
  have r: "m_reg (abs_cpu c) ! 3 = of_int (reg c 3)" "m_reg (abs_cpu c) ! 2 = of_int (reg c 2)"
    using abs_reg [OF s, of 3] abs_reg [OF s, of 2] by simp_all
  then show "reg c 3 \<noteq> SENT" using assms(2) by (auto simp: running_def)
  have "2 \<le> unat (of_int (reg c 2) :: 16 word) \<and> unat (of_int (reg c 2) :: 16 word) < 0xFFFE"
    using assms(2) r by (simp add: running_def)
  then show "2 \<le> reg c 2" "reg c 2 < 0xFFFE"
    using word16_unat [OF wf_sp [OF assms(1)]] by linarith+
qed

lemma isa_run_moves:
  assumes "wf_cpu c" and "steps c + n \<le> 200000" and "isa_run n (abs_cpu c) = Some m"
  shows "\<exists>c1. wf_cpu c1 \<and> abs_cpu c1 = m \<and> (moves (\<lambda>_. None))\<^sup>*\<^sup>* (c, w) (c1, w)"
  using assms
proof (induction n arbitrary: c)
  case (Suc n)
  from Suc.prems(3) obtain m1 where r: "running (abs_cpu c)" and m1: "isa_step (abs_cpu c) = Some m1"
    and m: "isa_run n m1 = Some m"
    by (auto split: if_splits bind_splits)
  have k: "steps c < 200000" using Suc.prems(2) by simp
  from cpu_step_agrees [OF Suc.prems(1) k] m1 obtain c1 where c1: "cpu_step c = Inr c1"
    "m1 = abs_cpu c1" "wf_but_sp c1"
    by (auto simp: agrees_def split: sum.splits)
  have "wf_cpu c1"
    using cpu_step_sp [OF Suc.prems(1) k c1(1)] running_reg [OF Suc.prems(1) r] c1(3)
    by (auto simp: wf_cpu_def word16_def)
  moreover have "moves (\<lambda>_. None) (c, w) (c1, w)"
    using running_reg(1) [OF Suc.prems(1) r] c1(1) by (auto intro: moves.instruction)
  ultimately show ?case
    using Suc.IH [of c1] Suc.prems(2) m c1(2) cpu_step_steps [OF c1(1)]
    by (auto intro: converse_rtranclp_into_rtranclp)
qed auto

text \<open>
  C30. What a program of the instruction set does, the simulator does: when it comes to the
  sentinel within the instruction budget, with the stack away from both ends of memory,
  \<open>CPU.run\<close> returns, in the state the program ends in.
\<close>

theorem isa_programs_run:
  assumes "wf_cpu c" and "steps c + n \<le> 200000"
    and "isa_run n (abs_cpu c) = Some m" and "m_reg m ! 3 = of_int SENT"
  shows "\<exists>c1. run (\<lambda>_. None) c w = Some (Returned c1 w) \<and> abs_cpu c1 = m"
proof -
  obtain c1 where c1: "wf_cpu c1" "abs_cpu c1 = m" "(moves (\<lambda>_. None))\<^sup>*\<^sup>* (c, w) (c1, w)"
    using isa_run_moves [OF assms(1-3), of w] by (elim exE conjE)
  have "(of_int (reg c1 3) :: 16 word) = of_int SENT"
    using assms(4) c1(2) abs_reg [OF wf_shape(2) [OF c1(1)], of 3] by simp
  moreover have "word16 SENT" "word16 (reg c1 3)"
    using wf_reg [OF c1(1), of 3] by (simp_all add: SENT_def word16_def)
  ultimately have "reg c1 3 = SENT" by (metis word16_unat)
  then have "run (\<lambda>_. None) c w = Some (Returned c1 w)"
    using moves_run [OF c1(3)] by (simp add: run_sentinel)
  then show ?thesis using c1(2) by blast
qed

text \<open>\<open>LDI 5; RTN\<close> at 0x100.\<close>

definition load_five :: cpu where
  "load_five = (cpu_init [0xF8, 0x05, 0xD5])\<lparr>regs := (replicate 16 0)[2 := 0x7F00, 3 := 0x100, 6 := SENT]\<rparr>"

lemma load_five_wf: "wf_cpu load_five" "steps load_five = 0"
  by (auto simp: load_five_def cpu_init_def wf_cpu_def wf_but_sp_def shape_def reg_def word16_def
      put_slice_def nth_list_update SENT_def)

lemma load_five_mem:
  "mem load_five ! 0x100 = 0xF8" "mem load_five ! 0x101 = 0x05" "mem load_five ! 0x102 = 0xD5"
  by (simp_all add: load_five_def cpu_init_def put_slice_def nth_append)

lemma load_five_abs:
  "\<exists>M. abs_cpu load_five = \<lparr>m_mem = M, m_reg = [0, 0, 0x7F00, 0x100, 0, 0, 0xFFF0, 0, 0, 0, 0, 0, 0, 0, 0, 0],
     m_acc = 0, m_df = False\<rparr> \<and> M 0x100 = 0xF8 \<and> M 0x101 = 0x05 \<and> M 0x102 = 0xD5"
proof -
  have "replicate 16 (0::int) = [0, 0, 0, 0, 0, 0, 0, 0, 0, 0, 0, 0, 0, 0, 0, 0]" by code_simp
  then have "map (of_int :: int \<Rightarrow> 16 word) (regs load_five) =
      [0, 0, 0x7F00, 0x100, 0, 0, 0xFFF0, 0, 0, 0, 0, 0, 0, 0, 0, 0]"
    by (simp add: load_five_def SENT_def)
  moreover have "acc load_five = 0" "carry load_five = 0" by (simp_all add: load_five_def cpu_init_def)
  ultimately show ?thesis using load_five_mem by (simp add: abs_cpu_def)
qed

lemma isa_run_two:
  "isa_run 2 m = (if running m then Option.bind (isa_step m) (\<lambda>m1. if running m1 then isa_step m1 else None) else None)"
proof -
  have "isa_run (Suc 0) = (\<lambda>m1. if running m1 then isa_step m1 else None)"
    by (rule ext) (simp split: bind_splits)
  then show ?thesis by (simp only: numeral_2_eq_2 isa_run.simps(2) [of "Suc 0"])
qed

lemma load_five_runs:
  "\<exists>m. isa_run 2 (abs_cpu load_five) = Some m \<and> m_reg m ! 3 = of_int SENT \<and> m_acc m = 5"
proof -
  obtain M where a: "abs_cpu load_five = \<lparr>m_mem = M, m_reg = [0, 0, 0x7F00, 0x100, 0, 0, 0xFFF0, 0, 0, 0, 0, 0, 0, 0, 0, 0],
     m_acc = 0, m_df = False\<rparr>" and M: "M 0x100 = 0xF8" "M 0x101 = 0x05" "M 0x102 = 0xD5"
    using load_five_abs by blast
  have d: "decode 248 = Some (Alu Load Immediate)" "decode 213 = Some Return"
    by (simp_all add: decode_def decode_single_def)
  show ?thesis
    unfolding isa_run_two a
    by (simp add: running_def isa_step_def m_next_def m_at_def m_inc_def d M
        exec_instr_def m_operand_def alu_result_def m_flags_def m_set_def SENT_def)
qed

theorem isa_programs_run_witness:
  "\<exists>c1. run (\<lambda>_. None) load_five () = Some (Returned c1 ()) \<and> m_acc (abs_cpu c1) = 5"
proof -
  obtain m where m: "isa_run 2 (abs_cpu load_five) = Some m" "m_reg m ! 3 = of_int SENT" "m_acc m = 5"
    using load_five_runs by blast
  have "steps load_five + 2 \<le> 200000" by (simp add: load_five_wf)
  from isa_programs_run [OF load_five_wf(1) this m(1,2), of "()"] m(3) show ?thesis by blast
qed

end
