(* ===== verification/Sim_Disk.thy ===== *)
theory Sim_Disk
  imports Cpu_Run
begin

text \<open>
  The model disk of \<open>tools/fat12-proto/sim12.py\<close> and the hook that stands for the kernel's
  \<open>_fat_load_sector\<close>: one sector of the table is cached in the processor's memory and written
  back when another sector is loaded. \<open>effective\<close> is the table as the kernel sees it. The
  random numbers are a stream that the draws consume; a draw of \<open>k\<close> bits is its next element
  modulo \<open>2^k\<close>, and the stream is arbitrary.
\<close>

section \<open>The disk and the random numbers\<close>

definition NSEC :: nat where
  "NSEC = 12"

record world =
  disk :: "byte list list"
  reads :: nat
  writes :: nat
  fail_next :: bool
  rng :: "nat \<Rightarrow> nat"

definition draw :: "world \<Rightarrow> nat \<times> world" where
  "draw w = (rng w 0, w\<lparr>rng := (\<lambda>i. rng w (Suc i))\<rparr>)"

definition getrandbits :: "nat \<Rightarrow> world \<Rightarrow> nat \<times> world" where
  "getrandbits k w = (let (x, w) = draw w in (x mod 2 ^ k, w))"

definition world_init :: "(nat \<Rightarrow> nat) \<Rightarrow> world" where
  "world_init r =
     \<lparr>disk = map (\<lambda>i. map (\<lambda>j. of_nat (r (512 * i + j) mod 2 ^ 8)) [0..<512]) [0..<NSEC],
      reads = 0, writes = 0, fail_next = False, rng = (\<lambda>i. r (512 * NSEC + i))\<rparr>"

section \<open>The hook\<close>

definition cpu_rd16 :: "cpu \<Rightarrow> int \<Rightarrow> int res" where
  "cpu_rd16 c a = bind_res (cpu_rd c a) (\<lambda>hi. bind_res (cpu_rd c (a + 1)) (\<lambda>lo.
     Inr (push_bit 8 hi OR lo)))"

text \<open>The registers the kernel's routine clobbers.\<close>

definition scramble :: "cpu \<Rightarrow> world \<Rightarrow> cpu \<times> world" where
  "scramble c w =
     (let (x, w) = getrandbits 16 w; (y, w) = getrandbits 16 w; (z, w) = getrandbits 16 w
      in (set_reg 15 (int z) (set_reg 8 (int y) (set_reg 7 (int x) c)), w))"

text \<open>\<open>c.m[cache:cache + 512]\<close>, read.\<close>

definition window :: "nat \<Rightarrow> cpu \<Rightarrow> byte list" where
  "window cache c = take 512 (drop cache (mem c))"

text \<open>The write-back of a changed sector.\<close>

definition write_back :: "nat \<Rightarrow> nat \<Rightarrow> int \<Rightarrow> cpu \<Rightarrow> world \<Rightarrow> (cpu \<times> world) res" where
  "write_back cache dirty cur c w =
     bind_res (cpu_rd c (int dirty)) (\<lambda>dr.
     if dr \<noteq> 0 then
       bind_res (upd (disk w) (nat cur) (window cache c)) (\<lambda>dk.
       let (x, w) = getrandbits 16 (w\<lparr>disk := dk, writes := writes w + 1\<rparr>)
       in Inr (set_reg 12 (int x) c, w))
     else Inr (c, w))"

text \<open>The load of a sector into the cache.\<close>

definition load_in :: "nat \<Rightarrow> nat \<Rightarrow> nat \<Rightarrow> int \<Rightarrow> cpu \<Rightarrow> world \<Rightarrow> (cpu \<times> world) res" where
  "load_in cache csec dirty i c w =
     bind_res (py_index (disk w) i) (\<lambda>s.
     let c = c\<lparr>mem := put_slice (mem c) cache (cache + 512) s\<rparr>; w = w\<lparr>reads := reads w + 1\<rparr> in
     bind_res (cpu_wr c (int csec) 0) (\<lambda>c.
     bind_res (cpu_wr c (int csec + 1) i) (\<lambda>c.
     bind_res (cpu_wr c (int dirty) 0) (\<lambda>c. Inr (c, w)))))"

text \<open>The function \<open>fls\<close> inside \<open>mk_hook\<close>.\<close>

definition fls_res :: "nat \<Rightarrow> nat \<Rightarrow> nat \<Rightarrow> cpu \<Rightarrow> world \<Rightarrow> (cpu \<times> world) res" where
  "fls_res cache csec dirty c w =
     (if fail_next w then
        Inr (scramble (c\<lparr>carry := 1\<rparr>) (w\<lparr>fail_next := False\<rparr>))
      else
        let i = drop_bit 8 (reg c 13) in
        bind_res (cpu_rd16 c (int csec)) (\<lambda>cur.
        bind_res
          (if cur \<noteq> i then
             bind_res (write_back cache dirty cur c w) (\<lambda>(c, w).
             load_in cache csec dirty i c w)
           else Inr (c, w))
          (\<lambda>(c, w). let (c, w) = scramble c w in Inr (c\<lparr>carry := 0\<rparr>, w))))"

definition fls :: "nat \<Rightarrow> nat \<Rightarrow> nat \<Rightarrow> world hook" where
  "fls cache csec dirty c w = (case fls_res cache csec dirty c w of
       Inl e \<Rightarrow> Raised e | Inr (c, w) \<Rightarrow> Returned c w)"

definition mk_hook :: "nat dict \<Rightarrow> world hook res" where
  "mk_hook syms =
     bind_res (dict_get syms ''fat_cache'') (\<lambda>cache.
     bind_res (dict_get syms ''fat_csec'') (\<lambda>csec.
     bind_res (dict_get syms ''fat_dirty'') (\<lambda>dirty. Inr (fls cache csec dirty))))"

text \<open>The table with the changes the cache still holds.\<close>

definition effective_at :: "nat \<Rightarrow> nat \<Rightarrow> nat \<Rightarrow> cpu \<Rightarrow> world \<Rightarrow> byte list res" where
  "effective_at cache csec dirty c w =
     bind_res (cpu_rd16 c (int csec)) (\<lambda>cur.
     bind_res (if cur \<noteq> 0xFFFF
         then bind_res (cpu_rd c (int dirty)) (\<lambda>dr. Inr (dr \<noteq> 0)) else Inr False) (\<lambda>changed.
     bind_res (if changed then upd (disk w) (nat cur) (window cache c) else Inr (disk w)) (\<lambda>dk.
     Inr (concat dk))))"

definition effective :: "nat dict \<Rightarrow> cpu \<Rightarrow> world \<Rightarrow> byte list res" where
  "effective syms c w =
     bind_res (dict_get syms ''fat_cache'') (\<lambda>cache.
     bind_res (dict_get syms ''fat_csec'') (\<lambda>csec.
     bind_res (dict_get syms ''fat_dirty'') (\<lambda>dirty. effective_at cache csec dirty c w)))"

section \<open>The cache as a view of the table\<close>

text \<open>The three addresses lie in memory and do not overlap.\<close>

definition places :: "nat \<Rightarrow> nat \<Rightarrow> nat \<Rightarrow> bool" where
  "places cache csec dirty \<longleftrightarrow> cache + 512 \<le> 65536 \<and> csec + 1 < 65536 \<and> dirty < 65536
     \<and> (csec + 1 < cache \<or> cache + 512 \<le> csec) \<and> (dirty < cache \<or> cache + 512 \<le> dirty)
     \<and> dirty \<noteq> csec \<and> dirty \<noteq> csec + 1"

text \<open>The number of the cached sector, and the sectors of the effective table.\<close>

definition current :: "nat \<Rightarrow> cpu \<Rightarrow> nat" where
  "current csec c = 256 * unat (mem c ! csec) + unat (mem c ! (csec + 1))"

definition sectors_of :: "nat \<Rightarrow> nat \<Rightarrow> nat \<Rightarrow> cpu \<Rightarrow> world \<Rightarrow> byte list list" where
  "sectors_of cache csec dirty c w =
     (if mem c ! dirty \<noteq> 0 then (disk w)[current csec c := window cache c] else disk w)"

definition sim_ok :: "nat \<Rightarrow> nat \<Rightarrow> nat \<Rightarrow> cpu \<Rightarrow> world \<Rightarrow> bool" where
  "sim_ok cache csec dirty c w \<longleftrightarrow> shape c \<and> length (disk w) = NSEC \<and> (\<forall>s\<in>set (disk w). length s = 512)
     \<and> (current csec c = 0xFFFF \<and> mem c ! dirty = 0
        \<or> current csec c < NSEC \<and> (mem c ! dirty = 0 \<longrightarrow> window cache c = disk w ! current csec c))"

lemma byte_zero [simp]: "uint (b :: 8 word) = 0 \<longleftrightarrow> b = 0"
  by (simp add: unsigned_eq_0_iff)

lemma masked_nat: "a < 65536 \<Longrightarrow> nat (int a AND 0xFFFF) = a"
  by (simp add: int_masks take_bit_int_eq_self)

lemma cpu_rd_nat: "shape c \<Longrightarrow> a < 65536 \<Longrightarrow> cpu_rd c (int a) = Inr (uint (mem c ! a))"
  by (simp add: cpu_rd_def shape_def masked_nat)

lemma cpu_rd16_nat:
  "shape c \<Longrightarrow> csec + 1 < 65536 \<Longrightarrow> cpu_rd16 c (int csec) = Inr (int (current csec c))"
  using cpu_rd_nat [of c csec] cpu_rd_nat [of c "csec + 1"]
  by (simp add: cpu_rd16_def pair_sum current_def add.commute)

lemma cpu_wr_nat:
  "shape c \<Longrightarrow> a < 65536 \<Longrightarrow> cpu_wr c (int a) v = Inr (c\<lparr>mem := (mem c)[a := of_int v]\<rparr>)"
  by (simp add: cpu_wr_abs poke_def masked_nat of_int_and_FF)

lemma length_window: "cache + 512 \<le> 65536 \<Longrightarrow> shape c \<Longrightarrow> length (window cache c) = 512"
  by (simp add: window_def shape_def)

lemma effective_at_sectors:
  assumes "places cache csec dirty" and "sim_ok cache csec dirty c w"
  shows "effective_at cache csec dirty c w = Inr (concat (sectors_of cache csec dirty c w))"
  using assms cpu_rd16_nat [of c csec] cpu_rd_nat [of c dirty]
  by (auto simp: effective_at_def places_def sim_ok_def sectors_of_def NSEC_def)

lemma length_sectors:
  assumes "places cache csec dirty" and "sim_ok cache csec dirty c w"
  shows "length (sectors_of cache csec dirty c w) = NSEC"
    and "s \<in> set (sectors_of cache csec dirty c w) \<Longrightarrow> length s = 512"
  using assms length_window [of cache c] set_update_subset_insert [of "disk w"]
  by (auto simp: sectors_of_def sim_ok_def places_def split: if_splits)

section \<open>The parts of the hook\<close>

lemma scramble_frame:
  assumes "scramble c w = (c1, w1)" and "shape c"
  shows "mem c1 = mem c" "carry c1 = carry c" "disk w1 = disk w" "fail_next w1 = fail_next w" "shape c1"
    "acc c1 = acc c" "n < 16 \<Longrightarrow> n \<notin> {7, 8, 15} \<Longrightarrow> reg c1 n = reg c n"
    "reads w1 = reads w" "writes w1 = writes w"
  using assms
  by (auto simp: scramble_def getrandbits_def draw_def Let_def shape_simps reg_simps)
    (auto simp: set_reg_def)

lemma write_back_sectors:
  assumes "places cache csec dirty" and "sim_ok cache csec dirty c w"
  shows "\<exists>c1 w1. write_back cache dirty (int (current csec c)) c w = Inr (c1, w1)
     \<and> disk w1 = sectors_of cache csec dirty c w \<and> fail_next w1 = fail_next w
     \<and> mem c1 = mem c \<and> shape c1 \<and> acc c1 = acc c
     \<and> (\<forall>n<16. n \<noteq> 12 \<longrightarrow> reg c1 n = reg c n)"
proof -
  have c: "shape c" using assms(2) by (simp add: sim_ok_def)
  then have r: "cpu_rd c (int dirty) = Inr (uint (mem c ! dirty))"
    using assms(1) by (simp add: cpu_rd_nat places_def)
  show ?thesis
  proof (cases "mem c ! dirty = 0")
    case True
    then show ?thesis using r c by (simp add: write_back_def sectors_of_def)
  next
    case False
    then have "current csec c < length (disk w)" using assms(2) by (auto simp: sim_ok_def)
    then show ?thesis
      using r c False
      by (auto simp: write_back_def sectors_of_def getrandbits_def draw_def Let_def shape_simps reg_simps)
        (auto simp: set_reg_def)
  qed
qed

lemma nth_put_slice:
  assumes "a + length ys \<le> length xs"
  shows "length (put_slice xs a (a + length ys) ys) = length xs"
    and "take (length ys) (drop a (put_slice xs a (a + length ys) ys)) = ys"
    and "k < a \<or> a + length ys \<le> k \<Longrightarrow> put_slice xs a (a + length ys) ys ! k = xs ! k"
  using assms by (auto simp: put_slice_def nth_append)

lemma window_frame:
  assumes "\<And>a. cache \<le> a \<Longrightarrow> a < cache + 512 \<Longrightarrow> mem c1 ! a = mem c ! a"
    and "cache + 512 \<le> length (mem c)" and "length (mem c1) = length (mem c)"
  shows "window cache c1 = window cache c"
  unfolding window_def by (rule nth_equalityI) (use assms in auto)

lemma load_in_sectors:
  assumes pl: "places cache csec dirty" and c: "shape c" and d: "length (disk w) = NSEC"
    "\<forall>s\<in>set (disk w). length s = 512" and i: "i < NSEC"
  shows "\<exists>c1. load_in cache csec dirty (int i) c w = Inr (c1, w\<lparr>reads := reads w + 1\<rparr>)
     \<and> current csec c1 = i \<and> mem c1 ! dirty = 0 \<and> window cache c1 = disk w ! i
     \<and> shape c1 \<and> acc c1 = acc c \<and> regs c1 = regs c
     \<and> (\<forall>a. a < cache \<or> cache + 512 \<le> a \<longrightarrow> a \<notin> {csec, csec + 1, dirty} \<longrightarrow> mem c1 ! a = mem c ! a)"
proof -
  have s: "length (disk w ! i) = 512" using d i by simp
  have m: "length (mem c) = 65536" using c by (simp add: shape_def)
  let ?m = "put_slice (mem c) cache (cache + 512) (disk w ! i)"
  have lm: "length ?m = 65536" using nth_put_slice(1) [of cache "disk w ! i" "mem c"] pl s m by (simp add: places_def)
  let ?m1 = "?m[csec := 0, csec + 1 := of_int (int i), dirty := 0]"
  let ?c1 = "c\<lparr>mem := ?m1\<rparr>"
  have wr: "cpu_wr c2 (int csec + 1) v = Inr (c2\<lparr>mem := (mem c2)[csec + 1 := of_int v]\<rparr>)" if "shape c2" for c2 v
    using cpu_wr_nat [OF that, of "csec + 1"] pl by (simp add: places_def add.commute)
  have e: "load_in cache csec dirty (int i) c w = Inr (?c1, w\<lparr>reads := reads w + 1\<rparr>)"
    using pl c d(1) i lm m by (simp add: load_in_def py_index_def Let_def cpu_wr_nat wr shape_def places_def)
  have "unat (of_nat i :: 8 word) = i" using i by (simp add: unat_of_nat take_bit_nat_eq_self NSEC_def)
  then have "current csec ?c1 = i" "mem ?c1 ! dirty = 0"
    using pl lm by (simp_all add: current_def places_def nth_list_update)
  moreover have "window cache ?c1 = disk w ! i"
  proof -
    have "window cache ?c1 = take 512 (drop cache ?m)"
      using window_frame [of cache "?c1" "c\<lparr>mem := ?m\<rparr>"] pl lm
      by (auto simp: window_def places_def nth_list_update)
    then show ?thesis using nth_put_slice(2) [of cache "disk w ! i" "mem c"] s pl m by (simp add: places_def)
  qed
  moreover have "mem ?c1 ! a = mem c ! a" if "a < cache \<or> cache + 512 \<le> a" "a \<notin> {csec, csec + 1, dirty}" for a
    using that nth_put_slice(3) [of cache "disk w ! i" "mem c" a] s pl m by (simp add: places_def)
  moreover have "shape ?c1" using c lm by (simp add: shape_def)
  ultimately show ?thesis using e by auto
qed

section \<open>The hook on the effective table\<close>

lemma sim_ok_cong:
  assumes "sim_ok cache csec dirty c w" and "mem c1 = mem c" and "shape c1" and "disk w1 = disk w"
  shows "sim_ok cache csec dirty c1 w1"
    and "sectors_of cache csec dirty c1 w1 = sectors_of cache csec dirty c w"
    and "current csec c1 = current csec c" and "window cache c1 = window cache c"
  using assms by (simp_all add: sim_ok_def sectors_of_def current_def window_def)

text \<open>The addresses a load may change.\<close>

definition private_to :: "nat \<Rightarrow> nat \<Rightarrow> nat \<Rightarrow> nat \<Rightarrow> bool" where
  "private_to cache csec dirty a \<longleftrightarrow> cache \<le> a \<and> a < cache + 512 \<or> a \<in> {csec, csec + 1, dirty}"

lemma fls_load:
  assumes pl: "places cache csec dirty" and ok: "sim_ok cache csec dirty c w"
    and f: "\<not> fail_next w" and r: "word16 (reg c 13)" and i: "reg c 13 div 256 = int i" "i < NSEC"
  shows "\<exists>c1 w1. fls cache csec dirty c w = Returned c1 w1 \<and> sim_ok cache csec dirty c1 w1
     \<and> sectors_of cache csec dirty c1 w1 = sectors_of cache csec dirty c w
     \<and> current csec c1 = i \<and> window cache c1 = sectors_of cache csec dirty c w ! i
     \<and> carry c1 = 0 \<and> fail_next w1 = fail_next w
     \<and> (\<forall>n<16. n \<notin> {7, 8, 12, 15} \<longrightarrow> reg c1 n = reg c n)
     \<and> (\<forall>a. \<not> private_to cache csec dirty a \<longrightarrow> mem c1 ! a = mem c ! a)"
proof -
  have c: "shape c" and d: "length (disk w) = NSEC" using ok by (simp_all add: sim_ok_def)
  have cur: "cpu_rd16 c (int csec) = Inr (int (current csec c))"
    using cpu_rd16_nat [OF c] pl by (simp add: places_def)
  have ri: "drop_bit 8 (reg c 13) = int i" using i(1) by (simp add: drop_bit_eq_div)
  let ?S = "sectors_of cache csec dirty c w"
  have "\<exists>c2 w2. (if int (current csec c) \<noteq> int i
        then bind_res (write_back cache dirty (int (current csec c)) c w) (\<lambda>(c, w).
             load_in cache csec dirty (int i) c w)
        else Inr (c, w)) = Inr (c2, w2) \<and> sim_ok cache csec dirty c2 w2
     \<and> sectors_of cache csec dirty c2 w2 = ?S \<and> current csec c2 = i \<and> window cache c2 = ?S ! i
     \<and> fail_next w2 = fail_next w \<and> (\<forall>n<16. n \<noteq> 12 \<longrightarrow> reg c2 n = reg c n)
     \<and> (\<forall>a. \<not> private_to cache csec dirty a \<longrightarrow> mem c2 ! a = mem c ! a)"
  proof (cases "current csec c = i")
    case True
    then show ?thesis using ok d i(2) by (auto simp: sectors_of_def sim_ok_def NSEC_def)
  next
    case False
    obtain c2 w2 where wb: "write_back cache dirty (int (current csec c)) c w = Inr (c2, w2)"
      "disk w2 = ?S" "fail_next w2 = fail_next w" "mem c2 = mem c" "shape c2"
      "\<forall>n<16. n \<noteq> 12 \<longrightarrow> reg c2 n = reg c n"
      using write_back_sectors [OF pl ok] by blast
    have S: "length (disk w2) = NSEC" "\<forall>s\<in>set (disk w2). length s = 512"
      using length_sectors [OF pl ok] wb(2) by auto
    obtain c3 where "load_in cache csec dirty (int i) c2 w2 = Inr (c3, w2\<lparr>reads := reads w2 + 1\<rparr>)"
      "current csec c3 = i" "mem c3 ! dirty = 0" "window cache c3 = ?S ! i" "shape c3" "regs c3 = regs c2"
      "\<forall>a. a < cache \<or> cache + 512 \<le> a \<longrightarrow> a \<notin> {csec, csec + 1, dirty} \<longrightarrow> mem c3 ! a = mem c ! a"
      using load_in_sectors [OF pl wb(5) S i(2)] wb(2,4) by auto
    then show ?thesis
      using False wb S i(2)
      by (intro exI [of _ c3] exI [of _ "w2\<lparr>reads := reads w2 + 1\<rparr>"])
        (auto simp: sim_ok_def sectors_of_def private_to_def reg_def)
  qed
  then obtain c2 w2 where b: "(if int (current csec c) \<noteq> int i
        then bind_res (write_back cache dirty (int (current csec c)) c w) (\<lambda>(c, w).
             load_in cache csec dirty (int i) c w)
        else Inr (c, w)) = Inr (c2, w2)" and ok2: "sim_ok cache csec dirty c2 w2"
    and S2: "sectors_of cache csec dirty c2 w2 = ?S" "current csec c2 = i" "window cache c2 = ?S ! i"
      "fail_next w2 = fail_next w" "\<forall>n<16. n \<noteq> 12 \<longrightarrow> reg c2 n = reg c n"
      "\<forall>a. \<not> private_to cache csec dirty a \<longrightarrow> mem c2 ! a = mem c ! a" by blast
  obtain c3 w3 where s: "scramble c2 w2 = (c3, w3)" by fastforce
  note fr = scramble_frame [OF s]
  have c2: "shape c2" using ok2 by (simp add: sim_ok_def)
  let ?c = "c3\<lparr>carry := 0\<rparr>"
  have sh: "shape ?c" using fr(5) [OF c2] by (simp add: shape_def)
  note cong = sim_ok_cong [OF ok2 _ sh, of w3]
  have e: "fls cache csec dirty c w = Returned ?c w3"
    using f b s by (simp add: fls_def fls_res_def cur ri)
  show ?thesis
    using e cong S2 fr c2 by (intro exI [of _ ?c] exI [of _ w3]) (auto simp: reg_def)
qed

end
