(* ===== verification/Sector_Cache.thy ===== *)
theory Sector_Cache
  imports Sim_Disk Fat_Table
begin

text \<open>
  The hook of \<open>tools/fat12-proto/sim12.py\<close> as a cache of the table: whatever sector it loads,
  the table with the changes the cache still holds stays the same.
\<close>

section \<open>A table in sectors\<close>

lemma length_concat_sectors:
  "\<forall>s\<in>set xss. length s = 512 \<Longrightarrow> length (concat xss) = 512 * length xss"
  by (induction xss) auto

lemma nth_concat_sectors:
  "\<forall>s\<in>set xss. length s = 512 \<Longrightarrow> p < 512 * length xss \<Longrightarrow> concat xss ! p = xss ! (p div 512) ! (p mod 512)"
proof (induction xss arbitrary: p)
  case (Cons s xss)
  show ?case
  proof (cases "p < 512")
    case False
    then have "p div 512 = Suc ((p - 512) div 512)" "p mod 512 = (p - 512) mod 512"
      by (simp_all add: le_div_geq le_mod_geq)
    then show ?thesis using Cons False by (simp add: nth_append)
  qed (use Cons in \<open>simp add: nth_append\<close>)
qed simp

section \<open>Properties\<close>

lemma sector_of_concat:
  "\<forall>s\<in>set xss. length s = 512 \<Longrightarrow> i < length xss \<Longrightarrow> take 512 (drop (512 * i) (concat xss)) = xss ! i"
proof (induction xss arbitrary: i)
  case (Cons s xss)
  then show ?case by (cases i) simp_all
qed simp

lemma fls_effective:
  assumes pl: "places cache csec dirty" and ok: "sim_ok cache csec dirty c w" and f: "\<not> fail_next w"
    and r: "0 \<le> reg c 13" "reg c 13 < 256 * int NSEC"
    and e: "effective_at cache csec dirty c w = Inr fat"
  shows "\<exists>c1 w1. fls cache csec dirty c w = Returned c1 w1 \<and> sim_ok cache csec dirty c1 w1
    \<and> effective_at cache csec dirty c1 w1 = Inr fat
    \<and> window cache c1 = take 512 (drop (512 * nat (reg c 13 div 256)) fat) \<and> carry c1 = 0
    \<and> (\<forall>n<16. n \<notin> {7, 8, 12, 15} \<longrightarrow> reg c1 n = reg c n)
    \<and> (\<forall>a. \<not> private_to cache csec dirty a \<longrightarrow> mem c1 ! a = mem c ! a) \<and> fail_next w1 = fail_next w"
proof -
  define i where "i = nat (reg c 13 div 256)"
  have i: "reg c 13 div 256 = int i" "i < NSEC"
    using r by (simp_all add: i_def pos_imp_zdiv_nonneg_iff NSEC_def)
  have "word16 (reg c 13)" using r by (simp add: word16_def NSEC_def)
  from fls_load [OF pl ok f this i] obtain c1 w1 where *: "fls cache csec dirty c w = Returned c1 w1"
    "sim_ok cache csec dirty c1 w1" "sectors_of cache csec dirty c1 w1 = sectors_of cache csec dirty c w"
    "window cache c1 = sectors_of cache csec dirty c w ! i" "carry c1 = 0"
    "\<forall>n<16. n \<notin> {7, 8, 12, 15} \<longrightarrow> reg c1 n = reg c n"
    "\<forall>a. \<not> private_to cache csec dirty a \<longrightarrow> mem c1 ! a = mem c ! a" "fail_next w1 = fail_next w" by blast
  have fat: "fat = concat (sectors_of cache csec dirty c w)"
    using effective_at_sectors [OF pl ok] e by simp
  have "take 512 (drop (512 * i) fat) = sectors_of cache csec dirty c w ! i"
    unfolding fat by (rule sector_of_concat) (use length_sectors [OF pl ok] i(2) in auto)
  moreover have "effective_at cache csec dirty c1 w1 = Inr fat"
    using effective_at_sectors [OF pl *(2)] *(3) fat by simp
  ultimately show ?thesis using * by (intro exI [of _ c1] exI [of _ w1]) (simp add: i_def)
qed

text \<open>
  C31. The hook is a cache and nothing else: for every sector of the table it succeeds, the
  table the kernel sees is the same before and after, the requested sector of that table is
  in the cache, the flag tells success, and besides the cache and its two variables only
  the registers R7, R8, RC and RF change.
\<close>

theorem hook_keeps_the_table:
  assumes pl: "places cache csec dirty" and ok: "sim_ok cache csec dirty c w" and f: "\<not> fail_next w"
    and r: "0 \<le> reg c 13" "reg c 13 < 256 * int NSEC"
    and e: "effective_at cache csec dirty c w = Inr fat"
  shows "\<exists>c1 w1. fls cache csec dirty c w = Returned c1 w1 \<and> sim_ok cache csec dirty c1 w1
    \<and> effective_at cache csec dirty c1 w1 = Inr fat
    \<and> window cache c1 = take 512 (drop (512 * nat (reg c 13 div 256)) fat) \<and> carry c1 = 0
    \<and> (\<forall>n<16. n \<notin> {7, 8, 12, 15} \<longrightarrow> reg c1 n = reg c n)
    \<and> (\<forall>a. \<not> private_to cache csec dirty a \<longrightarrow> mem c1 ! a = mem c ! a)"
  using fls_effective [OF assms] by blast

text \<open>The state the test starts in: nothing cached yet, on a disk of zero bytes.\<close>

definition fresh_cpu :: cpu where
  "fresh_cpu = (cpu_init [])\<lparr>mem := (replicate 65536 0)[0x2000 := 0xFF, 0x2001 := 0xFF]\<rparr>"

lemma fresh_ok:
  "places 0x1000 0x2000 0x2002" "sim_ok 0x1000 0x2000 0x2002 fresh_cpu (world_init (\<lambda>_. 0))"
  "\<not> fail_next (world_init (\<lambda>_. 0))" "reg fresh_cpu 13 = 0"
  "effective_at 0x1000 0x2000 0x2002 fresh_cpu (world_init (\<lambda>_. 0)) = Inr (concat (disk (world_init (\<lambda>_. 0))))"
  "length (concat (disk (world_init (\<lambda>_. 0)))) = 6144"
proof -
  show pl: "places 0x1000 0x2000 0x2002" by (simp add: places_def)
  have m: "mem fresh_cpu ! 0x2000 = 0xFF" "mem fresh_cpu ! 0x2001 = 0xFF" "mem fresh_cpu ! 0x2002 = 0"
    by (simp_all add: fresh_cpu_def)
  show ok: "sim_ok 0x1000 0x2000 0x2002 fresh_cpu (world_init (\<lambda>_. 0))"
    using m by (auto simp: sim_ok_def current_def world_init_def)
      (simp add: shape_def fresh_cpu_def cpu_init_def)
  show "\<not> fail_next (world_init (\<lambda>_. 0))" "reg fresh_cpu 13 = 0"
    by (simp_all add: world_init_def fresh_cpu_def cpu_init_def reg_def)
  show "effective_at 0x1000 0x2000 0x2002 fresh_cpu (world_init (\<lambda>_. 0)) = Inr (concat (disk (world_init (\<lambda>_. 0))))"
    using effective_at_sectors [OF pl ok] m by (simp add: sectors_of_def)
  show "length (concat (disk (world_init (\<lambda>_. 0)))) = 6144"
    by (subst length_concat_sectors) (auto simp: world_init_def NSEC_def)
qed

theorem hook_keeps_the_table_witness:
  "\<exists>c1 w1. fls 0x1000 0x2000 0x2002 fresh_cpu (world_init (\<lambda>_. 0)) = Returned c1 w1
    \<and> effective_at 0x1000 0x2000 0x2002 c1 w1 = Inr (concat (disk (world_init (\<lambda>_. 0)))) \<and> carry c1 = 0"
  using hook_keeps_the_table [OF fresh_ok(1,2,3) _ _ fresh_ok(5)] fresh_ok(4) by (auto simp: NSEC_def)

end
