(* ===== verification/Sim_Test.thy ===== *)
theory Sim_Test
  imports Sector_Cache
begin

text \<open>
  The test driver of \<open>tools/fat12-proto/sim12.py\<close>: the symbol file, the image with its
  patches, the call of a kernel routine, the trials and the two loops. The image, the symbol
  lines and the random numbers are parameters. A program here is a result that may also be
  missing, \<open>None\<close>, when a call does not end.
\<close>

section \<open>Symbols and image\<close>

definition is_lower_hex :: "char \<Rightarrow> bool" where
  "is_lower_hex c \<longleftrightarrow> is_dec c \<or> 97 \<le> code c \<and> code c \<le> 102"

definition sim_symbol :: "string \<Rightarrow> (string \<times> nat) option" where
  "sim_symbol l =
     (let s = strip l; name = takeWhile (\<lambda>c. \<not> is_space c) s;
          r = dropWhile (\<lambda>c. \<not> is_space c) s; v = skip_ws r
      in if name \<noteq> [] \<and> r \<noteq> [] \<and> length v = 4 \<and> list_all is_lower_hex v
         then Some (name, from_digits 16 v) else None)"

definition sim_syms :: "string list \<Rightarrow> nat dict" where
  "sim_syms ls = foldl (\<lambda>d l. case sim_symbol l of None \<Rightarrow> d | Some (k, v) \<Rightarrow> dict_set k v d) [] ls"

text \<open>\<open>s.split(c)\<close>.\<close>

fun split_on :: "char \<Rightarrow> string \<Rightarrow> string list" where
  "split_on c [] = [[]]"
| "split_on c (x # s) = (if x = c then [] # split_on c s
     else case split_on c s of p # ps \<Rightarrow> (x # p) # ps | [] \<Rightarrow> [[x]])"

text \<open>One patch \<open>address=value\<close>, both hexadecimal, and the environment's list of patches.\<close>

definition patch_one :: "byte list \<Rightarrow> string \<Rightarrow> byte list res" where
  "patch_one img p = (case split_on (CHR ''='') p of
       [a, v] \<Rightarrow> (case int_16 v of
           None \<Rightarrow> Inl ValueError
         | Some x \<Rightarrow> (case int_16 a of
             None \<Rightarrow> Inl ValueError
           | Some n \<Rightarrow>
               let i = n - 0x100; k = (if i < 0 then i + int (length img) else i) in
               if k < 0 \<or> int (length img) \<le> k then Inl IndexError
               else if x < 0 \<or> 256 \<le> x then Inl ValueError
               else Inr (img[nat k := of_int x])))
     | _ \<Rightarrow> Inl ValueError)"

fun patch_all :: "byte list \<Rightarrow> string list \<Rightarrow> byte list res" where
  "patch_all img [] = Inr img"
| "patch_all img (p # ps) = bind_res (patch_one img p) (\<lambda>img. patch_all img ps)"

definition patched :: "byte list \<Rightarrow> string \<Rightarrow> byte list res" where
  "patched img env = patch_all img (filter (\<lambda>p. p \<noteq> []) (split_on (CHR '','') env))"

section \<open>A call\<close>

type_synonym 'a prog = "'a res option"

definition bind_prog :: "'a prog \<Rightarrow> ('a \<Rightarrow> 'b prog) \<Rightarrow> 'b prog" where
  "bind_prog m f = (case m of None \<Rightarrow> None | Some (Inl e) \<Rightarrow> Some (Inl e) | Some (Inr x) \<Rightarrow> f x)"

lemma bind_prog_simps [simp]:
  "bind_prog None f = None" "bind_prog (Some (Inl e)) f = Some (Inl e)" "bind_prog (Some (Inr x)) f = f x"
  by (simp_all add: bind_prog_def)

lemma bind_prog_Inr:
  "bind_prog m f = Some (Inr y) \<longleftrightarrow> (\<exists>x. m = Some (Inr x) \<and> f x = Some (Inr y))"
  by (auto simp: bind_prog_def split: option.split sum.split)

text \<open>The state of the test: \<open>c\<close>, \<open>w\<close>, \<open>fails\<close> and \<open>n\<close>.\<close>

record test =
  t_cpu :: cpu
  t_world :: world
  t_fails :: nat
  t_n :: nat

text \<open>An uncaught exception ends the program; the hook of this driver raises no \<open>Stop\<close>.\<close>

definition to_prog :: "world outcome option \<Rightarrow> (cpu \<times> world) prog" where
  "to_prog r = map_option (\<lambda>out. case out of
       Returned c w \<Rightarrow> Inr (c, w) | Raised e \<Rightarrow> Inl e | Stopped c w \<Rightarrow> Inl (RuntimeError ''Stop'')) r"

fun randomize :: "nat list \<Rightarrow> cpu \<Rightarrow> world \<Rightarrow> cpu \<times> world" where
  "randomize [] c w = (c, w)"
| "randomize (k # ks) c w = (let (x, w) = getrandbits 16 w in randomize ks (set_reg k (int x) c) w)"

definition call :: "nat dict \<Rightarrow> cpu \<Rightarrow> world \<Rightarrow> nat \<Rightarrow> int \<Rightarrow> int \<Rightarrow> (cpu \<times> world) prog" where
  "call syms c w entry rd rb =
     (let (c, w) = randomize [0..<16] c w;
          c = set_reg 11 rb (set_reg 13 rd ((set_reg 2 0x7F00 c)\<lparr>xsel := 2\<rparr>));
          c = set_reg 6 SENT (c\<lparr>steps := 0\<rparr>) in
      bind_prog (Some (push16 0x1234 c)) (\<lambda>c.
      let c = set_reg 3 (int entry) c; (x, w) = getrandbits 8 w; (y, w) = getrandbits 1 w;
          c = c\<lparr>acc := int x, carry := int y\<rparr> in
      bind_prog (Some (dict_get syms ''_fat_load_sector'')) (\<lambda>a.
      bind_prog (Some (mk_hook syms)) (\<lambda>h.
      to_prog (run (\<lambda>pc. if pc = int a then Some h else None) c w)))))"

section \<open>Trials\<close>

text \<open>\<open>random.random() < p\<close> for a threshold of 53 bits, \<open>random.randint\<close> and \<open>random.choice\<close>.\<close>

definition chance :: "nat \<Rightarrow> world \<Rightarrow> bool \<times> world" where
  "chance p w = (let (x, w) = getrandbits 53 w in (2 * x < p, w))"

definition randint :: "nat \<Rightarrow> nat \<Rightarrow> world \<Rightarrow> nat \<times> world" where
  "randint a b w = (let (x, w) = draw w in (a + x mod (b - a + 1), w))"

definition choice :: "'a list \<Rightarrow> world \<Rightarrow> 'a \<times> world" where
  "choice xs w = (let (x, w) = draw w in (xs ! (x mod length xs), w))"

definition maxcl :: "bool \<Rightarrow> nat" where
  "maxcl f16 = (if f16 then NSEC * 256 - 1 else (NSEC * 512 * 2) div 3 - 2)"

definition straddle :: "bool \<Rightarrow> nat list" where
  "straddle f16 = (if f16 then [255, 256, 511, 512]
     else filter (\<lambda>cl. (cl + cl div 2) mod 512 = 511) [2..<maxcl f16])"

text \<open>The doubles 0.2 and 0.5, in units of \<open>2^-54\<close>.\<close>

definition pick_cluster :: "bool \<Rightarrow> world \<Rightarrow> nat \<times> world" where
  "pick_cluster f16 w =
     (let (b, w) = chance 3602879701896397 w in if b then choice (straddle f16) w else randint 2 (maxcl f16) w)"

definition pick_value :: "bool \<Rightarrow> world \<Rightarrow> nat \<times> world" where
  "pick_value f16 w =
     (let (a, w) = randint 2 (maxcl f16) w; (b, w) = getrandbits 16 w
      in choice [0, 0xFFF8, 0xFFFF, 0xFFF7, a, b] w)"

definition ref_get :: "bool \<Rightarrow> byte list \<Rightarrow> nat \<Rightarrow> nat res" where
  "ref_get f16 fat cl = (if f16 then ref_get16 fat cl else ref_get12 fat cl)"

definition ref_set :: "bool \<Rightarrow> byte list \<Rightarrow> nat \<Rightarrow> nat \<Rightarrow> byte list res" where
  "ref_set f16 fat cl v = (if f16 then ref_set16 fat cl v else ref_set12 fat cl v)"

definition check_stack :: "test \<Rightarrow> test" where
  "check_stack t = (if reg (t_cpu t) 2 \<noteq> 0x7F00 then t\<lparr>t_fails := t_fails t + 1\<rparr> else t)"

text \<open>Whether a call failed: the flag, RD, RB, and the effective table, looked at in this order.\<close>

definition call_failed :: "nat dict \<Rightarrow> cpu \<Rightarrow> world \<Rightarrow> nat \<Rightarrow> nat \<Rightarrow> byte list \<Rightarrow> bool res" where
  "call_failed syms c w rd rb fat =
     (if carry c \<noteq> 0 \<or> reg c 13 \<noteq> int rd \<or> reg c 11 \<noteq> int rb then Inr True
      else bind_res (effective syms c w) (\<lambda>e. Inr (e \<noteq> fat)))"

definition counted :: "test \<Rightarrow> cpu \<Rightarrow> world \<Rightarrow> bool \<Rightarrow> test" where
  "counted t c w failed =
     t\<lparr>t_cpu := c, t_world := w, t_n := t_n t + 1, t_fails := t_fails t + (if failed then 1 else 0)\<rparr>"

definition get_trial :: "bool \<Rightarrow> nat dict \<Rightarrow> byte list \<Rightarrow> nat \<Rightarrow> test \<Rightarrow> test prog" where
  "get_trial f16 syms fat cl t =
     (let (rb, w) = getrandbits 16 (t_world t) in
      bind_prog (Some (dict_get syms ''fat_get'')) (\<lambda>entry.
      bind_prog (call syms (t_cpu t) w entry (int cl) (int rb)) (\<lambda>(c, w).
      bind_prog (Some (ref_get f16 fat cl)) (\<lambda>exp.
      bind_prog (Some (call_failed syms c w exp rb fat)) (\<lambda>failed.
      Some (Inr (check_stack (counted t c w failed))))))))"

definition set_trial :: "bool \<Rightarrow> nat dict \<Rightarrow> byte list \<Rightarrow> nat \<Rightarrow> test \<Rightarrow> test prog" where
  "set_trial f16 syms fat cl t =
     (let (v, w) = pick_value f16 (t_world t) in
      bind_prog (Some (dict_get syms ''fat_set'')) (\<lambda>entry.
      bind_prog (call syms (t_cpu t) w entry (int cl) (int v)) (\<lambda>(c, w).
      bind_prog (Some (ref_set f16 fat cl v)) (\<lambda>exp.
      bind_prog (Some (call_failed syms c w cl v exp)) (\<lambda>failed.
      Some (Inr (check_stack (counted t c w failed))))))))"

definition trial :: "bool \<Rightarrow> nat dict \<Rightarrow> test \<Rightarrow> test prog" where
  "trial f16 syms t =
     bind_prog (Some (effective syms (t_cpu t) (t_world t))) (\<lambda>fat.
     let (cl, w) = pick_cluster f16 (t_world t); (is_get, w) = chance (2 ^ 53) w; t = t\<lparr>t_world := w\<rparr>
     in if is_get then get_trial f16 syms fat cl t else set_trial f16 syms fat cl t)"

fun test_loop :: "bool \<Rightarrow> nat dict \<Rightarrow> nat \<Rightarrow> test \<Rightarrow> test prog" where
  "test_loop f16 syms 0 t = Some (Inr t)"
| "test_loop f16 syms (Suc k) t = bind_prog (test_loop f16 syms k t) (trial f16 syms)"

section \<open>The failing disk and the program\<close>

text \<open>The cache is emptied before each call of the second loop.\<close>

definition forget :: "nat dict \<Rightarrow> cpu \<Rightarrow> cpu res" where
  "forget syms c =
     bind_res (dict_get syms ''fat_csec'') (\<lambda>csec.
     bind_res (cpu_wr c (int csec) 0xFF) (\<lambda>c.
     bind_res (cpu_wr c (int csec + 1) 0xFF) (\<lambda>c.
     bind_res (dict_get syms ''fat_dirty'') (\<lambda>dirty.
     cpu_wr c (int dirty) 0))))"

definition io_trial :: "bool \<Rightarrow> nat dict \<Rightarrow> nat \<Rightarrow> test \<Rightarrow> test prog" where
  "io_trial f16 syms it t =
     (let (cl, w) = (if it mod 2 \<noteq> 0 then choice (straddle f16) (t_world t)
                     else randint 2 (maxcl f16) (t_world t)) in
      bind_prog (Some (forget syms (t_cpu t))) (\<lambda>c.
      bind_prog (Some (dict_get syms (if it mod 4 < 2 then ''fat_get'' else ''fat_set''))) (\<lambda>entry.
      bind_prog (call syms c (w\<lparr>fail_next := True\<rparr>) entry (int cl) 0) (\<lambda>(c, w).
      Some (Inr (check_stack (counted t c w (carry c \<noteq> 1))))))))"

fun io_loop :: "bool \<Rightarrow> nat dict \<Rightarrow> nat \<Rightarrow> test \<Rightarrow> test prog" where
  "io_loop f16 syms 0 t = Some (Inr t)"
| "io_loop f16 syms (Suc k) t = bind_prog (io_loop f16 syms k t) (io_trial f16 syms k)"

definition sim_start :: "bool \<Rightarrow> nat dict \<Rightarrow> byte list \<Rightarrow> (nat \<Rightarrow> nat) \<Rightarrow> test res" where
  "sim_start f16 syms img r =
     bind_res (dict_get syms ''bpb_fat16'') (\<lambda>a.
     bind_res (cpu_wr (cpu_init img) (int a) (if f16 then 1 else 0)) (\<lambda>c.
     bind_res (forget syms c) (\<lambda>c.
     Inr \<lparr>t_cpu = c, t_world = world_init r, t_fails = 0, t_n = 0\<rparr>)))"

text \<open>The exit status.\<close>

definition sim_main :: "string list \<Rightarrow> byte list \<Rightarrow> string \<Rightarrow> nat \<Rightarrow> bool \<Rightarrow> (nat \<Rightarrow> nat) \<Rightarrow> nat prog" where
  "sim_main sym_lines img patch iter f16 r =
     (let syms = sim_syms sym_lines in
      bind_prog (Some (patched img patch)) (\<lambda>img.
      bind_prog (Some (sim_start f16 syms img r)) (\<lambda>t.
      bind_prog (test_loop f16 syms iter t) (\<lambda>t.
      bind_prog (io_loop f16 syms 2000 t) (\<lambda>t.
      Some (Inr (if t_fails t \<noteq> 0 then 1 else 0)))))))"

section \<open>What the driver draws\<close>

lemma maxcl_eq: "maxcl False = 4094" "maxcl True = 3071"
  by (simp_all add: maxcl_def NSEC_def)

lemma straddle_iff:
  "cl \<in> set (straddle False) \<longleftrightarrow> 2 \<le> cl \<and> cl < maxcl False \<and> (cl + cl div 2) mod 512 = 511"
  by (auto simp: straddle_def)

lemma straddle_nonempty: "straddle f16 \<noteq> []"
proof -
  have "341 \<in> set (straddle False)" unfolding straddle_iff by (simp add: maxcl_eq)
  then have "straddle False \<noteq> []" by (metis empty_iff list.set(1))
  then show ?thesis by (cases f16) (auto simp: straddle_def)
qed

lemma straddle_range: "cl \<in> set (straddle f16) \<Longrightarrow> 2 \<le> cl \<and> cl \<le> maxcl f16"
proof (cases f16)
  case True
  then show "cl \<in> set (straddle f16) \<Longrightarrow> ?thesis" by (auto simp: straddle_def maxcl_eq)
next
  case False
  then show "cl \<in> set (straddle f16) \<Longrightarrow> ?thesis" using straddle_iff [of cl] by simp
qed

lemma choice_in: "xs \<noteq> [] \<Longrightarrow> choice xs w = (x, w1) \<Longrightarrow> x \<in> set xs"
  by (auto simp: choice_def draw_def)

lemma randint_in: "a \<le> b \<Longrightarrow> randint a b w = (x, w1) \<Longrightarrow> a \<le> x \<and> x \<le> b"
proof -
  assume "a \<le> b" and "randint a b w = (x, w1)"
  moreover have "rng w 0 mod (b - a + 1) < b - a + 1" by (rule mod_less_divisor) simp
  ultimately show ?thesis unfolding randint_def draw_def by (simp only: Let_def prod.case prod.inject) linarith
qed

lemma pick_cluster_range:
  assumes "pick_cluster f16 w = (cl, w1)"
  shows "2 \<le> cl \<and> cl \<le> maxcl f16"
proof -
  have m: "2 \<le> maxcl f16" by (simp add: maxcl_def NSEC_def)
  obtain b w0 where b: "chance 3602879701896397 w = (b, w0)" by fastforce
  show ?thesis
  proof (cases b)
    case True
    then have "cl \<in> set (straddle f16)"
      using assms b choice_in [OF straddle_nonempty] by (auto simp: pick_cluster_def)
    then show ?thesis by (rule straddle_range)
  next
    case False
    then show ?thesis using assms b randint_in [OF m] by (auto simp: pick_cluster_def)
  qed
qed

text \<open>
  C33. A cluster the driver draws has its entry inside the table of the model disk, for
  both table types: the reference functions never raise on it, whatever 16-bit value is
  stored. The straddling FAT12 clusters it prefers have their two bytes in different
  sectors.
\<close>

theorem drawn_clusters_have_entries:
  assumes "pick_cluster f16 w = (cl, w1)" and "length fat = 512 * NSEC" and "v < 0x10000"
  shows "(\<exists>x. ref_get f16 fat cl = Inr x) \<and> (\<exists>fat1. ref_set f16 fat cl v = Inr fat1)
    \<and> list_all (\<lambda>s. (s + s div 2) div 512 \<noteq> (s + s div 2 + 1) div 512) (straddle False)"
proof -
  have cl: "cl \<le> maxcl f16" using pick_cluster_range [OF assms(1)] by simp
  have "has12 fat cl" if "\<not> f16"
    using cl that assms(2) by (simp add: has12_def maxcl_eq NSEC_def)
  moreover have "has16 fat cl" if f16
    using cl that assms(2) by (simp add: has16_def maxcl_eq NSEC_def)
  moreover have "(s + s div 2) div 512 \<noteq> (s + s div 2 + 1) div 512" if "(s + s div 2) mod 512 = 511" for s :: nat
    using that by (simp add: div_Suc mod_Suc)
  ultimately show ?thesis
    using r12.get_total [of fat cl] r16.get_total [of fat cl] r12.put_total [of fat cl v]
      r16.put_total [of fat cl v] assms(3)
    by (auto simp: ref_get_def ref_set_def straddle_iff list_all_iff)
qed

theorem drawn_clusters_have_entries_witness:
  "\<exists>x. ref_get False (replicate (512 * NSEC) 0) (fst (pick_cluster False (world_init (\<lambda>_. 0)))) = Inr x"
proof -
  obtain cl w1 where p: "pick_cluster False (world_init (\<lambda>_. 0)) = (cl, w1)" by fastforce
  have "length (replicate (512 * NSEC) 0 :: byte list) = 512 * NSEC" by (rule length_replicate)
  note drawn_clusters_have_entries [OF p this, of 0, THEN conjunct1]
  then have "\<exists>x. ref_get False (replicate (512 * NSEC) 0) cl = Inr x" by (simp only: zero_less_numeral)
  then show ?thesis unfolding p fst_conv .
qed

section \<open>What no failure means\<close>

text \<open>
  A call of \<open>fat_get\<close> on a cluster, from the state \<open>c\<close> and \<open>w\<close> to that of \<open>t1\<close>: it returns
  with the flag clear and the stack balanced, gives the entry of that cluster, keeps RB and
  leaves the effective table alone. A call of \<open>fat_set\<close> keeps both registers and leaves the
  table with the entry of that cluster replaced.
\<close>

definition get_good :: "bool \<Rightarrow> nat dict \<Rightarrow> byte list \<Rightarrow> nat \<Rightarrow> cpu \<Rightarrow> world \<Rightarrow> test \<Rightarrow> bool" where
  "get_good f16 syms fat cl c w t1 \<longleftrightarrow> (\<exists>rb w1 entry v. getrandbits 16 w = (rb, w1)
     \<and> map_of syms ''fat_get'' = Some entry
     \<and> call syms c w1 entry (int cl) (int rb) = Some (Inr (t_cpu t1, t_world t1))
     \<and> carry (t_cpu t1) = 0 \<and> reg (t_cpu t1) 2 = 0x7F00
     \<and> ref_get f16 fat cl = Inr v \<and> reg (t_cpu t1) 13 = int v \<and> reg (t_cpu t1) 11 = int rb
     \<and> effective syms (t_cpu t1) (t_world t1) = Inr fat)"

definition set_good :: "bool \<Rightarrow> nat dict \<Rightarrow> byte list \<Rightarrow> nat \<Rightarrow> cpu \<Rightarrow> world \<Rightarrow> test \<Rightarrow> bool" where
  "set_good f16 syms fat cl c w t1 \<longleftrightarrow> (\<exists>v w1 entry fat1. pick_value f16 w = (v, w1)
     \<and> map_of syms ''fat_set'' = Some entry
     \<and> call syms c w1 entry (int cl) (int v) = Some (Inr (t_cpu t1, t_world t1))
     \<and> carry (t_cpu t1) = 0 \<and> reg (t_cpu t1) 2 = 0x7F00
     \<and> ref_set f16 fat cl v = Inr fat1 \<and> reg (t_cpu t1) 13 = int cl \<and> reg (t_cpu t1) 11 = int v
     \<and> effective syms (t_cpu t1) (t_world t1) = Inr fat1)"

text \<open>One round: the cluster and the kind of call are those drawn from the state before it.\<close>

definition trial_good :: "bool \<Rightarrow> nat dict \<Rightarrow> test \<Rightarrow> test \<Rightarrow> bool" where
  "trial_good f16 syms t t1 \<longleftrightarrow> (\<exists>fat. effective syms (t_cpu t) (t_world t) = Inr fat
     \<and> (let (cl, w) = pick_cluster f16 (t_world t); (is_get, w) = chance (2 ^ 53) w
        in 2 \<le> cl \<and> cl \<le> maxcl f16
          \<and> (if is_get then get_good else set_good) f16 syms fat cl (t_cpu t) w t1))"

lemma call_failed_False:
  "call_failed syms c w rd rb fat = Inr False \<longleftrightarrow>
     carry c = 0 \<and> reg c 13 = int rd \<and> reg c 11 = int rb \<and> effective syms c w = Inr fat"
  by (auto simp: call_failed_def bind_res_eq_Inr split: if_splits)

lemma counted_fails:
  "t_fails t \<le> t_fails (check_stack (counted t c w f))"
  "t_fails (check_stack (counted t c w f)) = t_fails t \<Longrightarrow>
     \<not> f \<and> reg c 2 = 0x7F00 \<and> check_stack (counted t c w f) = counted t c w f"
  by (auto simp: check_stack_def counted_def split: if_splits)

lemma trial_fails:
  assumes "trial f16 syms t = Some (Inr t1)"
  shows "t_fails t \<le> t_fails t1" and "t_fails t1 = t_fails t \<Longrightarrow> trial_good f16 syms t t1"
proof -
  obtain cl w0 where cl: "pick_cluster f16 (t_world t) = (cl, w0)" by fastforce
  obtain b w1 where b: "chance (2 ^ 53) w0 = (b, w1)" by fastforce
  obtain fat where e: "effective syms (t_cpu t) (t_world t) = Inr fat"
    and r: "(if b then get_trial f16 syms fat cl (t\<lparr>t_world := w1\<rparr>)
             else set_trial f16 syms fat cl (t\<lparr>t_world := w1\<rparr>)) = Some (Inr t1)"
    using assms unfolding trial_def bind_prog_Inr cl b by (auto simp: Let_def cl b simp del: power_numeral)
  have "\<exists>c w f. t1 = check_stack (counted (t\<lparr>t_world := w1\<rparr>) c w f)
     \<and> (t_cpu t1 = c \<longrightarrow> t_world t1 = w \<longrightarrow> \<not> f \<longrightarrow> reg c 2 = 0x7F00 \<longrightarrow>
          (if b then get_good else set_good) f16 syms fat cl (t_cpu t) w1 t1)"
  proof (cases b)
    case True
    obtain rb w2 where rb: "getrandbits 16 w1 = (rb, w2)" by fastforce
    from True r obtain entry c w exp f where "map_of syms ''fat_get'' = Some entry"
      "call syms (t_cpu t) w2 entry (int cl) (int rb) = Some (Inr (c, w))" "ref_get f16 fat cl = Inr exp"
      "call_failed syms c w exp rb fat = Inr f" "t1 = check_stack (counted (t\<lparr>t_world := w1\<rparr>) c w f)"
      by (auto simp: get_trial_def bind_prog_Inr rb dict_get_eq_Inr)
    with rb True show ?thesis
      by (intro exI [of _ c] exI [of _ w] exI [of _ f])
        (auto simp: get_good_def call_failed_False simp del: split_paired_Ex)
  next
    case False
    obtain v w2 where v: "pick_value f16 w1 = (v, w2)" by fastforce
    from False r obtain entry c w exp f where "map_of syms ''fat_set'' = Some entry"
      "call syms (t_cpu t) w2 entry (int cl) (int v) = Some (Inr (c, w))" "ref_set f16 fat cl v = Inr exp"
      "call_failed syms c w cl v exp = Inr f" "t1 = check_stack (counted (t\<lparr>t_world := w1\<rparr>) c w f)"
      by (auto simp: set_trial_def bind_prog_Inr v dict_get_eq_Inr)
    with v False show ?thesis
      by (intro exI [of _ c] exI [of _ w] exI [of _ f])
        (auto simp: set_good_def call_failed_False simp del: split_paired_Ex)
  qed
  then obtain c w f where t1: "t1 = check_stack (counted (t\<lparr>t_world := w1\<rparr>) c w f)"
    and g: "t_cpu t1 = c \<Longrightarrow> t_world t1 = w \<Longrightarrow> \<not> f \<Longrightarrow> reg c 2 = 0x7F00 \<Longrightarrow>
          (if b then get_good else set_good) f16 syms fat cl (t_cpu t) w1 t1"
    by blast
  note cf = counted_fails [of "t\<lparr>t_world := w1\<rparr>" c w f]
  show "t_fails t \<le> t_fails t1" using cf(1) t1 by simp
  assume "t_fails t1 = t_fails t"
  then have "\<not> f" "reg c 2 = 0x7F00" "t_cpu t1 = c" "t_world t1 = w"
    using cf(2) t1 by (auto simp: counted_def)
  with g have "(if b then get_good else set_good) f16 syms fat cl (t_cpu t) w1 t1" by blast
  then show "trial_good f16 syms t t1"
    using e pick_cluster_range [OF cl] unfolding trial_good_def cl b Let_def prod.case by blast
qed

text \<open>A loop that counts no failure counts none in any of its rounds.\<close>

locale rounds =
  fixes loop :: "nat \<Rightarrow> test \<Rightarrow> test prog" and round :: "nat \<Rightarrow> test \<Rightarrow> test prog"
  assumes loop_0: "loop 0 t = Some (Inr t)"
    and loop_Suc: "loop (Suc k) t = bind_prog (loop k t) (round k)"
    and round_counts: "round k t = Some (Inr t1) \<Longrightarrow> t_fails t \<le> t_fails t1"
begin

lemma loop_counts: "loop n t = Some (Inr t1) \<Longrightarrow> t_fails t \<le> t_fails t1"
proof (induction n arbitrary: t1)
  case (Suc n)
  then obtain s where "loop n t = Some (Inr s)" "round n s = Some (Inr t1)"
    by (auto simp: loop_Suc bind_prog_Inr)
  with Suc.IH round_counts show ?case by (metis le_trans)
qed (simp add: loop_0)

lemma no_failure_in_round:
  assumes "loop n t = Some (Inr t1)" and "t_fails t1 = t_fails t" and "k < n"
  shows "\<exists>s1 s2. loop k t = Some (Inr s1) \<and> round k s1 = Some (Inr s2) \<and> t_fails s2 = t_fails s1"
  using assms
proof (induction n arbitrary: t1)
  case (Suc n)
  then obtain s where s: "loop n t = Some (Inr s)" "round n s = Some (Inr t1)"
    by (auto simp: loop_Suc bind_prog_Inr)
  have f: "t_fails s = t_fails t" "t_fails t1 = t_fails s"
    using loop_counts [OF s(1)] round_counts [OF s(2)] Suc.prems(2) by simp_all
  show ?case
  proof (cases "k = n")
    case True
    then show ?thesis using s f(2) by blast
  next
    case False
    then show ?thesis using Suc.IH [OF s(1) f(1)] Suc.prems(3) by simp
  qed
qed simp

end

interpretation tests: rounds "test_loop f16 syms" "\<lambda>_. trial f16 syms" for f16 syms
  by unfold_locales (simp_all add: trial_fails)

text \<open>
  C34. When the loop ends without counting a failure, every one of its calls did what the
  reference functions say of the cluster drawn for it: called on that cluster, the routine
  returned with the flag clear and the stack balanced, and either gave the entry of the
  cluster, kept RB and left the effective table alone, or kept both registers and left the
  table the reference function computes.
\<close>

theorem no_failure_means_agreement:
  assumes "test_loop f16 syms n t = Some (Inr t1)" and "t_fails t1 = t_fails t" and "k < n"
  shows "\<exists>s1 s2. test_loop f16 syms k t = Some (Inr s1) \<and> trial f16 syms s1 = Some (Inr s2)
    \<and> trial_good f16 syms s1 s2"
  using tests.no_failure_in_round [OF assms] trial_fails(2) by blast

section \<open>The bookkeeping of a call\<close>

lemma randomize_frame:
  "randomize ks c w = (c1, w1) \<Longrightarrow> shape c \<Longrightarrow>
     mem c1 = mem c \<and> shape c1 \<and> disk w1 = disk w \<and> fail_next w1 = fail_next w"
proof (induction ks arbitrary: c w)
  case (Cons k ks)
  obtain x w2 where x: "getrandbits 16 w = (x, w2)" by fastforce
  then have "disk w2 = disk w" "fail_next w2 = fail_next w"
    by (auto simp: getrandbits_def draw_def)
  moreover have "mem (set_reg k (int x) c) = mem c" by (simp add: set_reg_def)
  ultimately show ?case
    using Cons.IH [of "set_reg k (int x) c" w2] Cons.prems x by (simp add: shape_simps)
qed simp

lemma getrandbits_frame:
  "getrandbits k w = (x, w1) \<Longrightarrow> disk w1 = disk w \<and> fail_next w1 = fail_next w"
  by (auto simp: getrandbits_def draw_def)

lemma push16_mem:
  assumes "shape c" and "reg c 2 = 0x7F00"
  shows "\<exists>c1. push16 v c = Inr c1 \<and> shape c1 \<and> reg c1 2 = 0x7EFE
    \<and> (\<forall>n<16. n \<noteq> 2 \<longrightarrow> reg c1 n = reg c n) \<and> (\<forall>a. a \<noteq> 0x7F00 \<longrightarrow> a \<noteq> 0x7EFF \<longrightarrow> mem c1 ! a = mem c ! a)"
  using assms
  by (auto simp: push16_def Let_def cpu_abs) (auto simp: poke_def set_reg_def nth_list_update)

lemma hook_rtn_abs:
  assumes "shape c" and "reg c 2 = 0x7EFE"
  shows "\<exists>c1. hook_rtn c = Inr c1 \<and> reg c1 2 = 0x7F00 \<and> reg c1 3 = reg c 6 \<and> mem c1 = mem c \<and> shape c1
    \<and> carry c1 = carry c \<and> (\<forall>n<16. n \<notin> {2, 3, 6} \<longrightarrow> reg c1 n = reg c n)"
  using assms
  by (auto simp: hook_rtn_def pop16_def Let_def cpu_abs) (auto simp: set_reg_def)

text \<open>Up to the first instruction: the registers the call sets, and memory outside the two
  stack bytes as it was.\<close>

lemma call_enters:
  assumes sh: "shape c" and sy: "map_of syms ''_fat_load_sector'' = Some a"
  shows "\<exists>c1 w1. shape c1 \<and> reg c1 2 = 0x7EFE \<and> reg c1 3 = int entry \<and> reg c1 6 = SENT \<and> reg c1 11 = rb
    \<and> reg c1 13 = rd \<and> (\<forall>k. k \<noteq> 0x7F00 \<longrightarrow> k \<noteq> 0x7EFF \<longrightarrow> mem c1 ! k = mem c ! k)
    \<and> disk w1 = disk w \<and> fail_next w1 = fail_next w
    \<and> (\<forall>h. mk_hook syms = Inr h \<longrightarrow>
          call syms c w entry rd rb = to_prog (run (\<lambda>pc. if pc = int a then Some h else None) c1 w1))"
proof -
  obtain c2 w2 where c2: "randomize [0..<16] c w = (c2, w2)" by fastforce
  note r2 = randomize_frame [OF c2 sh]
  define c3 where "c3 = set_reg 6 SENT ((set_reg 11 rb (set_reg 13 rd ((set_reg 2 0x7F00 c2)\<lparr>xsel := 2\<rparr>)))\<lparr>steps := 0\<rparr>)"
  have len: "length (regs c2) = 16" using r2 by (simp add: shape_def)
  have c3: "shape c3" "reg c3 2 = 0x7F00" "reg c3 13 = rd" "reg c3 11 = rb" "reg c3 6 = SENT" "mem c3 = mem c"
    using r2 len by (auto simp: c3_def shape_def reg_def set_reg_def)
  obtain c4 where c4: "push16 0x1234 c3 = Inr c4" "shape c4" "reg c4 2 = 0x7EFE"
    "\<forall>n<16. n \<noteq> 2 \<longrightarrow> reg c4 n = reg c3 n" "\<forall>a. a \<noteq> 0x7F00 \<longrightarrow> a \<noteq> 0x7EFF \<longrightarrow> mem c4 ! a = mem c3 ! a"
    using push16_mem [OF c3(1,2)] by blast
  obtain x w3 where x: "getrandbits 8 w2 = (x, w3)" by fastforce
  obtain y w4 where y: "getrandbits 1 w3 = (y, w4)" by fastforce
  define c5 where "c5 = (set_reg 3 (int entry) c4)\<lparr>acc := int x, carry := int y\<rparr>"
  have len4: "length (regs c4) = 16" using c4(2) by (simp add: shape_def)
  have c5: "shape c5" "mem c5 = mem c4" "reg c5 3 = int entry" "\<forall>n<16. n \<noteq> 3 \<longrightarrow> reg c5 n = reg c4 n"
    using c4(2) len4 by (auto simp: c5_def shape_def reg_def set_reg_def)
  have "call syms c w entry rd rb = to_prog (run (\<lambda>pc. if pc = int a then Some h else None) c5 w4)"
    if "mk_hook syms = Inr h" for h
    using c2 c4(1) x y sy that
    by (simp add: call_def c3_def [symmetric] c5_def [symmetric] dict_get_def)
  moreover have "disk w4 = disk w" "fail_next w4 = fail_next w"
    using getrandbits_frame [OF x] getrandbits_frame [OF y] r2 by simp_all
  ultimately show ?thesis using c5 c4(3-5) c3 by (intro exI [of _ c5] exI [of _ w4]) simp
qed

text \<open>When the routine called is the hook, the call ends with the return after it.\<close>

lemma hook_call_returns:
  assumes "reg c 3 = int a" and "int a \<noteq> SENT" and "h c w = Returned c1 w1"
    and "shape c1" and "reg c1 2 = 0x7EFE" and "reg c1 6 = SENT"
  shows "\<exists>c2. to_prog (run (\<lambda>pc. if pc = int a then Some h else None) c w) = Some (Inr (c2, w1))
    \<and> reg c2 2 = 0x7F00 \<and> mem c2 = mem c1 \<and> shape c2 \<and> carry c2 = carry c1
    \<and> (\<forall>n<16. n \<notin> {2, 3, 6} \<longrightarrow> reg c2 n = reg c1 n)"
proof -
  let ?hooks = "\<lambda>pc. if pc = int a then Some h else None"
  obtain c2 where c2: "hook_rtn c1 = Inr c2" "reg c2 2 = 0x7F00" "reg c2 3 = SENT" "mem c2 = mem c1" "shape c2"
    "carry c2 = carry c1" "\<forall>n<16. n \<notin> {2, 3, 6} \<longrightarrow> reg c2 n = reg c1 n"
    using hook_rtn_abs [OF assms(4,5)] assms(6) by auto
  have "moves ?hooks (c, w) (c2, w1)"
    by (rule moves.hook [where h = h and ?c1.0 = c1]) (use assms(1-3) c2(1) in simp_all)
  from run_moves [OF this] c2 show ?thesis
    by (intro exI [of _ c2]) (simp add: run_sentinel to_prog_def)
qed

text \<open>The cache and its variables are as before the call, unless the stack lies on them.\<close>

lemma stack_apart:
  assumes pl: "places cache csec dirty" and ok: "sim_ok cache csec dirty c w"
    and st: "\<not> private_to cache csec dirty 0x7F00" "\<not> private_to cache csec dirty 0x7EFF"
    and m: "\<forall>k. k \<noteq> 0x7F00 \<longrightarrow> k \<noteq> 0x7EFF \<longrightarrow> mem c1 ! k = mem c ! k" and sh: "shape c1" and dk: "disk w1 = disk w"
  shows "sim_ok cache csec dirty c1 w1"
    and "effective_at cache csec dirty c1 w1 = effective_at cache csec dirty c w"
proof -
  have p: "mem c1 ! a = mem c ! a" if "private_to cache csec dirty a" for a
    using m st that by metis
  have same: "current csec c1 = current csec c" "mem c1 ! dirty = mem c ! dirty"
    using p [of csec] p [of "csec + 1"] p [of dirty] by (simp_all add: current_def private_to_def)
  have shc: "shape c" using ok by (simp add: sim_ok_def)
  have win: "window cache c1 = window cache c"
    by (rule window_frame) (use p pl sh shc in \<open>auto simp: private_to_def places_def shape_def\<close>)
  show ok1: "sim_ok cache csec dirty c1 w1" using ok same win sh dk by (simp add: sim_ok_def)
  show "effective_at cache csec dirty c1 w1 = effective_at cache csec dirty c w"
    using effective_at_sectors [OF pl ok1] effective_at_sectors [OF pl ok] same win dk
    by (simp add: sectors_of_def)
qed

text \<open>What the hook does on a good and on a failing disk.\<close>

lemma fls_outcome:
  assumes pl: "places cache csec dirty" and ok: "sim_ok cache csec dirty c w"
    and r: "0 \<le> reg c 13" "reg c 13 < 256 * int NSEC" and e: "effective_at cache csec dirty c w = Inr fat"
  shows "\<exists>c1 w1. fls cache csec dirty c w = Returned c1 w1 \<and> sim_ok cache csec dirty c1 w1
    \<and> effective_at cache csec dirty c1 w1 = Inr fat \<and> carry c1 = (if fail_next w then 1 else 0) \<and> \<not> fail_next w1
    \<and> (\<not> fail_next w \<longrightarrow> window cache c1 = take 512 (drop (512 * nat (reg c 13 div 256)) fat))
    \<and> (\<forall>n<16. n \<notin> {7, 8, 12, 15} \<longrightarrow> reg c1 n = reg c n)"
proof (cases "fail_next w")
  case False
  from fls_effective [OF pl ok False r e] False show ?thesis by auto
next
  case True
  obtain c1 w1 where c1: "scramble (c\<lparr>carry := 1\<rparr>) (w\<lparr>fail_next := False\<rparr>) = (c1, w1)" by fastforce
  have "shape (c\<lparr>carry := 1\<rparr>)" using ok by (simp add: sim_ok_def shape_def)
  note sc = scramble_frame [OF c1 this]
  have "mem c1 = mem c" "disk w1 = disk w" using sc by simp_all
  note ok1 = sim_ok_cong [OF ok this(1) sc(5) this(2)]
  have "\<forall>n<16. n \<notin> {7, 8, 12, 15} \<longrightarrow> reg c1 n = reg c n"
    using c1 ok by (auto simp: scramble_def Let_def reg_def set_reg_def split: prod.splits)
  then show ?thesis
    using True c1 sc(2,4) ok1 effective_at_sectors [OF pl ok1(1)] effective_at_sectors [OF pl ok] e
    by (intro exI [of _ c1] exI [of _ w1]) (simp add: fls_def fls_res_def)
qed

lemma call_of_loader:
  assumes sy: "map_of syms ''fat_cache'' = Some cache" "map_of syms ''fat_csec'' = Some csec"
      "map_of syms ''fat_dirty'' = Some dirty" "map_of syms ''_fat_load_sector'' = Some entry"
    and pl: "places cache csec dirty" and ok: "sim_ok cache csec dirty c w"
    and rd: "0 \<le> rd" "rd < 256 * int NSEC" and en: "int entry \<noteq> SENT"
    and st: "\<not> private_to cache csec dirty 0x7F00" "\<not> private_to cache csec dirty 0x7EFF"
    and e: "effective_at cache csec dirty c w = Inr fat"
  shows "\<exists>c1 w1. call syms c w entry rd rb = Some (Inr (c1, w1)) \<and> sim_ok cache csec dirty c1 w1
    \<and> effective_at cache csec dirty c1 w1 = Inr fat \<and> carry c1 = (if fail_next w then 1 else 0) \<and> \<not> fail_next w1
    \<and> (\<not> fail_next w \<longrightarrow> window cache c1 = take 512 (drop (512 * nat (rd div 256)) fat))
    \<and> reg c1 13 = rd \<and> reg c1 11 = rb \<and> reg c1 2 = 0x7F00"
proof -
  let ?h = "fls cache csec dirty"
  have sh: "shape c" using ok by (simp add: sim_ok_def)
  have hk: "mk_hook syms = Inr ?h" using sy by (simp add: mk_hook_def dict_get_def)
  from call_enters [OF sh sy(4), of entry rb rd w] hk obtain c5 w4 where c5: "shape c5" "reg c5 2 = 0x7EFE"
    "reg c5 3 = int entry" "reg c5 6 = SENT" "reg c5 11 = rb" "reg c5 13 = rd"
    "\<forall>k. k \<noteq> 0x7F00 \<longrightarrow> k \<noteq> 0x7EFF \<longrightarrow> mem c5 ! k = mem c ! k"
    and w4: "disk w4 = disk w" "fail_next w4 = fail_next w"
    and run: "call syms c w entry rd rb = to_prog (run (\<lambda>pc. if pc = int entry then Some ?h else None) c5 w4)"
    by blast
  note ok5 = stack_apart [OF pl ok st c5(7,1) w4(1)]
  have "0 \<le> reg c5 13" "reg c5 13 < 256 * int NSEC" using rd c5(6) by simp_all
  from fls_outcome [OF pl ok5(1) this ok5(2) [unfolded e]] w4(2) c5(6)
  obtain c6 w6 where c6: "?h c5 w4 = Returned c6 w6" "sim_ok cache csec dirty c6 w6"
    "effective_at cache csec dirty c6 w6 = Inr fat" "carry c6 = (if fail_next w then 1 else 0)" "\<not> fail_next w6"
    "\<not> fail_next w \<longrightarrow> window cache c6 = take 512 (drop (512 * nat (rd div 256)) fat)"
    "\<forall>n<16. n \<notin> {7, 8, 12, 15} \<longrightarrow> reg c6 n = reg c5 n" by auto
  have c6s: "shape c6" "reg c6 2 = 0x7EFE" "reg c6 6 = SENT"
    using c6(2,7) c5(2,4) by (simp_all add: sim_ok_def)
  from hook_call_returns [where h = ?h, OF c5(3) en c6(1) c6s] run c6(4) obtain c7 where
    c7: "call syms c w entry rd rb = Some (Inr (c7, w6))" "reg c7 2 = 0x7F00" "mem c7 = mem c6" "shape c7"
    "carry c7 = carry c6" "\<forall>n<16. n \<notin> {2, 3, 6} \<longrightarrow> reg c7 n = reg c6 n" by auto
  note ok7 = sim_ok_cong [OF c6(2) c7(3,4) refl]
  have "effective_at cache csec dirty c7 w6 = Inr fat"
    using effective_at_sectors [OF pl ok7(1)] effective_at_sectors [OF pl c6(2)] ok7 c6(3) by simp
  moreover have "window cache c7 = window cache c6" using c7(3) by (simp add: window_def)
  moreover have "reg c7 13 = rd" "reg c7 11 = rb" using c7(6) c6(7) c5(5,6) by simp_all
  ultimately show ?thesis using c7(1,2,5) c6(4-6) ok7(1) by (intro exI [of _ c7] exI [of _ w6]) simp
qed

section \<open>A run of the driver\<close>

text \<open>
  The smallest program the driver accepts: both routines are the hook itself, and the value
  stored is the one the table holds.
\<close>

definition demo_syms :: "nat dict" where
  "demo_syms = [(''fat_cache'', 0x1000), (''fat_csec'', 0x2000), (''fat_dirty'', 0x2002),
     (''_fat_load_sector'', 0x100), (''fat_get'', 0x100), (''fat_set'', 0x100)]"

definition demo_world :: world where
  "demo_world = (world_init (\<lambda>_. 0))\<lparr>rng := (\<lambda>i. if i = 0 \<or> i = 2 then 2 ^ 52 else 0)\<rparr>"

definition demo_test :: test where
  "demo_test = \<lparr>t_cpu = fresh_cpu, t_world = demo_world, t_fails = 0, t_n = 0\<rparr>"

lemma demo_places:
  "map_of demo_syms ''fat_cache'' = Some 0x1000" "map_of demo_syms ''fat_csec'' = Some 0x2000"
  "map_of demo_syms ''fat_dirty'' = Some 0x2002" "map_of demo_syms ''_fat_load_sector'' = Some 0x100"
  by (simp_all add: demo_syms_def)

lemma effective_demo: "effective demo_syms c w = effective_at 0x1000 0x2000 0x2002 c w"
  by (simp add: effective_def demo_syms_def dict_get_def)

lemma demo_draws:
  "\<exists>w1. pick_cluster False demo_world = (2, w1) \<and> rng w1 = (\<lambda>i. if i = 0 then 2 ^ 52 else 0)
     \<and> disk w1 = disk (world_init (\<lambda>_. 0)) \<and> \<not> fail_next w1"
  by (simp add: pick_cluster_def chance_def getrandbits_def draw_def randint_def demo_world_def Let_def fun_eq_iff
      world_init_def)

lemma zero_table: "k < 6144 \<Longrightarrow> concat (disk (world_init (\<lambda>_. 0))) ! k = 0"
  by (subst nth_concat_sectors) (auto simp: world_init_def NSEC_def less_mult_imp_div_less)

lemma demo_set:
  "ref_set12 (concat (disk (world_init (\<lambda>_. 0)))) 2 0 = Inr (concat (disk (world_init (\<lambda>_. 0))))"
proof -
  let ?fat = "concat (disk (world_init (\<lambda>_. 0)))"
  have "has12 ?fat 2" by (simp only: has12_def fresh_ok(6))
  moreover have "?fat[3 := 0, 4 := 0] = ?fat"
    using zero_table [of 3] zero_table [of 4] by (metis list_update_id numeral_less_iff zero_table rel_simps)
  ultimately show ?thesis using zero_table [of 4] by (simp add: ref_set12_eq set12_eq even_lo_def even_hi_def)
qed

theorem no_failure_means_agreement_witness:
  "\<exists>t1. test_loop False demo_syms 1 demo_test = Some (Inr t1) \<and> trial_good False demo_syms demo_test t1"
proof -
  let ?fat = "concat (disk (world_init (\<lambda>_. 0)))"
  obtain w1 where w1: "pick_cluster False demo_world = (2, w1)" "rng w1 = (\<lambda>i. if i = 0 then 2 ^ 52 else 0)"
    "disk w1 = disk (world_init (\<lambda>_. 0))" "\<not> fail_next w1"
    using demo_draws by blast
  obtain w2 where w2: "chance (2 ^ 53) w1 = (False, w2)" "rng w2 = (\<lambda>i. 0)" "disk w2 = disk w1" "\<not> fail_next w2"
    using w1(2,4) by (simp add: chance_def getrandbits_def draw_def Let_def)
  obtain w3 where w3: "pick_value False w2 = (0, w3)" "disk w3 = disk w1" "\<not> fail_next w3"
    using w2 by (simp add: pick_value_def randint_def choice_def getrandbits_def draw_def Let_def)
  have S: "sim_ok 0x1000 0x2000 0x2002 fresh_cpu w" and E: "effective_at 0x1000 0x2000 0x2002 fresh_cpu w = Inr ?fat"
    if "disk w = disk (world_init (\<lambda>_. 0))" for w
  proof -
    have m: "mem fresh_cpu = mem fresh_cpu" "shape fresh_cpu" using fresh_ok(2) by (simp_all add: sim_ok_def)
    note cong = sim_ok_cong [OF fresh_ok(2) m that]
    show "sim_ok 0x1000 0x2000 0x2002 fresh_cpu w" by (rule cong)
    then show "effective_at 0x1000 0x2000 0x2002 fresh_cpu w = Inr ?fat"
      using fresh_ok(1,2,5) cong(2) effective_at_sectors by simp
  qed
  have d: "disk w3 = disk (world_init (\<lambda>_. 0))" using w3(2) w1(3) by simp
  from call_of_loader [OF demo_places fresh_ok(1) S [OF d] _ _ _ _ _ E [OF d], where rd = 2 and rb = 0]
  obtain c w where c: "call demo_syms fresh_cpu w3 0x100 2 0 = Some (Inr (c, w))" "carry c = 0"
    "reg c 13 = 2" "reg c 11 = 0" "reg c 2 = 0x7F00" "effective_at 0x1000 0x2000 0x2002 c w = Inr ?fat"
    using w3(3) by (auto simp: NSEC_def SENT_def private_to_def)
  have "ref_set False ?fat 2 0 = Inr ?fat" using demo_set by (simp add: ref_set_def)
  moreover have "call_failed demo_syms c w 2 0 ?fat = Inr False"
    using c by (simp add: call_failed_False effective_demo)
  moreover have "map_of demo_syms ''fat_set'' = Some 0x100" by (simp add: demo_syms_def)
  moreover have "disk demo_world = disk (world_init (\<lambda>_. 0))" by (simp add: demo_world_def)
  ultimately have t: "trial False demo_syms demo_test
      = Some (Inr (check_stack (counted (demo_test\<lparr>t_world := w2\<rparr>) c w False)))"
    using w1(1) w2(1) w3(1) c(1) E [of demo_world]
    by (simp add: trial_def set_trial_def effective_demo dict_get_def demo_test_def del: power_numeral)
  then have l: "test_loop False demo_syms 1 demo_test
      = Some (Inr (check_stack (counted (demo_test\<lparr>t_world := w2\<rparr>) c w False)))" by simp
  have f: "t_fails (check_stack (counted (demo_test\<lparr>t_world := w2\<rparr>) c w False)) = t_fails demo_test"
    using c(5) by (simp add: check_stack_def counted_def)
  from no_failure_means_agreement [OF l f, of 0] t l show ?thesis by auto
qed

text \<open>
  C32. The driver's own machinery, \<open>call\<close> with its stack and its registers, \<open>run\<close>, the hook
  and the return after it, is sound: calling the sector loader itself always returns. It
  keeps RD and RB, balances the stack and leaves the effective table alone. On a good disk
  the flag is clear and the requested sector is cached; when the disk is set to fail, the
  flag is set, and the failure happens once.
\<close>

theorem loader_call_returns:
  assumes "map_of syms ''fat_cache'' = Some cache" and "map_of syms ''fat_csec'' = Some csec"
    and "map_of syms ''fat_dirty'' = Some dirty" and "map_of syms ''_fat_load_sector'' = Some entry"
    and "places cache csec dirty" and "sim_ok cache csec dirty c w"
    and "0 \<le> rd" and "rd < 256 * int NSEC" and "int entry \<noteq> SENT"
    and "\<not> private_to cache csec dirty 0x7F00" and "\<not> private_to cache csec dirty 0x7EFF"
    and "effective_at cache csec dirty c w = Inr fat"
  shows "\<exists>c1 w1. call syms c w entry rd rb = Some (Inr (c1, w1)) \<and> sim_ok cache csec dirty c1 w1
    \<and> effective_at cache csec dirty c1 w1 = Inr fat \<and> carry c1 = (if fail_next w then 1 else 0) \<and> \<not> fail_next w1
    \<and> (\<not> fail_next w \<longrightarrow> window cache c1 = take 512 (drop (512 * nat (rd div 256)) fat))
    \<and> reg c1 13 = rd \<and> reg c1 11 = rb \<and> reg c1 2 = 0x7F00"
  by (rule call_of_loader [OF assms])

theorem loader_call_returns_witness:
  "\<exists>c1 w1. call demo_syms fresh_cpu (world_init (\<lambda>_. 0)) 0x100 0x300 7 = Some (Inr (c1, w1))
     \<and> carry c1 = 0 \<and> reg c1 13 = 0x300 \<and> reg c1 11 = 7 \<and> reg c1 2 = 0x7F00"
proof -
  have "(0x300 :: int) < 256 * int NSEC" "int 0x100 \<noteq> SENT" "\<not> private_to 0x1000 0x2000 0x2002 0x7F00"
    "\<not> private_to 0x1000 0x2000 0x2002 0x7EFF"
    by (simp_all add: NSEC_def SENT_def private_to_def)
  from loader_call_returns [OF demo_places fresh_ok(1,2) _ this fresh_ok(5), of 7] fresh_ok(3)
  show ?thesis by auto
qed

end
