(* ===== verification/Sim_Scripts.thy ===== *)
theory Sim_Scripts
  imports Sim_Test Fat_Readback
begin

text \<open>
  The other drivers of the simulator in \<open>tools/fat12-proto\<close>: \<open>simb7.py\<close> (the boot code's
  cluster count), \<open>simswd.py\<close> (the table type a drive switch selects) and \<open>simperf.py\<close>
  (instruction counts). The boot code, the kernel image and its symbols, the volumes of
  \<open>mkfs.fat\<close> and the random numbers are parameters; what the scripts print is their result.
  Random numbers are drawn from a \<open>world\<close>, whose disk only \<open>simperf.py\<close> uses.
\<close>

section \<open>simb7.py: the cluster count\<close>

record bpb =
  b_spc :: nat
  b_rsvd :: nat
  b_nf :: nat
  b_roots :: nat
  b_tot16 :: nat
  b_spf :: nat

text \<open>The fields used of \<open>struct.unpack_from('<HBHBHHBH', vbr, 11)\<close>, and the 32-bit fallback.\<close>

definition unpack_bpb :: "byte list \<Rightarrow> bpb res" where
  "unpack_bpb vbr =
     (if length vbr < 24 then Inl StructError
      else
        bind_res (unpack_H vbr 14) (\<lambda>rsvd.
        bind_res (unpack_H vbr 17) (\<lambda>roots.
        bind_res (unpack_H vbr 19) (\<lambda>tot16.
        bind_res (unpack_H vbr 22) (\<lambda>spf16.
        bind_res (if spf16 = 0 then unpack_I vbr 36 else Inr spf16) (\<lambda>spf.
        Inr \<lparr>b_spc = unat (vbr ! 13), b_rsvd = rsvd, b_nf = unat (vbr ! 16), b_roots = roots,
             b_tot16 = tot16, b_spf = spf\<rparr>))))))"

definition data_sector :: "bpb \<Rightarrow> nat \<Rightarrow> nat" where
  "data_sector b part1 =
     (let fat = part1 + b_rsvd b; root = fat + b_nf b * b_spf b in root + drop_bit 4 (b_roots b))"

text \<open>The largest cluster the boot code should find, or \<open>None\<close> for a volume it refuses.\<close>

definition expected_clusters :: "byte list \<Rightarrow> bpb \<Rightarrow> nat \<Rightarrow> int option res" where
  "expected_clusters vbr b part1 =
     bind_res (if b_tot16 b \<noteq> 0 then Inr (b_tot16 b) else unpack_I vbr 32) (\<lambda>tot.
     if b_spc b = 0 then Inl ZeroDivisionError
     else
       let count = (int tot - int (data_sector b part1 - part1)) div int (b_spc b)
       in Inr (if count \<ge> 65525 then None else Some (count + 1)))"

fun bit_length :: "nat \<Rightarrow> nat" where
  "bit_length n = (if n = 0 then 0 else Suc (bit_length (n div 2)))"

declare bit_length.simps [simp del]

definition wr24 :: "cpu \<Rightarrow> int \<Rightarrow> nat \<Rightarrow> cpu res" where
  "wr24 c a v =
     bind_res (cpu_wr c a (int (drop_bit 16 v))) (\<lambda>c.
     bind_res (cpu_wr c (a + 1) (int (drop_bit 8 v))) (\<lambda>c.
     cpu_wr c (a + 2) (int v)))"

definition b7_START :: int where "b7_START = 0x486b"
definition b7_END :: int where "b7_END = 0x48f5"
definition b7_ABSENT :: int where "b7_ABSENT = 0x46c7"
definition b7_SCR :: nat where "b7_SCR = 0x4b8d"
definition b7_P1 :: int where "b7_P1 = 0x4b68"
definition b7_DATA :: int where "b7_DATA = 0x4b71"
definition b7_SHIFT :: int where "b7_SHIFT = 0x4b75"
definition b7_MAXC :: int where "b7_MAXC = 0x4b7b"

text \<open>The processor's memory and registers before the boot code runs.\<close>

definition b7_setup :: "byte list \<Rightarrow> byte list \<Rightarrow> byte list \<Rightarrow> bpb \<Rightarrow> nat \<Rightarrow> world \<Rightarrow> (cpu \<times> world) res" where
  "b7_setup img kb vbr b part1 w =
     (let c = cpu_init img; c = c\<lparr>mem := put_slice (mem c) 0x4400 (0x4400 + length kb) kb\<rparr>;
          c = c\<lparr>mem := put_slice (mem c) b7_SCR (b7_SCR + 512) vbr\<rparr> in
      bind_res (wr24 c b7_P1 part1) (\<lambda>c.
      bind_res (wr24 c b7_DATA (data_sector b part1)) (\<lambda>c.
      bind_res (cpu_wr c b7_SHIFT (int (bit_length (b_spc b)) - 1)) (\<lambda>c.
      let (c, w) = randomize [0..<16] c w
      in Inr (set_reg 3 b7_START ((set_reg 2 0x7F00 c)\<lparr>xsel := 2\<rparr>), w)))))"

definition b7_stop :: "unit hook" where
  "b7_stop c w = Stopped c w"

definition b7_hooks :: "unit hooks" where
  "b7_hooks pc = (if pc = b7_END \<or> pc = b7_ABSENT then Some b7_stop else None)"

text \<open>What the boot code found; a \<open>Stop\<close> is caught.\<close>

definition b7_got :: "cpu \<Rightarrow> int option res" where
  "b7_got c = (if reg c 3 = b7_ABSENT then Inr None else bind_res (cpu_rd16 c b7_MAXC) (\<lambda>v. Inr (Some v)))"

definition b7_run :: "byte list \<Rightarrow> byte list \<Rightarrow> byte list \<Rightarrow> nat \<Rightarrow> world
    \<Rightarrow> ((int option \<times> int option) \<times> world) prog" where
  "b7_run img kb vbr part1 w =
     bind_prog (Some (unpack_bpb vbr)) (\<lambda>b.
     bind_prog (Some (b7_setup img kb vbr b part1 w)) (\<lambda>(c, w).
     case run b7_hooks c () of
       None \<Rightarrow> None
     | Some (Raised e) \<Rightarrow> Some (Inl e)
     | Some (Returned c _) \<Rightarrow>
         bind_prog (Some (b7_got c)) (\<lambda>got.
         bind_prog (Some (expected_clusters vbr b part1)) (\<lambda>exp. Some (Inr ((got, exp), w))))
     | Some (Stopped c _) \<Rightarrow>
         bind_prog (Some (b7_got c)) (\<lambda>got.
         bind_prog (Some (expected_clusters vbr b part1)) (\<lambda>exp. Some (Inr ((got, exp), w))))))"

definition b7_volumes :: "(nat \<times> nat) list" where
  "b7_volumes = [(12, 360), (12, 720), (12, 1440), (12, 2880), (12, 8192), (16, 16384), (16, 32768),
     (16, 511744), (16, 1048576), (16, 2097152), (32, 1048576)]"

definition b7_cases :: "(nat \<times> nat \<times> nat) list" where
  "b7_cases = concat (map (\<lambda>(fat, kb). map (\<lambda>p. (fat, kb, p)) [0, 2048, 0x7FFFF0]) b7_volumes)"

fun b7_loop :: "byte list \<Rightarrow> byte list \<Rightarrow> (nat \<Rightarrow> nat \<Rightarrow> byte list) \<Rightarrow> (nat \<times> nat \<times> nat) list \<Rightarrow> nat
    \<Rightarrow> world \<Rightarrow> nat prog" where
  "b7_loop img kb mkfs [] fails w = Some (Inr fails)"
| "b7_loop img kb mkfs ((fat, size_kb, part1) # cs) fails w =
     bind_prog (b7_run img kb (take 512 (mkfs fat size_kb)) part1 w) (\<lambda>((got, exp), w).
     b7_loop img kb mkfs cs (if got = exp then fails else fails + 1) w)"

definition b7_main :: "byte list \<Rightarrow> byte list \<Rightarrow> (nat \<Rightarrow> nat \<Rightarrow> byte list) \<Rightarrow> world \<Rightarrow> nat prog" where
  "b7_main img kb mkfs w = b7_loop img kb mkfs b7_cases 0 w"

section \<open>simswd.py: the table type of a drive\<close>

definition BPBBLK_MAX_CLUST :: nat where "BPBBLK_MAX_CLUST = 19"
definition BPBBLK_LEN :: nat where "BPBBLK_LEN = 22"

definition swd_expect :: "nat \<Rightarrow> int" where
  "swd_expect mc = (if mc < 0x0FF6 then 0 else 1)"

text \<open>The hook for \<open>fat_flush\<close> only clears the flag.\<close>

definition swd_flush :: "unit hook" where
  "swd_flush c w = Returned (c\<lparr>carry := 0\<rparr>) w"

definition swd_setup :: "nat dict \<Rightarrow> byte list \<Rightarrow> nat \<Rightarrow> nat \<Rightarrow> world \<Rightarrow> (cpu \<times> world) res" where
  "swd_setup syms img mc target w =
     bind_res (dict_get syms ''drive_present'') (\<lambda>present.
     bind_res (cpu_wr (cpu_init img) (int (present + target)) 1) (\<lambda>c.
     bind_res (dict_get syms ''active_bpb_drive'') (\<lambda>active.
     bind_res (cpu_wr c (int active) 0) (\<lambda>c.
     bind_res (dict_get syms ''drive_bpb_table'') (\<lambda>table.
     let e = int (table + target * BPBBLK_LEN + BPBBLK_MAX_CLUST) in
     bind_res (cpu_wr c e (int (drop_bit 8 mc))) (\<lambda>c.
     bind_res (cpu_wr c (e + 1) (int (mc AND 0xFF))) (\<lambda>c.
     bind_res (dict_get syms ''bpb_fat16'') (\<lambda>flag.
     let (x, w) = getrandbits 8 w in
     bind_res (cpu_wr c (int flag) (int x)) (\<lambda>c.
     let (c, w) = randomize [0..<16] c w in
     bind_res (push16 0 (set_reg 6 SENT ((set_reg 2 0x7F00 c)\<lparr>xsel := 2\<rparr>))) (\<lambda>c.
     bind_res (dict_get syms ''_switch_drive'') (\<lambda>entry.
     Inr ((set_reg 3 (int entry) c)\<lparr>acc := int target\<rparr>, w))))))))))))"

definition swd_ok :: "nat dict \<Rightarrow> nat \<Rightarrow> cpu \<Rightarrow> bool res" where
  "swd_ok syms mc c =
     bind_res (dict_get syms ''bpb_fat16'') (\<lambda>flag.
     bind_res (cpu_rd c (int flag)) (\<lambda>got.
     if got \<noteq> swd_expect mc \<or> carry c \<noteq> 0 then Inr False
     else
       bind_res (dict_get syms ''bpb_max_clust'') (\<lambda>a.
       bind_res (cpu_rd c (int a)) (\<lambda>hi. Inr (hi = int (drop_bit 8 mc))))))"

definition swd_trial :: "nat dict \<Rightarrow> byte list \<Rightarrow> nat \<Rightarrow> nat \<Rightarrow> world \<Rightarrow> (bool \<times> world) prog" where
  "swd_trial syms img mc target w =
     bind_prog (Some (swd_setup syms img mc target w)) (\<lambda>(c, w).
     bind_prog (Some (dict_get syms ''fat_flush'')) (\<lambda>a.
     case run (\<lambda>pc. if pc = int a then Some swd_flush else None) c () of
       None \<Rightarrow> None
     | Some (Returned c _) \<Rightarrow> bind_prog (Some (swd_ok syms mc c)) (\<lambda>good. Some (Inr (good, w)))
     | Some (Raised e) \<Rightarrow> Some (Inl e)
     | Some (Stopped c _) \<Rightarrow> Some (Inl (RuntimeError ''Stop''))))"

definition swd_cases :: "(nat \<times> nat) list" where
  "swd_cases = concat (map (\<lambda>mc. [(mc, 1), (mc, 5)])
     [0x0000, 0x0002, 0x0B00, 0x0FF4, 0x0FF5, 0x0FF6, 0x0FF7, 0x1000, 0x10F5, 0xFFF5, 0xFFFF])"

fun swd_loop :: "nat dict \<Rightarrow> byte list \<Rightarrow> (nat \<times> nat) list \<Rightarrow> nat \<Rightarrow> world \<Rightarrow> nat prog" where
  "swd_loop syms img [] fails w = Some (Inr fails)"
| "swd_loop syms img ((mc, target) # cs) fails w =
     bind_prog (swd_trial syms img mc target w) (\<lambda>(good, w).
     swd_loop syms img cs (if good then fails else fails + 1) w)"

definition swd_main :: "nat dict \<Rightarrow> byte list \<Rightarrow> world \<Rightarrow> nat prog" where
  "swd_main syms img w = swd_loop syms img swd_cases 0 w"

section \<open>simperf.py: instruction counts\<close>

text \<open>A fresh \<open>World\<close>, drawn from the random numbers left.\<close>

definition next_world :: "world \<Rightarrow> world" where
  "next_world w = world_init (rng w)"

definition fat_sector :: "bool \<Rightarrow> nat \<Rightarrow> nat" where
  "fat_sector f16 cl = (if f16 then drop_bit 8 cl else drop_bit 9 (cl + cl div 2))"

definition perf_flags :: "nat dict \<Rightarrow> bool \<Rightarrow> nat \<Rightarrow> cpu \<Rightarrow> cpu res" where
  "perf_flags syms f16 i c =
     bind_res (dict_get syms ''bpb_fat16'') (\<lambda>flag.
     bind_res (cpu_wr c (int flag) (if f16 then 1 else 0)) (\<lambda>c.
     bind_res (dict_get syms ''fat_csec'') (\<lambda>csec.
     bind_res (cpu_wr c (int csec) 0) (\<lambda>c.
     bind_res (cpu_wr c (int csec + 1) (int i)) (\<lambda>c.
     bind_res (dict_get syms ''fat_dirty'') (\<lambda>dirty.
     cpu_wr c (int dirty) 0))))))"

definition perf_regs :: "nat \<Rightarrow> nat \<Rightarrow> nat \<Rightarrow> cpu \<Rightarrow> world \<Rightarrow> (cpu \<times> world) res" where
  "perf_regs entry cl v c w =
     (let (c, w) = randomize [0..<16] c w;
          c = set_reg 11 (int v) (set_reg 13 (int cl) ((set_reg 2 0x7F00 c)\<lparr>xsel := 2\<rparr>)) in
      bind_res (push16 0 (set_reg 6 SENT (c\<lparr>steps := 0\<rparr>))) (\<lambda>c. Inr (set_reg 3 (int entry) c, w)))"

text \<open>The hook that counts the calls of the hook it wraps.\<close>

definition count_hook :: "world hook \<Rightarrow> (nat \<times> world) hook" where
  "count_hook h c nw = (case h c (snd nw) of
       Returned c w \<Rightarrow> Returned c (fst nw + 1, w)
     | Raised e \<Rightarrow> Raised e
     | Stopped c w \<Rightarrow> Stopped c (fst nw + 1, w))"

text \<open>Instructions, loads, reads and writes of one call.\<close>

definition count_run :: "nat dict \<Rightarrow> byte list \<Rightarrow> bool \<Rightarrow> nat \<Rightarrow> nat \<Rightarrow> nat \<Rightarrow> bool \<Rightarrow> world
    \<Rightarrow> ((nat \<times> nat \<times> nat \<times> nat) \<times> world) prog" where
  "count_run syms img f16 entry cl v warm w =
     (let w = next_world w; i = fat_sector f16 cl in
      bind_prog (Some (perf_flags syms f16 (if warm then i else 0x7F) (cpu_init img))) (\<lambda>c.
      bind_prog (Some (dict_get syms ''fat_cache'')) (\<lambda>cache.
      bind_prog (Some (idx (disk w) i)) (\<lambda>s.
      bind_prog (Some (mk_hook syms)) (\<lambda>h.
      bind_prog (Some (perf_regs entry cl v (c\<lparr>mem := put_slice (mem c) cache (cache + 512) s\<rparr>) w)) (\<lambda>(c, w).
      bind_prog (Some (dict_get syms ''_fat_load_sector'')) (\<lambda>a.
      case run (\<lambda>pc. if pc = int a then Some (count_hook h) else None) c (0, w) of
        None \<Rightarrow> None
      | Some (Returned c nw) \<Rightarrow>
          Some (Inr ((steps c, fst nw, reads (snd nw), writes (snd nw)), snd nw))
      | Some (Raised e) \<Rightarrow> Some (Inl e)
      | Some (Stopped c nw) \<Rightarrow> Some (Inl (RuntimeError ''Stop'')))))))))"

definition real_start :: "nat dict \<Rightarrow> byte list \<Rightarrow> bool \<Rightarrow> nat \<Rightarrow> nat \<Rightarrow> nat \<Rightarrow> world \<Rightarrow> (cpu \<times> world) res" where
  "real_start syms img f16 entry cl v w =
     bind_res (perf_flags syms f16 (fat_sector f16 cl) (cpu_init img)) (\<lambda>c. perf_regs entry cl v c w)"

definition real_run :: "nat dict \<Rightarrow> byte list \<Rightarrow> bool \<Rightarrow> nat \<Rightarrow> nat \<Rightarrow> nat \<Rightarrow> world \<Rightarrow> (nat \<times> world) prog" where
  "real_run syms img f16 entry cl v w =
     bind_prog (Some (real_start syms img f16 entry cl v w)) (\<lambda>(c, w).
     case run (\<lambda>_. None) c () of
       None \<Rightarrow> None
     | Some (Returned c _) \<Rightarrow> Some (Inr (steps c, w))
     | Some (Raised e) \<Rightarrow> Some (Inl e)
     | Some (Stopped c _) \<Rightarrow> Some (Inl (RuntimeError ''Stop'')))"

text \<open>The rows of the two tables: each cluster with the counts of \<open>fat_get\<close> and \<open>fat_set\<close>.\<close>

definition perf_cases :: "(bool \<times> nat) list" where
  "perf_cases = [(True, 100), (False, 100), (False, 341)]"

fun perf_mocked :: "nat dict \<Rightarrow> byte list \<Rightarrow> (bool \<times> nat) list \<Rightarrow> world
    \<Rightarrow> (((nat \<times> nat \<times> nat \<times> nat) \<times> (nat \<times> nat \<times> nat \<times> nat)) list \<times> world) prog" where
  "perf_mocked syms img [] w = Some (Inr ([], w))"
| "perf_mocked syms img ((f16, cl) # cs) w =
     bind_prog (Some (dict_get syms ''fat_get'')) (\<lambda>eg.
     bind_prog (count_run syms img f16 eg cl 0 True w) (\<lambda>(g, w).
     bind_prog (Some (dict_get syms ''fat_set'')) (\<lambda>es.
     bind_prog (count_run syms img f16 es cl 0x0123 True w) (\<lambda>(s, w).
     bind_prog (perf_mocked syms img cs w) (\<lambda>(rows, w). Some (Inr ((g, s) # rows, w)))))))"

fun perf_real :: "nat dict \<Rightarrow> byte list \<Rightarrow> bool list \<Rightarrow> world \<Rightarrow> (nat \<times> nat) list prog" where
  "perf_real syms img [] w = Some (Inr [])"
| "perf_real syms img (f16 # fs) w =
     bind_prog (Some (dict_get syms ''fat_get'')) (\<lambda>eg.
     bind_prog (real_run syms img f16 eg 100 0 w) (\<lambda>(g, w).
     bind_prog (Some (dict_get syms ''fat_set'')) (\<lambda>es.
     bind_prog (real_run syms img f16 es 100 0x123 w) (\<lambda>(s, w).
     bind_prog (perf_real syms img fs w) (\<lambda>rows. Some (Inr ((g, s) # rows)))))))"

definition perf_main :: "nat dict \<Rightarrow> byte list \<Rightarrow> world
    \<Rightarrow> (((nat \<times> nat \<times> nat \<times> nat) \<times> (nat \<times> nat \<times> nat \<times> nat)) list \<times> (nat \<times> nat) list) prog" where
  "perf_main syms img w =
     bind_prog (perf_mocked syms img perf_cases w) (\<lambda>(rows, w).
     bind_prog (perf_real syms img [True, False] w) (\<lambda>real. Some (Inr (rows, real))))"

section \<open>Three tools, one cluster count\<close>

lemma root_sectors: "n mod 16 = 0 \<Longrightarrow> (n * 32 + 511) div 512 = drop_bit 4 (n::nat)"
proof -
  assume "n mod 16 = 0"
  then obtain k where "n = 16 * k" by (auto elim: dvdE simp flip: dvd_eq_mod_eq_0)
  then show ?thesis by (simp add: drop_bit_eq_div)
qed

text \<open>What opening a volume has read from its boot record.\<close>

lemma vol_init_record:
  assumes "vol_init img lba = Inr v"
  obtains t16 tot b where "b = file_get img (lba * SEC) 512" "24 \<le> length b"
    "unpack_H b 14 = Inr (v_rsvd v)" "unpack_H b 17 = Inr (v_rootents v)" "unpack_H b 22 = Inr (v_spf v)"
    "unat (b ! 13) = v_spc v" "unat (b ! 16) = v_nfats v" "v_spc v \<noteq> 0" "unpack_H b 19 = Inr t16"
    "(if t16 \<noteq> 0 then Inr t16 else unpack_I b 32) = Inr tot"
    "v_count v = (int tot - int (v_rsvd v + v_nfats v * v_spf v + (v_rootents v * 32 + 511) div 512))
       div int (v_spc v)"
    "v_fat12 v \<longleftrightarrow> v_count v < 4085"
proof -
  have rd0: "rd u 0 1 = Inr (file_get (v_img u) (v_base u) 512)" for u
    using file_read_nat [of "v_img u" "v_base u" 512] by (simp add: rd_def SEC_def)
  have h: "24 \<le> length xs" if "unpack_H xs 22 = Inr x" for xs x
    using that by (simp add: unpack_H_def split: if_splits)
  show ?thesis
    using assms unfolding vol_init_def Let_def bind_res_eq_Inr rd0
    by (elim exE conjE, intro that [OF refl])
      (auto simp: idx_eq_Inr unat_gt_0 SEC_def add.commute [of 511] dest: h split: if_split_asm)
qed

text \<open>
  C35. On a volume with a 16-bit sectors-per-FAT field and a root directory of whole
  sectors, the three tools agree, wherever the partition starts: the boot code's test
  expects the largest cluster number of the volume the volume tool opens, and refuses what
  has too many clusters, and the drive test expects the FAT12 flag exactly for the volumes
  the volume tool reads as FAT12.
\<close>

theorem tools_agree_on_clusters:
  assumes "vol_init img lba = Inr v" and "v_spf v \<noteq> 0" and "v_rootents v mod 16 = 0"
    and "0 \<le> v_count v"
  shows "\<exists>b. unpack_bpb (file_get img (lba * SEC) 512) = Inr b
    \<and> expected_clusters (file_get img (lba * SEC) 512) b part1
        = Inr (if 65525 \<le> v_count v then None else Some (v_count v + 1))
    \<and> (swd_expect (nat (v_count v + 1)) = 0 \<longleftrightarrow> v_fat12 v)"
proof -
  obtain t16 tot b where b: "b = file_get img (lba * SEC) 512" "24 \<le> length b"
    "unpack_H b 14 = Inr (v_rsvd v)" "unpack_H b 17 = Inr (v_rootents v)" "unpack_H b 22 = Inr (v_spf v)"
    "unat (b ! 13) = v_spc v" "unat (b ! 16) = v_nfats v" "v_spc v \<noteq> 0" "unpack_H b 19 = Inr t16"
    "(if t16 \<noteq> 0 then Inr t16 else unpack_I b 32) = Inr tot"
    and c: "v_count v = (int tot - int (v_rsvd v + v_nfats v * v_spf v + (v_rootents v * 32 + 511) div 512))
       div int (v_spc v)" and f: "v_fat12 v \<longleftrightarrow> v_count v < 4085"
    using vol_init_record [OF assms(1)] by metis
  let ?b = "\<lparr>b_spc = v_spc v, b_rsvd = v_rsvd v, b_nf = v_nfats v, b_roots = v_rootents v,
     b_tot16 = t16, b_spf = v_spf v\<rparr>"
  have "unpack_bpb b = Inr ?b"
    using b assms(2) by (simp add: unpack_bpb_def)
  moreover have "expected_clusters b ?b part1 = Inr (if 65525 \<le> v_count v then None else Some (v_count v + 1))"
    using b(8,10) c root_sectors [OF assms(3)]
    by (simp add: expected_clusters_def data_sector_def Let_def add.assoc split: if_splits)
  moreover have "swd_expect (nat (v_count v + 1)) = 0 \<longleftrightarrow> v_fat12 v"
    using f assms(4) by (simp add: swd_expect_def nat_less_iff)
  ultimately show ?thesis using b(1) by auto
qed

theorem tools_agree_on_clusters_witness:
  "\<exists>b. unpack_bpb (file_get demo_image 0 512) = Inr b
    \<and> expected_clusters (file_get demo_image 0 512) b 2048 = Inr (Some 2)"
  using tools_agree_on_clusters [OF demo_init, of 2048] by auto

section \<open>Instruction counts\<close>

lemma moves_count:
  assumes "run (\<lambda>_. None) c w = Some (Returned c1 w1)"
  shows "steps c \<le> steps c1 \<and> (moves (\<lambda>_. None) ^^ (steps c1 - steps c)) (c, w) (c1, w1)
    \<and> reg c1 3 = SENT \<and> (steps c \<le> 200000 \<longrightarrow> steps c1 \<le> 200000)"
proof -
  have "(moves (\<lambda>_. None))\<^sup>*\<^sup>* (c, w) (c1, w1)" and s: "reg c1 3 = SENT"
    using run_reaches [OF assms] by auto
  then have "\<exists>k. (moves (\<lambda>_. None) ^^ k) (c, w) (c1, w1)" by (simp add: rtranclp_power)
  then obtain k where k: "(moves (\<lambda>_. None) ^^ k) (c, w) (c1, w1)" ..
  have "steps (fst t) = steps (fst s) + k \<and> (steps (fst s) \<le> 200000 \<longrightarrow> steps (fst t) \<le> 200000)"
    if "(moves (\<lambda>_. None) ^^ k) s t" for k and s t :: "cpu \<times> 'a"
    using that
  proof (induction k arbitrary: t)
    case (Suc k)
    then obtain u where u: "(moves (\<lambda>_. None) ^^ k) s u" "moves (\<lambda>_. None) u t" by auto
    then have "steps (fst u) < 200000" "steps (fst t) = steps (fst u) + 1"
      by (auto elim!: moves.cases dest: cpu_step_steps)
    then show ?case using Suc.IH [OF u(1)] by simp
  qed simp
  from this [OF k] k s show ?thesis by auto
qed

lemma perf_regs_steps: "perf_regs entry cl v c w = Inr (c1, w1) \<Longrightarrow> steps c1 = 0"
  by (auto simp: perf_regs_def split: prod.splits dest!: steps_calls(5))

text \<open>
  C36. The count of a run without the mock always comes out or an exception does: the run
  ends, and the number reported is the number of instructions executed on the way to the
  sentinel, at most 200000.
\<close>

theorem real_run_counts_instructions:
  "case real_run syms img f16 entry cl v w of
     None \<Rightarrow> False
   | Some (Inl e) \<Rightarrow> True
   | Some (Inr (k, w1)) \<Rightarrow> k \<le> 200000 \<and> (\<exists>c c1. real_start syms img f16 entry cl v w = Inr (c, w1)
        \<and> (moves (\<lambda>_. None) ^^ k) (c, ()) (c1, ()) \<and> reg c1 3 = SENT)"
proof (cases "real_start syms img f16 entry cl v w")
  case (Inl e)
  then show ?thesis by (simp add: real_run_def)
next
  case (Inr cw)
  obtain c w0 where cw: "cw = (c, w0)" by fastforce
  obtain r where r: "run (\<lambda>_. None) c () = Some r" using run_ends_from [OF lessI, of c "()"] by (elim exE)
  have z: "steps c = 0"
    using Inr cw by (auto simp: real_start_def dest: perf_regs_steps)
  show ?thesis
  proof (cases r)
    case (Returned c1 u)
    then show ?thesis
      using moves_count [of c "()" c1 u] r Inr cw z by (auto simp: real_run_def)
  qed (use r Inr cw in \<open>simp_all add: real_run_def\<close>)
qed

end
