(* ===== verification/Sim_Verdict.thy ===== *)
theory Sim_Verdict
  imports Sim_Test
begin

text \<open>
  The verdict of \<open>tools/fat12-proto/sim12.py\<close>: what exit status 0 says about both loops, and
  a whole run of the program on the smallest kernel that passes.
\<close>

section \<open>The loop with the failing disk\<close>

text \<open>
  A round: the routine of the round is called on the cluster drawn, with the cache emptied and
  the disk about to fail, and returns with the flag set and the stack balanced.
\<close>

definition io_good :: "bool \<Rightarrow> nat dict \<Rightarrow> nat \<Rightarrow> test \<Rightarrow> test \<Rightarrow> bool" where
  "io_good f16 syms it t t1 \<longleftrightarrow> (\<exists>cl w c entry.
     (if it mod 2 \<noteq> 0 then choice (straddle f16) (t_world t) else randint 2 (maxcl f16) (t_world t)) = (cl, w)
     \<and> forget syms (t_cpu t) = Inr c
     \<and> map_of syms (if it mod 4 < 2 then ''fat_get'' else ''fat_set'') = Some entry
     \<and> call syms c (w\<lparr>fail_next := True\<rparr>) entry (int cl) 0 = Some (Inr (t_cpu t1, t_world t1))
     \<and> carry (t_cpu t1) = 1 \<and> reg (t_cpu t1) 2 = 0x7F00)"

lemma io_trial_fails:
  assumes "io_trial f16 syms it t = Some (Inr t1)"
  shows "t_fails t \<le> t_fails t1 \<and> (t_fails t1 = t_fails t \<longrightarrow> io_good f16 syms it t t1)"
proof -
  obtain cl w0 where cl: "(if it mod 2 \<noteq> 0 then choice (straddle f16) (t_world t)
                     else randint 2 (maxcl f16) (t_world t)) = (cl, w0)" by fastforce
  obtain c0 entry c w where c0: "forget syms (t_cpu t) = Inr c0"
    and entry: "map_of syms (if it mod 4 < 2 then ''fat_get'' else ''fat_set'') = Some entry"
    and call: "call syms c0 (w0\<lparr>fail_next := True\<rparr>) entry (int cl) 0 = Some (Inr (c, w))"
    and t1: "t1 = check_stack (counted t c w (carry c \<noteq> 1))"
    using assms unfolding io_trial_def cl Let_def prod.case bind_prog_Inr option.inject dict_get_eq_Inr by fastforce
  note cf = counted_fails [of t c w "carry c \<noteq> 1"]
  show ?thesis
  proof (intro conjI impI)
    show "t_fails t \<le> t_fails t1" unfolding t1 by (rule cf(1))
    assume "t_fails t1 = t_fails t"
    from cf(2) [OF this [unfolded t1]] have good: "carry c = 1" "reg c 2 = 0x7F00"
      and "t1 = counted t c w (carry c \<noteq> 1)" unfolding t1 by blast+
    from this(3) have "t_cpu t1 = c" "t_world t1 = w" by (simp_all add: counted_def)
    with good cl c0 entry call show "io_good f16 syms it t t1" unfolding io_good_def by blast
  qed
qed

interpretation ios: rounds "io_loop f16 syms" "io_trial f16 syms" for f16 syms
  by unfold_locales (simp_all add: io_trial_fails)

section \<open>The exit status\<close>

text \<open>
  C39. Exit status 0 says that both loops ran to their end and that no call went wrong:
  each of the \<open>iter\<close> calls agreed with the reference functions on the cluster drawn for it
  (\<open>trial_good\<close>), and each of the 2000 calls on a failing disk, on the cluster drawn for it,
  reported the error in the flag and left the stack balanced (\<open>io_good\<close>).
\<close>

theorem exit_zero_means_all_passed:
  assumes "sim_main sym_lines img env iter f16 r = Some (Inr 0)"
  shows "\<exists>img1 t0 t1 t2. patched img env = Inr img1 \<and> sim_start f16 (sim_syms sym_lines) img1 r = Inr t0
    \<and> test_loop f16 (sim_syms sym_lines) iter t0 = Some (Inr t1)
    \<and> io_loop f16 (sim_syms sym_lines) 2000 t1 = Some (Inr t2)
    \<and> (\<forall>k<iter. \<exists>s1 s2. test_loop f16 (sim_syms sym_lines) k t0 = Some (Inr s1)
        \<and> trial f16 (sim_syms sym_lines) s1 = Some (Inr s2) \<and> trial_good f16 (sim_syms sym_lines) s1 s2)
    \<and> (\<forall>k<2000. \<exists>s1 s2. io_loop f16 (sim_syms sym_lines) k t1 = Some (Inr s1)
        \<and> io_trial f16 (sim_syms sym_lines) k s1 = Some (Inr s2) \<and> io_good f16 (sim_syms sym_lines) k s1 s2)"
proof -
  let ?s = "sim_syms sym_lines"
  from assms obtain img1 t0 t1 t2 where r: "patched img env = Inr img1" "sim_start f16 ?s img1 r = Inr t0"
    "test_loop f16 ?s iter t0 = Some (Inr t1)" "io_loop f16 ?s 2000 t1 = Some (Inr t2)" "t_fails t2 = 0"
    by (auto simp: sim_main_def Let_def bind_prog_Inr simp del: io_loop.simps split: if_splits)
  have "t_fails t0 = 0" using r(2) by (auto simp: sim_start_def bind_res_eq_Inr)
  with tests.loop_counts [OF r(3)] ios.loop_counts [OF r(4)] r(5)
  have f: "t_fails t1 = t_fails t0" "t_fails t2 = t_fails t1" by simp_all
  have "\<exists>s1 s2. test_loop f16 ?s k t0 = Some (Inr s1) \<and> trial f16 ?s s1 = Some (Inr s2) \<and> trial_good f16 ?s s1 s2"
    if "k < iter" for k
    using tests.no_failure_in_round [OF r(3) f(1) that] trial_fails(2) by blast
  moreover have "\<exists>s1 s2. io_loop f16 ?s k t1 = Some (Inr s1) \<and> io_trial f16 ?s k s1 = Some (Inr s2) \<and> io_good f16 ?s k s1 s2"
    if "k < 2000" for k
    using ios.no_failure_in_round [OF r(4) f(2) that] io_trial_fails by blast
  ultimately show ?thesis using r by blast
qed

text \<open>A call of the hook on a failing disk, with nothing known of the cache.\<close>

lemma call_of_failing_hook:
  assumes sy: "map_of syms ''fat_cache'' = Some cache" "map_of syms ''fat_csec'' = Some csec"
      "map_of syms ''fat_dirty'' = Some dirty" "map_of syms ''_fat_load_sector'' = Some entry"
    and sh: "shape c" and f: "fail_next w" and en: "int entry \<noteq> SENT"
  shows "\<exists>c1 w1. call syms c w entry rd rb = Some (Inr (c1, w1)) \<and> carry c1 = 1 \<and> reg c1 2 = 0x7F00 \<and> shape c1"
proof -
  let ?h = "fls cache csec dirty"
  have hk: "mk_hook syms = Inr ?h" using sy by (simp add: mk_hook_def dict_get_def)
  from call_enters [OF sh sy(4), of entry rb rd w] hk f obtain c5 w4 where c5: "shape c5" "reg c5 2 = 0x7EFE"
    "reg c5 3 = int entry" "reg c5 6 = SENT" and w4: "fail_next w4"
    and run: "call syms c w entry rd rb = to_prog (run (\<lambda>pc. if pc = int entry then Some ?h else None) c5 w4)"
    by blast
  obtain c6 w6 where c6: "scramble (c5\<lparr>carry := 1\<rparr>) (w4\<lparr>fail_next := False\<rparr>) = (c6, w6)" by fastforce
  have h: "?h c5 w4 = Returned c6 w6" using w4 c6 by (simp add: fls_def fls_res_def)
  have c6s: "shape c6" "reg c6 2 = 0x7EFE" "reg c6 6 = SENT" "carry c6 = 1"
    using c6 c5(1,2,4) by (auto simp: scramble_def Let_def shape_def reg_def set_reg_def split: prod.splits)
  from hook_call_returns [where h = ?h, OF c5(3) en h c6s(1-3)] run c6s(4) show ?thesis by auto
qed

text \<open>A kernel whose two routines are the hook passes the second loop.\<close>

definition hook_kernel :: "nat dict \<Rightarrow> nat \<Rightarrow> bool" where
  "hook_kernel syms entry \<longleftrightarrow> int entry \<noteq> SENT
     \<and> list_all (\<lambda>n. map_of syms n \<noteq> None) [''fat_cache'', ''fat_csec'', ''fat_dirty'', ''bpb_fat16'']
     \<and> list_all (\<lambda>n. map_of syms n = Some entry) [''_fat_load_sector'', ''fat_get'', ''fat_set'']"

lemma forget_shape: "hook_kernel syms entry \<Longrightarrow> shape c \<Longrightarrow> \<exists>c1. forget syms c = Inr c1 \<and> shape c1"
  by (auto simp: hook_kernel_def forget_def dict_get_def cpu_abs)

lemma io_trial_passes:
  assumes "hook_kernel syms entry" and "shape (t_cpu t)"
  shows "\<exists>t1. io_trial f16 syms k t = Some (Inr t1) \<and> t_fails t1 = t_fails t \<and> shape (t_cpu t1)"
proof -
  obtain cl w0 where cl: "(if k mod 2 \<noteq> 0 then choice (straddle f16) (t_world t)
                     else randint 2 (maxcl f16) (t_world t)) = (cl, w0)" by fastforce
  obtain c where c: "forget syms (t_cpu t) = Inr c" "shape c" using forget_shape [OF assms] by blast
  from assms(1) obtain cache csec dirty where names: "map_of syms ''fat_cache'' = Some cache"
    "map_of syms ''fat_csec'' = Some csec" "map_of syms ''fat_dirty'' = Some dirty"
    "map_of syms ''_fat_load_sector'' = Some entry" and entry: "int entry \<noteq> SENT"
    by (auto simp: hook_kernel_def)
  have "fail_next (w0\<lparr>fail_next := True\<rparr>)" by simp
  from call_of_failing_hook [OF names c(2) this entry, of "int cl" 0] obtain c1 w1 where
    c1: "call syms c (w0\<lparr>fail_next := True\<rparr>) entry (int cl) 0 = Some (Inr (c1, w1))" "carry c1 = 1"
      "reg c1 2 = 0x7F00" "shape c1" by blast
  have "dict_get syms (if k mod 4 < 2 then ''fat_get'' else ''fat_set'') = Inr entry"
    using assms(1) by (simp add: hook_kernel_def dict_get_def)
  then have "io_trial f16 syms k t = Some (Inr (check_stack (counted t c1 w1 (carry c1 \<noteq> 1))))"
    unfolding io_trial_def cl Let_def prod.case c(1) bind_prog_simps
    by (simp only: bind_prog_simps c1(1) prod.case)
  with c1(2-4) show ?thesis by (simp add: check_stack_def counted_def)
qed

lemma io_loop_passes:
  assumes "hook_kernel syms entry" and "shape (t_cpu t)"
  shows "\<exists>t1. io_loop f16 syms n t = Some (Inr t1) \<and> t_fails t1 = t_fails t \<and> shape (t_cpu t1)"
proof (induction n)
  case (Suc n)
  then obtain t1 where "io_loop f16 syms n t = Some (Inr t1)" "t_fails t1 = t_fails t" "shape (t_cpu t1)" by blast
  with io_trial_passes [OF assms(1), of t1 f16 n] show ?case by auto
qed (simp add: assms)

lemma empty_run_passes:
  assumes hk: "hook_kernel (sim_syms sym_lines) entry" and len: "length img \<le> 65280"
  shows "sim_main sym_lines img [] 0 f16 r = Some (Inr 0)"
proof -
  let ?s = "sim_syms sym_lines"
  have "shape (cpu_init img)" using len by (simp add: shape_def cpu_init_def put_slice_def)
  with hk obtain a c where a: "map_of ?s ''bpb_fat16'' = Some a"
    "cpu_wr (cpu_init img) (int a) (if f16 then 1 else 0) = Inr c" "shape c"
    by (auto simp: hook_kernel_def cpu_abs)
  from forget_shape [OF hk a(3)] a(1,2) obtain t where
    t: "sim_start f16 ?s img r = Inr t" "t_fails t = 0" "shape (t_cpu t)"
    by (auto simp: sim_start_def dict_get_def)
  from io_loop_passes [OF hk t(3), of f16 2000] t(1,2) show ?thesis
    by (auto simp: sim_main_def patched_def)
qed

text \<open>Its symbol file.\<close>

definition demo_lines :: "string list" where
  "demo_lines = [''fat_cache 1000'', ''fat_csec 2000'', ''fat_dirty 2002'', ''bpb_fat16 2003'',
     ''_fat_load_sector 0100'', ''fat_get 0100'', ''fat_set 0100'']"

lemma demo_lines_syms:
  "sim_syms demo_lines = [(''fat_cache'', 0x1000), (''fat_csec'', 0x2000), (''fat_dirty'', 0x2002),
     (''bpb_fat16'', 0x2003), (''_fat_load_sector'', 0x100), (''fat_get'', 0x100), (''fat_set'', 0x100)]"
  by (simp add: sim_syms_def demo_lines_def sim_symbol_def strip_def is_space_def skip_ws_def is_lower_hex_def
      is_dec_def code_def from_digits_def digit_val_def)

lemma demo_hook_kernel: "hook_kernel (sim_syms demo_lines) 0x100"
  by (simp add: hook_kernel_def demo_lines_syms SENT_def)

theorem exit_zero_means_all_passed_witness:
  "\<exists>t1 t2. io_loop False (sim_syms demo_lines) 1999 t1 = Some (Inr t2)
     \<and> (\<exists>t3. io_trial False (sim_syms demo_lines) 1999 t2 = Some (Inr t3)
        \<and> io_good False (sim_syms demo_lines) 1999 t2 t3)"
proof -
  have "sim_main demo_lines [] [] 0 False (\<lambda>_. 0) = Some (Inr 0)"
    by (rule empty_run_passes [OF demo_hook_kernel]) simp
  from exit_zero_means_all_passed [OF this] obtain t1 where
    "\<forall>k<2000. \<exists>s1 s2. io_loop False (sim_syms demo_lines) k t1 = Some (Inr s1)
        \<and> io_trial False (sim_syms demo_lines) k s1 = Some (Inr s2) \<and> io_good False (sim_syms demo_lines) k s1 s2" by blast
  from this [THEN spec, of 1999] show ?thesis by (simp del: io_loop.simps) blast
qed

end
