(* ===== verification/Spec2Isabelle.thy ===== *)
theory Spec2Isabelle
  imports Disk_Chain Md_Doc Split_Kernel Kernel_Margin Sim_Scripts Sim_Verdict
begin

text \<open>
  This development models the host tools of ELF-DOS, a disk operating system for the CDP1802:
  the Python programs that build the kernel image, check its memory layout, prepare test
  disks, simulate the kernel's table code and give the reference rendering of Markdown. The
  system itself is 1802 assembly; it appears here only through what these tools say of it.

  \<^bold>\<open>Conventions.\<close> A byte is an \<open>8 word\<close>, an integer that Python does not mask an \<open>int\<close> or a
  \<open>nat\<close>, text a \<open>string\<close> (Latin-1) or a list of code points. A function that can raise has
  type \<open>'a res\<close>: \<open>Inl\<close> the exception (a \<open>py_error\<close>) or \<open>Inr\<close> the value. A method that changes
  its object takes the object's record and returns it changed; where it can raise after a
  change it returns the changed record beside the result. A \<open>dict\<close> is an association list in
  insertion order. Indexing out of range is the \<open>IndexError\<close> Python raises, negative indices
  and slices count from the end (\<open>idx\<close>, \<open>py_index\<close>, \<open>slice\<close>, \<open>put_slice\<close> in Prelude).

  \<^bold>\<open>The volume tool\<close>, src/tools/fat12-proto/fatx.py. Disk_File is the opened image file
  (\<open>file_get\<close>, \<open>file_put\<close>, with a hole filled by zeros) and the locale \<open>block_store\<close> with the
  laws of writes that do not overlap. Fat_Table has the FAT12 and FAT16 packings of
  \<open>Vol.get\<close> and \<open>Vol.set\<close> (\<open>get12\<close>, \<open>set12\<close>, \<open>get16\<close>, \<open>set16\<close>), the reference functions of
  sim12.py, and the locale \<open>fat_codec\<close>, a table of cluster entries, interpreted on each of
  them and on the volume (\<open>c12\<close>, \<open>c16\<close>, \<open>r12\<close>, \<open>r16\<close>, \<open>vol\<close>); chains are linked and read
  through it alone. Fat_Volume is the class \<open>Vol\<close>: the record \<open>vol\<close> has the attributes of the
  object and the image, \<open>vol_init\<close> is \<open>__init__\<close>, \<open>chain_loop\<close> the \<open>while\<close> of \<open>chain\<close> (its
  measure is the distance to the loop check's bound), \<open>dir_slot\<close>, \<open>scan_slots\<close> and
  \<open>scan_sectors\<close> the generator \<open>entries\<close>, \<open>find_path\<close>, \<open>readfile\<close> and \<open>putroot\<close> the methods of
  these names. Fat_Readback follows \<open>putroot\<close> through its three stages (clusters, table
  copies, directory entry) under the invariant \<open>sound\<close>, which \<open>vol_init\<close> establishes from a
  consistent boot record (\<open>describes\<close>, \<open>fat_room\<close>), and shows that \<open>readfile\<close> returns what was
  written; Fat_Keep shows what happens to the other files and on a volume that is too small.

  \<^bold>\<open>The Markdown renderer\<close>, src/tools/mdvref.py. Md_Wrap has the classes \<open>Out\<close> and \<open>Wrap\<close> and
  a terminal (\<open>feed\<close>) as the specification: the rows of a block show exactly the text that
  was put, in its styles, within the width. Md_Inline is \<open>render_inline\<close>, one definition per
  branch of its loop; Md_Inline_Safe shows it total on NUL-terminated texts. Md_Doc is the
  class \<open>Doc\<close>, \<open>render\<close> and \<open>main\<close>. What a row must satisfy is carried through all of them by
  the locales \<open>wrap_property\<close> and \<open>doc_property\<close>: a property that \<open>put\<close> and its companions keep
  is kept by every operation above them, and the interpretations instantiate it with the
  width and with the printable bytes.

  \<^bold>\<open>The build tools.\<close> Py_Text has the string methods they use. Equ_Files and Intel_Hex are the
  constants and the HEX format of src/tools/split_kernel.py, with an independent loader of
  the format; Split_Kernel is its \<open>main\<close> and src/tools/rom_info.py, on a file system that is a
  map from paths to contents. Kernel_Margin is src/tools/check_kernel_margin.py: its two
  patterns as scanners, the expressions, the linker's report and the four checks, whose
  combined verdict \<open>layout_fails\<close> is compared with a specification of a safe layout.

  \<^bold>\<open>The simulator\<close>, src/tools/fat12-proto/sim12.py. Cpu_1802 is the class \<open>CPU\<close>: the record
  \<open>cpu\<close>, \<open>cpu_step\<close> one turn of the loop with the dispatch \<open>execute\<close> in the order of the
  source, and \<open>run\<close> the loop itself, a \<open>partial_function\<close> whose value is \<open>None\<close> when it does not
  return. Cpu_Isa is the instruction set on machine words (\<open>isa_step\<close>), which the simulator's
  integers refine along \<open>abs_cpu\<close>. Cpu_Run is the loop as a step relation (\<open>moves\<close>): a
  call of a hooked address comes back to its caller, the budget of 200000 instructions bounds
  the loop when nothing is hooked, and programs of the instruction set run to their end.
  Sim_Disk is the model disk and the hook that stands for the kernel's sector loader; the
  state of both is \<open>world\<close>, with the random numbers as an arbitrary stream. Sector_Cache shows
  that the hook is a cache of the table: the table with the cached changes in place
  (\<open>effective_at\<close>, the expectation of the tests) stays the same whatever is loaded. Sim_Test is
  the rest of the script: symbols, patches, \<open>call\<close>, which is shown to come back from the loader
  with its registers and its stack, the trials and both loops, which share the locale
  \<open>rounds\<close>; a program is a result that may be missing. Sim_Verdict reads the exit status.
  Sim_Scripts has simb7.py, simswd.py and simperf.py.

  \<^bold>\<open>Between the parts.\<close> The images of one build agree in all their files and are accepted by
  rom_info.py (Split_Kernel); \<open>eval_expr\<close> extends \<open>eval_equ\<close> (Kernel_Margin); the drivers'
  expected cluster counts are those of the volume tool (Sim_Scripts); Disk_Chain takes the
  image the volume tool leaves as the simulator's disk, and the property below says what the
  test driver then expects of the kernel: the table and the chain that were written.

  \<^bold>\<open>Parameters.\<close> The linker (the lines it prints or writes, or none), mkfs.fat (an image), the
  kernel image and its symbols, the environment, the files' contents and the random numbers are
  arguments. \<open>str.lower\<close> beyond Latin-1 is a parameter, with the hypothesis \<open>lower_ok\<close> that it is
  the Latin-1 function below code point 256.

  \<^bold>\<open>Not modelled.\<close> What the programs print, except where a driver's result is what it prints;
  the parsing of arguments by argparse; the opening and closing of files and processes; the
  texts of exceptions beyond their kind; the conversion of undecodable UTF-16 beyond the
  replacement character. The boot loader, the kernel, the libraries, the programs and their
  tests are 1802 assembly and the shell and PowerShell scripts only start other programs; none
  of them is modelled.
\<close>

section \<open>The volume tool and the test driver on one disk\<close>

text \<open>
  C40. The volume tool and the simulator's driver meet on the disk: on a FAT12 volume whose
  table has as many sectors as the model disk, after \<open>putroot\<close> take the table sectors of the
  image as the model disk, with nothing cached. Whatever sector the loader is then called
  for, the table the driver takes as the expectation is the volume's own, and its reference
  function, which the kernel's \<open>fat_get\<close> is tested against, follows the chain of the file just
  written and reads the end-of-chain mark after its last cluster.
\<close>

theorem driver_reads_the_written_chain:
  assumes "sound v" and "v_fat12 v" and "v_spf v = NSEC" and "0 < v_nfats v" and "name_fits nm"
    and "putroot v nm data = (v', Inr cs)"
    and "map_of tbl ''fat_cache'' = Some cache" and "map_of tbl ''fat_csec'' = Some csec"
    and "map_of tbl ''fat_dirty'' = Some dirty" and "map_of tbl ''_fat_load_sector'' = Some entry"
    and "places cache csec dirty" and "\<not> private_to cache csec dirty 0x7F00"
    and "\<not> private_to cache csec dirty 0x7EFF" and "int entry \<noteq> SENT"
    and "shape c" and "current csec c = 0xFFFF" and "mem c ! dirty = 0" and "disk w = fat_sectors v'"
    and "0 \<le> d13" and "d13 < 256 * int NSEC"
  shows "\<exists>c1 w1. call tbl c w entry d13 d11 = Some (Inr (c1, w1)) \<and> effective tbl c1 w1 = Inr (v_fat v')
    \<and> (\<not> fail_next w \<longrightarrow> window cache c1 = fat_sectors v' ! nat (d13 div 256))
    \<and> (\<forall>j<length cs. ref_get False (v_fat v') (cs ! j)
          = Inr (if j + 1 < length cs then cs ! (j + 1) else 0xFFFF))"
proof -
  note tab = putroot_table [OF assms(1,6,5,2)]
  have len: "\<forall>s\<in>set (fat_sectors v'). length s = 512" "length (fat_sectors v') = NSEC"
    using putroot_fat_sectors [OF assms(1,6,5,2,4)] assms(3) by simp_all
  have ok: "sim_ok cache csec dirty c w" using len assms(15-18) by (simp add: sim_ok_def)
  have "effective_at cache csec dirty c w = Inr (v_fat v')"
    using effective_at_sectors [OF assms(11) ok] assms(17,18) tab(1) [OF assms(4)] by (simp add: sectors_of_def)
  from call_of_loader [OF assms(7-11) ok assms(19,20,14,12,13) this, of d11] obtain c1 w1 where
    c1: "call tbl c w entry d13 d11 = Some (Inr (c1, w1))" "effective_at cache csec dirty c1 w1 = Inr (v_fat v')"
    "\<not> fail_next w \<longrightarrow> window cache c1 = take 512 (drop (512 * nat (d13 div 256)) (v_fat v'))" by blast
  have "nat (d13 div 256) < length (fat_sectors v')" using assms(19,20) len(2) by (simp add: NSEC_def)
  then have "take 512 (drop (512 * nat (d13 div 256)) (v_fat v')) = fat_sectors v' ! nat (d13 div 256)"
    using sector_of_concat [OF len(1)] tab(1) [OF assms(4)] by simp
  moreover have "effective tbl c1 w1 = Inr (v_fat v')"
    using c1(2) assms(7-9) by (simp add: effective_def dict_get_def)
  moreover have "ref_get False (v_fat v') (cs ! j) = Inr (if j + 1 < length cs then cs ! (j + 1) else 0xFFFF)"
    if "j < length cs" for j
    using ref12_link [OF tab(3) [OF that]] tab(4) [of "cs ! (j + 1)"] by (simp add: ref_get_def)
  ultimately show ?thesis using c1(1,3) by auto
qed

theorem driver_reads_the_written_chain_witness:
  "\<exists>v' w c1 w1. putroot demo_large demo_name [1, 2, 3] = (v', Inr [2]) \<and> disk w = fat_sectors v'
    \<and> call demo_syms fresh_cpu w 0x100 0x300 0 = Some (Inr (c1, w1))
    \<and> effective demo_syms c1 w1 = Inr (v_fat v') \<and> ref_get False (v_fat v') 2 = Inr 0xFFFF"
proof -
  obtain v' where put: "putroot demo_large demo_name [1, 2, 3] = (v', Inr [2])" by (rule demo_large_put)
  define w where "w = (world_init (\<lambda>_. 0))\<lparr>disk := fat_sectors v'\<rparr>"
  have geo: "v_fat12 demo_large" "v_spf demo_large = NSEC" "0 < v_nfats demo_large"
    by (simp_all add: demo_large_def NSEC_def)
  have st: "\<not> private_to 0x1000 0x2000 0x2002 0x7F00" "\<not> private_to 0x1000 0x2000 0x2002 0x7EFF" "int 0x100 \<noteq> SENT"
    by (simp_all add: private_to_def SENT_def)
  have cpu: "shape fresh_cpu" "current 0x2000 fresh_cpu = 0xFFFF" "mem fresh_cpu ! 0x2002 = 0"
    using fresh_ok(2) by (simp_all add: sim_ok_def current_def fresh_cpu_def)
  have w: "disk w = fat_sectors v'" by (simp add: w_def)
  from driver_reads_the_written_chain [OF demo_large_sound geo name_ok_parts(1) [OF demo_name_ok] put demo_places
      fresh_ok(1) st cpu w, of "0x300" 0] put w
  show ?thesis by (fastforce simp: NSEC_def)
qed

end
